(* ===== verification/Prelude.thy ===== *)
theory Prelude
  imports Main "HOL-Library.Word" "HOL-Library.Sublist"
begin

text \<open>
  Shared vocabulary of the development: machine integers at the width the C and Rust sources
  give them, byte strings in big-endian order, C's view of integers as truth values, the generic
  facts on lists and words that the component theories use, and the contract of a labelled
  transition system with a history invariant, which the protocol components instantiate.
\<close>

section \<open>Machine integers and byte strings\<close>

unbundle bit_operations_syntax

type_synonym u8 = "8 word"
type_synonym u16 = "16 word"
type_synonym u32 = "32 word"
type_synonym u64 = "64 word"
type_synonym bytes = "u8 list"

named_theorems word_facts \<open>facts that read words as numbers\<close>
named_theorems list_facts \<open>facts on updated and sliced lists\<close>

abbreviation INT_MAX :: int where "INT_MAX \<equiv> 2147483647"
abbreviation SIZE_MAX :: nat where "SIZE_MAX \<equiv> 18446744073709551615"

text \<open>C's reading of a bit-field test \<open>x & m\<close> as a condition.\<close>

definition has_flag :: "'a::len word \<Rightarrow> 'a word \<Rightarrow> bool" where
  "has_flag x m \<longleftrightarrow> x AND m \<noteq> 0"

text \<open>Big-endian reading of a byte string, and its inverse at a fixed length.\<close>

fun be_nat :: "bytes \<Rightarrow> nat" where
  "be_nat [] = 0"
| "be_nat (b # bs) = unat b * 256 ^ length bs + be_nat bs"

fun nat_be :: "nat \<Rightarrow> nat \<Rightarrow> bytes" where
  "nat_be 0 v = []"
| "nat_be (Suc n) v = nat_be n (v div 256) @ [of_nat (v mod 256)]"

lemma length_nat_be [simp]: "length (nat_be n v) = n"
  by (induction n arbitrary: v) auto

lemma be_nat_append: "be_nat (xs @ ys) = be_nat xs * 256 ^ length ys + be_nat ys"
  by (induction xs) (auto simp: algebra_simps power_add)

lemma be_nat_bound: "be_nat bs < 256 ^ length bs"
proof (induction bs)
  case Nil
  then show ?case by simp
next
  case (Cons b bs)
  have "unat b < 256" using unsigned_less [of b] by simp
  then have "unat b + 1 \<le> 256" by simp
  then have "(unat b + 1) * 256 ^ length bs \<le> 256 * 256 ^ length bs"
    by (rule mult_right_mono) simp
  then have "unat b * 256 ^ length bs + 256 ^ length bs \<le> 256 * 256 ^ length bs"
    by (simp add: add_mult_distrib)
  with Cons have "unat b * 256 ^ length bs + be_nat bs < 256 * 256 ^ length bs"
    by linarith
  then show ?case by simp
qed

lemma unat_of_nat_u8 [word_facts]: "unat (of_nat n :: u8) = n mod 256"
  by (simp add: unat_of_nat)

lemma be_nat_nat_be: "be_nat (nat_be n v) = v mod 256 ^ n"
proof (induction n arbitrary: v)
  case 0
  then show ?case by simp
next
  case (Suc n)
  have "be_nat (nat_be (Suc n) v) = (v div 256 mod 256 ^ n) * 256 + v mod 256"
    by (simp add: be_nat_append Suc unat_of_nat_u8)
  also have "\<dots> = v mod (256 * 256 ^ n)"
    by (metis add.commute mod_mult2_eq mult.commute)
  finally show ?case by simp
qed

lemma nat_be_be_nat: "nat_be (length bs) (be_nat bs) = bs"
proof (induction bs rule: rev_induct)
  case Nil
  then show ?case by simp
next
  case (snoc b bs)
  have "unat b < 256" using unsigned_less [of b] by simp
  then have "(be_nat bs * 256 + unat b) div 256 = be_nat bs"
    and "(be_nat bs * 256 + unat b) mod 256 = unat b"
    by simp_all
  with snoc show ?case by (simp add: be_nat_append)
qed

lemma be_nat_inject: "length xs = length ys \<Longrightarrow> be_nat xs = be_nat ys \<Longrightarrow> xs = ys"
  by (metis nat_be_be_nat)

section \<open>Words assembled from bytes\<close>

lemma unat_lt_256: "unat (b :: u8) < 256"
  using unsigned_less [of b] by simp

lemma unat_drop_bit: "unat (drop_bit k (v :: 'a::len word)) = unat v div 2 ^ k"
  by (simp only: unsigned_drop_bit_eq) (simp add: drop_bit_eq_div take_bit_nat_eq_self)

lemma nat_or_push: assumes "b < 2 ^ n" shows "push_bit n (a::nat) OR b = a * 2 ^ n + b"
proof -
  have "b = take_bit n b" using assms by (simp add: take_bit_nat_eq_self)
  then have "\<not> bit (push_bit n a) i \<or> \<not> bit b i" for i
    by (metis bit_push_bit_iff bit_take_bit_iff linorder_not_less)
  then have "push_bit n a + b = push_bit n a OR b"
    by (rule disjunctive_add)
  then show ?thesis by (simp add: push_bit_eq_mult)
qed
lemma unat_or_push:
  fixes x y :: "'a::len word"
  assumes "unat y < 2 ^ n" "unat x * 2 ^ n < 2 ^ LENGTH('a)"
  shows "unat (push_bit n x OR y) = unat x * 2 ^ n + unat y"
proof -
  have "unat (push_bit n x) = push_bit n (unat x)"
    using assms(2) by (simp only: unsigned_push_bit_eq) (simp add: push_bit_eq_mult take_bit_nat_eq_self)
  then show ?thesis using nat_or_push[OF assms(1)] by (simp only: unsigned_or_eq)
qed
lemma unat_ucast_u8_u64: "unat (ucast (x::u8) :: u64) = unat x"
  using unat_lt_256[of x] by (simp add: unsigned_ucast_eq take_bit_nat_eq_self)
lemma has_flag_push: "n < 64 \<Longrightarrow> has_flag (m :: u64) (push_bit n 1) \<longleftrightarrow> bit m n"
  unfolding has_flag_def push_bit_of_1 by (simp add: and_exp_eq_0_iff_not_bit)

lemma sint_u64: "sint (x::u64) = (if uint x < 2^63 then uint x else uint x - 2^64)"
proof -
  have "0 \<le> uint x" "uint x < 2^64" using uint_lt2p[of x] by simp_all
  moreover have "sint x = (uint x + 2^63) mod 2^64 - 2^63"
    by (simp add: sint_uint signed_take_bit_eq_take_bit_shift take_bit_eq_mod)
  moreover have "(uint x + 2^63) mod 2^64 = uint x - 2^63" if "2^63 \<le> uint x" "uint x < 2^64"
    using that mod_add_self2[of "uint x - 2^63" "2^64"] by (simp add: add.commute)
  ultimately show ?thesis by simp
qed
lemma length8: "length (c::'a list) = 8 \<Longrightarrow> \<exists>a b d e f g h i. c = [a,b,d,e,f,g,h,i]"
  by (auto simp: numeral_eq_Suc length_Suc_conv)

section \<open>Arrays of cells\<close>

text \<open>\<^verbatim>\<open>memmove\<close> of \<open>n\<close> cells inside one array, from index \<open>src\<close> to index \<open>dst\<close>,
  where both ranges lie inside the array.\<close>

definition memmove :: "'a list \<Rightarrow> nat \<Rightarrow> nat \<Rightarrow> nat \<Rightarrow> 'a list" where
  "memmove xs dst src n = take dst xs @ take n (drop src xs) @ drop (dst + n) xs"

lemma length_memmove [list_facts]:
  "dst + n \<le> length xs \<Longrightarrow> src + n \<le> length xs \<Longrightarrow> length (memmove xs dst src n) = length xs"
  by (simp add: memmove_def)

lemma memmove_up_update [list_facts]:
  assumes "loc \<le> n" "n < length xs"
  shows "(memmove xs (Suc loc) loc (n - loc))[loc := v] =
    take loc xs @ v # drop loc (take n xs) @ drop (Suc n) xs"
proof -
  have "take (Suc loc) xs = take loc xs @ [xs ! loc]"
    using assms by (simp add: take_Suc_conv_app_nth)
  then show ?thesis
    using assms by (simp add: memmove_def list_update_append drop_take)
qed

lemma take_append_length: "length xs = n \<Longrightarrow> take n (xs @ ys) = xs"
  by simp

lemma take_memmove_up [list_facts]:
  assumes "loc \<le> n" "n < length xs"
  shows "take (Suc n) ((memmove xs (Suc loc) loc (n - loc))[loc := v]) =
    take loc xs @ v # drop loc (take n xs)"
  unfolding memmove_up_update [OF assms]
  using assms take_append_length [of "take loc xs @ v # drop loc (take n xs)" "Suc n"] by simp

lemma take_memmove_down [list_facts]:
  assumes "loc < n" "n \<le> length xs"
  shows "take (n - 1) (memmove xs loc (Suc loc) (n - loc - 1)) =
    take loc xs @ drop (Suc loc) (take n xs)"
proof -
  have "length (take loc xs @ take (n - loc - 1) (drop (Suc loc) xs)) = n - 1"
    using assms by simp
  from take_append_length [OF this] show ?thesis
    by (simp add: memmove_def drop_take)
qed

section \<open>Subsequences of histories\<close>

lemma subseq_snoc_same: "subseq xs ys \<Longrightarrow> subseq (xs @ [x]) (ys @ [x])"
  by (simp add: list_emb_append_mono)

lemma subseq_snoc: "subseq xs ys \<Longrightarrow> subseq xs (ys @ [y])"
  using list_emb_append_mono [of "(=)" xs ys "[]" "[y]"] by simp

section \<open>Transition systems with a history invariant\<close>

text \<open>
  \<open>run step s es t\<close>: from \<open>s\<close> the labelled steps \<open>es\<close> lead to \<open>t\<close>, oldest label first.
\<close>

inductive run :: "('s \<Rightarrow> 'e \<Rightarrow> 's \<Rightarrow> bool) \<Rightarrow> 's \<Rightarrow> 'e list \<Rightarrow> 's \<Rightarrow> bool"
  for step where
  run_nil: "run step s [] s"
| run_snoc: "run step s es t \<Longrightarrow> step t e u \<Longrightarrow> run step s (es @ [e]) u"

inductive_cases run_snocE: "run step s (es @ [e]) u"

lemma run_cons:
  assumes "run step t es u" "step s e t"
  shows "run step s (e # es) u"
  using assms
proof (induction rule: run.induct)
  case (run_nil s')
  show ?case using run.run_snoc [of step, OF run.run_nil run_nil] by (simp only: append_Nil)
next
  case (run_snoc s' es t' e' u')
  show ?case using run.run_snoc [of step s "e # es" t' e' u'] run_snoc by simp
qed

locale history_invariant =
  fixes init :: "'s \<Rightarrow> bool"
    and step :: "'s \<Rightarrow> 'e \<Rightarrow> 's \<Rightarrow> bool"
    and inv :: "'e list \<Rightarrow> 's \<Rightarrow> bool"
  assumes inv_init: "init s \<Longrightarrow> inv [] s"
    and inv_step: "inv h s \<Longrightarrow> step s e t \<Longrightarrow> inv (h @ [e]) t"
begin

lemma inv_run: "run step s es t \<Longrightarrow> init s \<Longrightarrow> inv es t"
  by (induction rule: run.induct) (auto intro: inv_init inv_step)

end

section \<open>Loops\<close>

text \<open>
  A loop whose body ends in the next state or in the value returned. The result is
  \<^const>\<open>None\<close> where the loop, or a loop inside its body, does not end.
\<close>

partial_function (option) iterate :: "('c \<Rightarrow> ('c + 'r) option) \<Rightarrow> 'c \<Rightarrow> 'r option" where
  "iterate body c =
     (case body c of
        None \<Rightarrow> None
      | Some x \<Rightarrow> (case x of Inl d \<Rightarrow> iterate body d | Inr r \<Rightarrow> Some r))"

lemma iterate_invariant:
  assumes ret: "iterate body c = Some r" and inv: "P c"
    and step: "\<And>c d. P c \<Longrightarrow> body c = Some (Inl d) \<Longrightarrow> P d"
    and exit: "\<And>c r. P c \<Longrightarrow> body c = Some (Inr r) \<Longrightarrow> Q r"
  shows "Q r"
proof -
  have "(\<forall>c d. P c \<longrightarrow> body c = Some (Inl d) \<longrightarrow> P d) \<longrightarrow>
    (\<forall>c r. P c \<longrightarrow> body c = Some (Inr r) \<longrightarrow> Q r) \<longrightarrow> P c \<longrightarrow> Q r"
  proof (rule iterate.raw_induct [where P = "\<lambda>body c r. (\<forall>c d. P c \<longrightarrow> body c = Some (Inl d) \<longrightarrow> P d) \<longrightarrow>
      (\<forall>c r. P c \<longrightarrow> body c = Some (Inr r) \<longrightarrow> Q r) \<longrightarrow> P c \<longrightarrow> Q r", OF _ ret], goal_cases)
    case (1 f body c r)
    from 1(2) 1(1) show ?case
      by (auto split: option.splits sum.splits)
  qed
  then show ?thesis using inv step exit by blast
qed

lemma iterate_returns:
  fixes m :: "'c \<Rightarrow> nat"
  assumes "P c" and "\<And>c. P c \<Longrightarrow> \<exists>x. body c = Some x"
    and "\<And>c d. P c \<Longrightarrow> body c = Some (Inl d) \<Longrightarrow> P d \<and> m d < m c"
  shows "\<exists>r. iterate body c = Some r"
  using assms(1)
proof (induction "m c" arbitrary: c rule: less_induct)
  case less
  obtain x where x: "body c = Some x" using assms(2) [OF less.prems] by blast
  show ?case
  proof (cases x)
    case (Inl d)
    with x assms(3) [OF less.prems] less.hyps have "\<exists>r. iterate body d = Some r" by blast
    with x Inl show ?thesis by (subst iterate.simps) simp
  next
    case (Inr r)
    with x show ?thesis by (subst iterate.simps) simp
  qed
qed

end
