(* ===== verification/BlockLock.thy ===== *)
theory BlockLock
  imports Prelude
begin

text \<open>
  The on-chain program, \<^verbatim>\<open>programs/blocklockcore/src/lib.rs\<close>: the instructions \<^verbatim>\<open>lock_tokens\<close> and
  \<^verbatim>\<open>unlock_tokens\<close> over the accounts that their \<^verbatim>\<open>#[derive(Accounts)]\<close> structs declare. The ledger
  holds the \<^verbatim>\<open>UserLockInfo\<close> accounts of the program by address. The Solana runtime and Anchor are
  not part of the repository: the derivation of a program address from seeds is the parameter
  \<open>find_pda\<close>, the clock sysvar is an argument of each instruction (absent when reading it
  fails), and an instruction that returns an error leaves the ledger as it was. The workspace
  builds with \<^verbatim>\<open>overflow-checks = true\<close>, so the \<^verbatim>\<open>i64\<close> addition of the lock duration panics on
  overflow. Anchor's loading of the other accounts an instruction names (that the token account, the
  mint and the token program deserialise and that accounts marked \<^verbatim>\<open>mut\<close> are writable) is taken to have
  succeeded: an instruction it refuses never reaches the program. \<^verbatim>\<open>u64\<close> and \<^verbatim>\<open>i64\<close> values are 64-bit words; \<^verbatim>\<open>i64\<close> comparisons are signed.
\<close>

section \<open>Accounts and instructions\<close>

type_synonym pubkey = bytes

record UserLockInfo =
  locked_amount :: u64
  unlock_time :: u64
  owner :: pubkey

datatype BlocklockError =
    LockNotExpired | InvalidOwner | InvalidMint
  | ConstraintSeeds | AccountNotInitialized | SysvarUnavailable | ArithmeticOverflow

type_synonym ledger = "pubkey \<rightharpoonup> UserLockInfo"

record LockTokens =
  lt_user :: pubkey
  lt_user_lock_info :: pubkey
  lt_token_account_mint :: pubkey
  lt_mint :: pubkey

record UnlockTokens =
  ut_user :: pubkey
  ut_user_lock_info :: pubkey
  ut_owner :: pubkey

definition user_lock_info_seeds :: "pubkey \<Rightarrow> bytes list" where
  "user_lock_info_seeds user =
     [[0x75, 0x73, 0x65, 0x72, 0x5F, 0x6C, 0x6F, 0x63, 0x6B, 0x5F, 0x69, 0x6E, 0x66, 0x6F], user]"

definition zero_lock_info :: UserLockInfo where
  "zero_lock_info = \<lparr>locked_amount = 0, unlock_time = 0, owner = replicate 32 0\<rparr>"

text \<open>\<^verbatim>\<open>init_if_needed\<close> with \<^verbatim>\<open>seeds\<close>: the account has the derived address, and is created
  zeroed when it does not exist.\<close>

definition init_if_needed :: "(bytes list \<Rightarrow> pubkey) \<Rightarrow> LockTokens \<Rightarrow> ledger \<Rightarrow> BlocklockError + UserLockInfo" where
  "init_if_needed find_pda c l =
     (if lt_user_lock_info c \<noteq> find_pda (user_lock_info_seeds (lt_user c)) then Inl ConstraintSeeds
      else Inr (case l (lt_user_lock_info c) of None \<Rightarrow> zero_lock_info | Some i \<Rightarrow> i))"

definition lock_duration :: u64 where
  "lock_duration = 24 * 60 * 60"

definition checked_add_i64 :: "u64 \<Rightarrow> u64 \<Rightarrow> BlocklockError + u64" where
  "checked_add_i64 a b =
     (if sint a + sint b < - (2 ^ 63) \<or> sint a + sint b \<ge> 2 ^ 63 then Inl ArithmeticOverflow
      else Inr (a + b))"

definition lock_tokens ::
  "(bytes list \<Rightarrow> pubkey) \<Rightarrow> u64 option \<Rightarrow> LockTokens \<Rightarrow> u64 \<Rightarrow> ledger \<Rightarrow> BlocklockError + ledger" where
  "lock_tokens find_pda clock c amount l =
     (case init_if_needed find_pda c l of
        Inl e \<Rightarrow> Inl e
      | Inr info \<Rightarrow>
          if lt_mint c \<noteq> lt_token_account_mint c then Inl InvalidMint
          else (case clock of
             None \<Rightarrow> Inl SysvarUnavailable
           | Some unix_timestamp \<Rightarrow>
               let info = info\<lparr>locked_amount := amount\<rparr> in
               (case checked_add_i64 unix_timestamp lock_duration of
                  Inl e \<Rightarrow> Inl e
                | Inr t \<Rightarrow> Inr (l(lt_user_lock_info c \<mapsto>
                    info\<lparr>unlock_time := t, owner := lt_user c\<rparr>)))))"

text \<open>The constraints \<^verbatim>\<open>seeds\<close> and \<^verbatim>\<open>has_one = owner\<close> of \<^verbatim>\<open>UnlockTokens\<close>.\<close>

definition load_lock_info :: "(bytes list \<Rightarrow> pubkey) \<Rightarrow> UnlockTokens \<Rightarrow> ledger \<Rightarrow> BlocklockError + UserLockInfo" where
  "load_lock_info find_pda c l =
     (case l (ut_user_lock_info c) of
        None \<Rightarrow> Inl AccountNotInitialized
      | Some info \<Rightarrow>
          if ut_user_lock_info c \<noteq> find_pda (user_lock_info_seeds (ut_user c)) then Inl ConstraintSeeds
          else if owner info \<noteq> ut_owner c then Inl InvalidOwner
          else Inr info)"

definition unlock_tokens ::
  "(bytes list \<Rightarrow> pubkey) \<Rightarrow> u64 option \<Rightarrow> UnlockTokens \<Rightarrow> ledger \<Rightarrow> BlocklockError + ledger" where
  "unlock_tokens find_pda clock c l =
     (case load_lock_info find_pda c l of
        Inl e \<Rightarrow> Inl e
      | Inr info \<Rightarrow>
          (case clock of
             None \<Rightarrow> Inl SysvarUnavailable
           | Some unix_timestamp \<Rightarrow>
               if sint unix_timestamp \<ge> sint (unlock_time info)
               then Inr (l(ut_user_lock_info c \<mapsto> info\<lparr>locked_amount := 0, unlock_time := 0\<rparr>))
               else Inl LockNotExpired))"

section \<open>Executions of the program\<close>

datatype instruction = Lock LockTokens u64 "u64 option" | Unlock UnlockTokens "u64 option"

fun signer_of :: "instruction \<Rightarrow> pubkey" where
  "signer_of (Lock c _ _) = lt_user c"
| "signer_of (Unlock c _) = ut_user c"

fun execute :: "(bytes list \<Rightarrow> pubkey) \<Rightarrow> ledger \<Rightarrow> instruction \<Rightarrow> BlocklockError + ledger" where
  "execute find_pda l (Lock c amount clock) = lock_tokens find_pda clock c amount l"
| "execute find_pda l (Unlock c clock) = unlock_tokens find_pda clock c l"

text \<open>A step is one instruction that succeeds; a failed one changes nothing.\<close>

inductive exec_step :: "(bytes list \<Rightarrow> pubkey) \<Rightarrow> ledger \<Rightarrow> instruction \<Rightarrow> ledger \<Rightarrow> bool"
  for find_pda where
  exec_stepI: "execute find_pda l i = Inr l' \<Longrightarrow> exec_step find_pda l i l'"

inductive_simps exec_step_simps: "exec_step find_pda l i l'"

definition pda_of :: "(bytes list \<Rightarrow> pubkey) \<Rightarrow> pubkey \<Rightarrow> pubkey" where
  "pda_of find_pda u = find_pda (user_lock_info_seeds u)"

text \<open>What the history of successful instructions says about one user's lock.\<close>

fun user_lock :: "pubkey \<Rightarrow> instruction list \<Rightarrow> UserLockInfo option" where
  "user_lock u [] = None"
| "user_lock u (Lock c a t # h) =
     (if lt_user c = u then Some \<lparr>locked_amount = a, unlock_time = the t + 86400, owner = u\<rparr> else user_lock u h)"
| "user_lock u (Unlock c t # h) =
     (if ut_user c = u then Some \<lparr>locked_amount = 0, unlock_time = 0, owner = u\<rparr> else user_lock u h)"

definition ledger_matches :: "(bytes list \<Rightarrow> pubkey) \<Rightarrow> instruction list \<Rightarrow> ledger \<Rightarrow> bool" where
  "ledger_matches find_pda h l \<longleftrightarrow> (\<forall>u. l (pda_of find_pda u) = user_lock u (rev h))"

lemma lock_success:
  assumes "lock_tokens find_pda clock c amount l = Inr l'"
  obtains t where "clock = Some t" "sint t + 86400 < 2 ^ 63" "lt_mint c = lt_token_account_mint c"
    "l' = l(pda_of find_pda (lt_user c) \<mapsto>
            \<lparr>locked_amount = amount, unlock_time = t + 86400, owner = lt_user c\<rparr>)"
proof (cases clock)
  case None
  then show ?thesis using assms
    by (auto simp: lock_tokens_def split: sum.splits if_splits)
next
  case (Some t)
  have upd: "i\<lparr>locked_amount := amount, unlock_time := t + 86400, owner := lt_user c\<rparr> =
    \<lparr>locked_amount = amount, unlock_time = t + 86400, owner = lt_user c\<rparr>" for i by (cases i) simp
  show ?thesis using Some assms that [of t]
    by (auto simp: lock_tokens_def init_if_needed_def checked_add_i64_def lock_duration_def pda_of_def upd
        split: sum.splits if_splits option.splits)
qed

lemma unlock_success:
  assumes "unlock_tokens find_pda clock c l = Inr l'"
  obtains t i where "clock = Some t" "l (pda_of find_pda (ut_user c)) = Some i" "owner i = ut_owner c"
    "sint (unlock_time i) \<le> sint t"
    "l' = l(pda_of find_pda (ut_user c) \<mapsto> i\<lparr>locked_amount := 0, unlock_time := 0\<rparr>)"
  using assms
  by (auto simp: unlock_tokens_def load_lock_info_def pda_of_def
      split: sum.splits if_splits option.splits)

lemma user_lock_owner: "user_lock u h = Some i \<Longrightarrow> owner i = u"
  by (induction u h rule: user_lock.induct) (auto split: if_splits)

lemma ledger_matches_step:
  assumes "inj (pda_of find_pda)" "ledger_matches find_pda h l" "exec_step find_pda l i l'"
  shows "ledger_matches find_pda (h @ [i]) l'"
proof (cases i)
  case (Lock c a clock)
  with assms(3) have "lock_tokens find_pda clock c a l = Inr l'" by (simp add: exec_step_simps)
  then obtain t where "clock = Some t"
    "l' = l(pda_of find_pda (lt_user c) \<mapsto>
            \<lparr>locked_amount = a, unlock_time = t + 86400, owner = lt_user c\<rparr>)"
    by (rule lock_success)
  then show ?thesis using assms(1,2) Lock by (auto simp: ledger_matches_def inj_eq)
next
  case (Unlock c clock)
  with assms(3) have "unlock_tokens find_pda clock c l = Inr l'" by (simp add: exec_step_simps)
  then obtain t j where j: "clock = Some t" "l (pda_of find_pda (ut_user c)) = Some j"
    "l' = l(pda_of find_pda (ut_user c) \<mapsto> j\<lparr>locked_amount := 0, unlock_time := 0\<rparr>)"
    by (rule unlock_success)
  then have "owner j = ut_user c"
    using assms(2) user_lock_owner [of "ut_user c" "rev h" j] by (simp add: ledger_matches_def)
  then show ?thesis using assms(1,2) Unlock j
    by (cases j) (auto simp: ledger_matches_def inj_eq)
qed

text \<open>The times at which locks were recorded leave room for the lock duration.\<close>

fun lock_in_range :: "instruction \<Rightarrow> bool" where
  "lock_in_range (Lock c a (Some t)) \<longleftrightarrow> sint t + 86400 < 2 ^ 63"
| "lock_in_range (Lock c a None) \<longleftrightarrow> False"
| "lock_in_range (Unlock c t) \<longleftrightarrow> True"

lemma exec_step_in_range: "exec_step find_pda l i l' \<Longrightarrow> lock_in_range i"
  by (cases i rule: lock_in_range.cases) (auto simp: exec_step_simps elim: lock_success)

interpretation program_history:
  history_invariant "\<lambda>l. l = Map.empty" "exec_step find_pda"
    "\<lambda>h l. (inj (pda_of find_pda) \<longrightarrow> ledger_matches find_pda h l) \<and> (\<forall>i \<in> set h. lock_in_range i)"
  for find_pda
proof (unfold_locales, goal_cases)
  case 1
  then show ?case by (simp add: ledger_matches_def)
next
  case (2 h s e t)
  then show ?case using ledger_matches_step exec_step_in_range by auto
qed

lemma sint_add_day: "sint t + 86400 < 2 ^ 63 \<Longrightarrow> sint (t + 86400 :: u64) = sint t + 86400"
  using sint_ge [of t]
  by (simp add: sint_word_ariths signed_take_bit_int_eq_self)

lemma user_lock_last:
  "user_lock u (h @ Lock c a t # h') = user_lock u [Lock c a t]"
  if "lt_user c = u" "\<forall>i \<in> set h. signer_of i \<noteq> u"
  using that by (induction u h rule: user_lock.induct) auto

lemma ledger_after_lock:
  assumes "inj (pda_of find_pda)"
    and r: "run (exec_step find_pda) Map.empty (h @ Lock c a (Some t0) # h') l"
    and "lt_user c = u" "\<forall>i \<in> set h'. signer_of i \<noteq> u"
  shows "l (pda_of find_pda u) = Some \<lparr>locked_amount = a, unlock_time = t0 + 86400, owner = u\<rparr>"
    and "sint (t0 + 86400) = sint t0 + 86400"
  using program_history.inv_run [OF r] assms user_lock_last [of c u "rev h'" a "Some t0" "rev h"]
  by (simp_all add: ledger_matches_def sint_add_day)

text \<open>A concrete address derivation and a concrete history: a user locks 5 tokens at time 1000,
  another user locks, and the first one unlocks a day later.\<close>

definition sample_pda :: "bytes list \<Rightarrow> pubkey" where
  "sample_pda seeds = concat seeds"

definition sample_lock :: "pubkey \<Rightarrow> LockTokens" where
  "sample_lock u = \<lparr>lt_user = u, lt_user_lock_info = pda_of sample_pda u,
     lt_token_account_mint = [7], lt_mint = [7]\<rparr>"

definition unlock_ctx :: "(bytes list \<Rightarrow> pubkey) \<Rightarrow> pubkey \<Rightarrow> UnlockTokens" where
  "unlock_ctx find_pda u = \<lparr>ut_user = u, ut_user_lock_info = pda_of find_pda u, ut_owner = u\<rparr>"

lemma sample_pda_inj: "inj (pda_of sample_pda)"
  by (rule injI) (simp add: pda_of_def sample_pda_def user_lock_info_seeds_def)

lemma sample_run:
  "run (exec_step sample_pda) Map.empty [Lock (sample_lock [1]) 5 (Some 1000), Lock (sample_lock [2]) 9 (Some 1500)]
     [pda_of sample_pda [1] \<mapsto> \<lparr>locked_amount = 5, unlock_time = 87400, owner = [1]\<rparr>,
      pda_of sample_pda [2] \<mapsto> \<lparr>locked_amount = 9, unlock_time = 87900, owner = [2]\<rparr>]"
  (is "run ?step _ [?a, ?b] ?l2")
proof -
  define l1 where "l1 = [pda_of sample_pda [1] \<mapsto> \<lparr>locked_amount = 5, unlock_time = 87400, owner = [1]\<rparr>]"
  note ev = exec_step_simps lock_tokens_def init_if_needed_def checked_add_i64_def lock_duration_def
    pda_of_def sample_pda_def sample_lock_def user_lock_info_seeds_def zero_lock_info_def l1_def
  have "?step Map.empty ?a l1" by (simp add: ev)
  then have "run ?step Map.empty ([] @ [?a]) l1" by (rule run_snoc [where step = "exec_step sample_pda", OF run_nil])
  then have "run ?step Map.empty [?a] l1" by (simp only: append_Nil)
  moreover have "?step l1 ?b ?l2" by (simp add: ev)
  ultimately have "run ?step Map.empty ([?a] @ [?b]) ?l2"
    by (rule run_snoc [where step = "exec_step sample_pda"])
  then show ?thesis by (simp only: append_Cons append_Nil)
qed

lemma sample_run_unlock:
  "run (exec_step sample_pda) Map.empty
     ([] @ Lock (sample_lock [1]) 5 (Some 1000) # [Lock (sample_lock [2]) 9 (Some 1500)]
       @ [Unlock (unlock_ctx sample_pda [1]) (Some 90000)])
     [pda_of sample_pda [1] \<mapsto> \<lparr>locked_amount = 0, unlock_time = 0, owner = [1]\<rparr>,
      pda_of sample_pda [2] \<mapsto> \<lparr>locked_amount = 9, unlock_time = 87900, owner = [2]\<rparr>]"
  using run_snoc [OF sample_run, of "Unlock (unlock_ctx sample_pda [1]) (Some 90000)"]
  by (simp add: exec_step_simps unlock_tokens_def load_lock_info_def unlock_ctx_def pda_of_def
      sample_pda_def user_lock_info_seeds_def fun_upd_twist)

section \<open>Properties\<close>

text \<open>
  C2. Starting from an empty ledger, after any sequence of successful \<^verbatim>\<open>lock_tokens\<close> and
  \<^verbatim>\<open>unlock_tokens\<close> instructions the account of every user holds exactly what that user's last
  instruction set (amount and time of the last lock plus 24 hours, or zeros after an unlock), is
  owned by that user, and is absent if the user never locked: no instruction of another signer
  touches it. Program addresses of distinct users are taken to be distinct.
\<close>

theorem blocklock_ledger_refines_history:
  assumes pda_injective: "inj (pda_of find_pda)"
    and "run (exec_step find_pda) Map.empty h l"
  shows "l (pda_of find_pda u) = user_lock u (rev h)"
  using program_history.inv_run [OF assms(2)] assms(1) by (simp add: ledger_matches_def)

theorem blocklock_ledger_refines_history_witness:
  "[pda_of sample_pda [1] \<mapsto> \<lparr>locked_amount = 5, unlock_time = 87400, owner = [1]\<rparr>,
    pda_of sample_pda [2] \<mapsto> \<lparr>locked_amount = 9, unlock_time = 87900, owner = [2]\<rparr>] (pda_of sample_pda [3]) = None"
  using blocklock_ledger_refines_history [OF sample_pda_inj sample_run, of "[3]"]
  by (simp add: sample_lock_def)

text \<open>
  C1. A lock holds for 24 hours: when \<^verbatim>\<open>unlock_tokens\<close> succeeds at time \<open>now\<close> for a user whose last
  successful instruction was \<^verbatim>\<open>lock_tokens\<close> at time \<open>t0\<close>, then \<open>now\<close> is at least \<open>t0\<close> + 86400
  seconds, whatever other users did in between.
\<close>

theorem blocklock_unlock_after_24h:
  assumes pda_injective: "inj (pda_of find_pda)"
    and r: "run (exec_step find_pda) Map.empty (h @ Lock c a (Some t0) # h' @ [Unlock d (Some now)]) l"
    and same: "lt_user c = ut_user d"
    and others: "\<forall>i \<in> set h'. signer_of i \<noteq> ut_user d"
  shows "sint t0 + 86400 \<le> sint now"
proof -
  obtain m where m: "run (exec_step find_pda) Map.empty (h @ Lock c a (Some t0) # h') m"
    and "exec_step find_pda m (Unlock d (Some now)) l"
    using r run_snocE [of "exec_step find_pda" Map.empty "h @ Lock c a (Some t0) # h'" "Unlock d (Some now)" l]
    by auto
  then have "unlock_tokens find_pda (Some now) d m = Inr l" by (simp add: exec_step_simps)
  then obtain i where i: "m (pda_of find_pda (ut_user d)) = Some i" "sint (unlock_time i) \<le> sint now"
    by (rule unlock_success) auto
  then show ?thesis
    using ledger_after_lock [OF pda_injective m same] others by auto
qed

theorem blocklock_unlock_after_24h_witness: "sint (1000 :: u64) + 86400 \<le> sint (90000 :: u64)"
  by (rule blocklock_unlock_after_24h [OF sample_pda_inj sample_run_unlock])
    (simp_all add: sample_lock_def unlock_ctx_def)

text \<open>
  C3. Liveness and exactness of the unlock: after any history in which the user's last successful
  instruction was a lock of \<open>a\<close> at \<open>t0\<close>, calling \<^verbatim>\<open>unlock_tokens\<close> with that user's accounts succeeds from
  \<open>t0\<close> + 86400 seconds on and resets the amount and the time, and before that is refused with
  \<^verbatim>\<open>LockNotExpired\<close>.
\<close>

theorem blocklock_unlock_decides:
  assumes pda_injective: "inj (pda_of find_pda)"
    and r: "run (exec_step find_pda) Map.empty (h @ Lock c a (Some t0) # h') l"
    and "lt_user c = u" "\<forall>i \<in> set h'. signer_of i \<noteq> u"
  shows "unlock_tokens find_pda (Some now) (unlock_ctx find_pda u) l =
    (if sint t0 + 86400 \<le> sint now
     then Inr (l(pda_of find_pda u \<mapsto> \<lparr>locked_amount = 0, unlock_time = 0, owner = u\<rparr>))
     else Inl LockNotExpired)"
  using ledger_after_lock [OF assms]
  by (simp add: unlock_tokens_def load_lock_info_def unlock_ctx_def pda_of_def)

theorem blocklock_unlock_decides_witness:
  "unlock_tokens sample_pda (Some 50000) (unlock_ctx sample_pda [1])
     [pda_of sample_pda [1] \<mapsto> \<lparr>locked_amount = 5, unlock_time = 87400, owner = [1]\<rparr>,
      pda_of sample_pda [2] \<mapsto> \<lparr>locked_amount = 9, unlock_time = 87900, owner = [2]\<rparr>] = Inl LockNotExpired"
  using blocklock_unlock_decides [of sample_pda "[]" "sample_lock [1]" 5 1000
      "[Lock (sample_lock [2]) 9 (Some 1500)]" _ "[1]" 50000] sample_pda_inj sample_run
  by (simp add: sample_lock_def)

end
