(* ===== verification/Replay.thy ===== *)
theory Replay
  imports Prelude
begin

text \<open>
  The DTLS anti-replay window of \<^verbatim>\<open>ssl/record/dtls1_bitmap.c\<close>: a 64-bit map of the
  most recent record sequence numbers below the highest one seen
  (\<^verbatim>\<open>unsigned long\<close> has 64 bits on the configured x86-64 target). The window is
  related to the set of all sequence numbers recorded so far, which gives the contract
  \<open>anti_replay\<close>: a record number that was recorded once is never accepted again.
\<close>

section \<open>State and operations\<close>

record DTLS1_BITMAP =
  bmap :: u64
  max_seq_num :: bytes

text \<open>The part of the record layer the window code reads and writes: the sequence number of the
  record being read, and the copy kept with the record once it is accepted.\<close>

record rlayer =
  read_sequence :: bytes
  rrec_seq_num :: bytes

definition n2l8 :: "bytes \<Rightarrow> u64" where
  "n2l8 c =
     push_bit 56 (ucast (c ! 0)) OR push_bit 48 (ucast (c ! 1)) OR
     push_bit 40 (ucast (c ! 2)) OR push_bit 32 (ucast (c ! 3)) OR
     push_bit 24 (ucast (c ! 4)) OR push_bit 16 (ucast (c ! 5)) OR
     push_bit 8 (ucast (c ! 6)) OR ucast (c ! 7)"

definition satsub64be :: "bytes \<Rightarrow> bytes \<Rightarrow> int" where
  "satsub64be v1 v2 =
     (let l1 = n2l8 v1; l2 = n2l8 v2; ret = sint (l1 - l2) in
      if l1 > l2 \<and> ret < 0 then 128
      else if l2 > l1 \<and> ret > 0 then - 128
      else if ret > 128 then 128
      else if ret < - 128 then - 128
      else ret)"

definition dtls1_record_replay_check :: "rlayer \<Rightarrow> DTLS1_BITMAP \<Rightarrow> bool \<times> rlayer" where
  "dtls1_record_replay_check rl bitmap =
     (let sq = read_sequence rl; cmp = satsub64be sq (max_seq_num bitmap) in
      if cmp > 0 then (True, rl\<lparr>rrec_seq_num := sq\<rparr>)
      else let shift = nat (- cmp) in
        if shift \<ge> 64 then (False, rl)
        else if has_flag (bmap bitmap) (push_bit shift 1) then (False, rl)
        else (True, rl\<lparr>rrec_seq_num := sq\<rparr>))"

definition dtls1_record_bitmap_update :: "rlayer \<Rightarrow> DTLS1_BITMAP \<Rightarrow> DTLS1_BITMAP" where
  "dtls1_record_bitmap_update rl bitmap =
     (let sq = read_sequence rl; cmp = satsub64be sq (max_seq_num bitmap) in
      if cmp > 0 then
        let shift = nat cmp in
        bitmap\<lparr>bmap := (if shift < 64 then push_bit shift (bmap bitmap) OR 1 else 1),
               max_seq_num := sq\<rparr>
      else
        let shift = nat (- cmp) in
        if shift < 64 then bitmap\<lparr>bmap := bmap bitmap OR push_bit shift 1\<rparr> else bitmap)"

text \<open>A zeroed bitmap, as \<^verbatim>\<open>dtls1_reset_seq_numbers\<close> leaves it for a new epoch.\<close>

definition bitmap_init :: DTLS1_BITMAP where
  "bitmap_init = \<lparr>bmap = 0, max_seq_num = replicate 8 0\<rparr>"

section \<open>The contract of an anti-replay window\<close>

text \<open>The numbers a receiver lets through when it checks each one and records those accepted.\<close>

primrec accepted :: "('s \<Rightarrow> 'n \<Rightarrow> bool) \<Rightarrow> ('s \<Rightarrow> 'n \<Rightarrow> 's) \<Rightarrow> 's \<Rightarrow> 'n list \<Rightarrow> 'n list" where
  "accepted chk upd s [] = []"
| "accepted chk upd s (n # ns) =
     (if chk s n then n # accepted chk upd (upd s n) ns else accepted chk upd s ns)"

locale anti_replay =
  fixes valid :: "'n \<Rightarrow> bool"
    and chk :: "'s \<Rightarrow> 'n \<Rightarrow> bool"
    and upd :: "'s \<Rightarrow> 'n \<Rightarrow> 's"
    and recorded :: "'s \<Rightarrow> 'n set \<Rightarrow> bool"
  assumes recorded_upd: "recorded s H \<Longrightarrow> valid n \<Longrightarrow> recorded (upd s n) (insert n H)"
    and chk_recorded: "recorded s H \<Longrightarrow> valid n \<Longrightarrow> n \<in> H \<Longrightarrow> \<not> chk s n"
begin

lemma accepted_fresh:
  "recorded s H \<Longrightarrow> list_all valid ns \<Longrightarrow>
   distinct (accepted chk upd s ns) \<and> set (accepted chk upd s ns) \<inter> H = {}"
proof (induction ns arbitrary: s H)
  case Nil
  then show ?case by simp
next
  case (Cons n ns)
  show ?case
  proof (cases "chk s n")
    case True
    with Cons.prems have "n \<notin> H" by (auto dest: chk_recorded)
    from Cons.prems have "recorded (upd s n) (insert n H)" by (auto intro: recorded_upd)
    with Cons have "distinct (accepted chk upd (upd s n) ns)
        \<and> set (accepted chk upd (upd s n) ns) \<inter> insert n H = {}"
      by simp
    with True \<open>n \<notin> H\<close> show ?thesis by auto
  next
    case False
    with Cons show ?thesis by simp
  qed
qed

end

section \<open>The bitmap as a window on the recorded numbers\<close>

lemma unat_n2l8: assumes "length c = 8" shows "unat (n2l8 c) = be_nat c"
proof -
  obtain a b d e f g h i where c: "c = [a,b,d,e,f,g,h,i]" using length8[OF assms] by blast
  have l: "unat (x::u8) < 256" for x by (rule unat_lt_256)
  show ?thesis unfolding c n2l8_def
    using l[of a] l[of b] l[of d] l[of e] l[of f] l[of g] l[of h] l[of i]
    by (simp add: unat_or_push unat_ucast_u8_u64)
qed

lemma satsub64be_eq:
  assumes "length v1 = 8" "length v2 = 8"
  shows "satsub64be v1 v2 = max (- 128) (min 128 (int (be_nat v1) - int (be_nat v2)))"
proof -
  have u: "uint (n2l8 v1) = int (be_nat v1)" "uint (n2l8 v2) = int (be_nat v2)"
    using assms by (metis unat_n2l8 uint_nat)+
  have b: "int (be_nat v1) < 2^64" "int (be_nat v2) < 2^64" using u uint_lt2p[of "n2l8 v1"] uint_lt2p[of "n2l8 v2"] by simp_all
  show ?thesis unfolding satsub64be_def Let_def sint_u64 uint_sub_if' word_less_alt u
    using b by auto
qed

definition bitmap_rel :: "DTLS1_BITMAP \<Rightarrow> nat set \<Rightarrow> bool" where
  "bitmap_rel bm H \<longleftrightarrow>
     length (max_seq_num bm) = 8 \<and> (\<forall>n \<in> H. n \<le> be_nat (max_seq_num bm)) \<and>
     (\<forall>i < 64. bit (bmap bm) i \<longleftrightarrow> i \<le> be_nat (max_seq_num bm) \<and> be_nat (max_seq_num bm) - i \<in> H)"

lemma satsub_cases:
  assumes "length v1 = 8" "length v2 = 8"
  shows "satsub64be v1 v2 > 0 \<longleftrightarrow> be_nat v2 < be_nat v1"
    and "nat (satsub64be v1 v2) = min 128 (be_nat v1 - be_nat v2)"
    and "nat (- satsub64be v1 v2) = min 128 (be_nat v2 - be_nat v1)"
  unfolding satsub64be_eq[OF assms] by linarith+

lemma replay_check_eq:
  assumes "length (read_sequence rl) = 8" "length (max_seq_num bm) = 8"
  shows "fst (dtls1_record_replay_check rl bm) \<longleftrightarrow>
     be_nat (max_seq_num bm) < be_nat (read_sequence rl) \<or>
     (be_nat (max_seq_num bm) - be_nat (read_sequence rl) < 64 \<and>
      \<not> bit (bmap bm) (be_nat (max_seq_num bm) - be_nat (read_sequence rl)))"
  by (auto simp only: dtls1_record_replay_check_def Let_def satsub_cases[OF assms] min_def fst_conv
     has_flag_push split: if_splits)

lemma bitmap_update_eq:
  assumes "length (read_sequence rl) = 8" "length (max_seq_num bm) = 8"
  shows "dtls1_record_bitmap_update rl bm =
     (let n = be_nat (read_sequence rl); mx = be_nat (max_seq_num bm) in
      if mx < n then bm\<lparr>bmap := (if n - mx < 64 then push_bit (n - mx) (bmap bm) OR 1 else 1),
                        max_seq_num := read_sequence rl\<rparr>
      else if mx - n < 64 then bm\<lparr>bmap := bmap bm OR push_bit (mx - n) 1\<rparr> else bm)"
  by (auto simp only: dtls1_record_bitmap_update_def Let_def satsub_cases[OF assms] min_def split: if_splits)

lemma replay_check_iff:
  assumes "bitmap_rel bm H" "length (read_sequence rl) = 8"
  shows "fst (dtls1_record_replay_check rl bm) \<longleftrightarrow>
     (let n = be_nat (read_sequence rl); mx = be_nat (max_seq_num bm) in
      mx < n \<or> (mx - n < 64 \<and> n \<notin> H))"
proof -
  from assms(1) have "length (max_seq_num bm) = 8" by (simp add: bitmap_rel_def)
  with assms show ?thesis by (auto simp: replay_check_eq bitmap_rel_def Let_def)
qed
lemma bitmap_rel_init: "bitmap_rel bitmap_init {}"
  by (simp add: bitmap_rel_def bitmap_init_def)

lemma bitmap_rel_update:
  assumes rel: "bitmap_rel bm H" and l: "length (read_sequence rl) = 8"
  shows "bitmap_rel (dtls1_record_bitmap_update rl bm) (insert (be_nat (read_sequence rl)) H)"
proof -
  let ?n = "be_nat (read_sequence rl)" and ?mx = "be_nat (max_seq_num bm)"
  from rel have l2: "length (max_seq_num bm) = 8" and le: "\<And>n. n \<in> H \<Longrightarrow> n \<le> ?mx"
    and b: "\<And>i. i < 64 \<Longrightarrow> bit (bmap bm) i \<longleftrightarrow> i \<le> ?mx \<and> ?mx - i \<in> H"
    by (auto simp: bitmap_rel_def)
  consider (new) "?mx < ?n" | (old) "\<not> ?mx < ?n" by blast
  then show ?thesis
  proof cases
    case new
    have "bit (if ?n - ?mx < 64 then push_bit (?n - ?mx) (bmap bm) OR 1 else 1) i \<longleftrightarrow>
        i \<le> ?n \<and> (?n - i = ?n \<or> ?n - i \<in> H)" if i: "i < 64" for i
    proof (cases "i < ?n - ?mx")
      case True
      then have "?n - i \<notin> H" using le[of "?n - i"] by auto
      with True i new show ?thesis by (auto simp: bit_or_iff bit_push_bit_iff bit_1_iff)
    next
      case False
      with i new have "?mx - (i - (?n - ?mx)) = ?n - i" "i - (?n - ?mx) \<le> ?mx \<longleftrightarrow> i \<le> ?n"
         by auto
      with False i new b[of "i - (?n - ?mx)"] show ?thesis
        by (auto simp: bit_or_iff bit_push_bit_iff bit_1_iff)
    qed
    moreover have "n \<in> H \<Longrightarrow> n \<le> ?n" for n using le[of n] new by simp
    ultimately show ?thesis using new l l2
      by (auto simp: bitmap_update_eq Let_def bitmap_rel_def)
  next
    case old
    have "i \<le> ?mx \<Longrightarrow> ?mx - i = ?n \<longleftrightarrow> i = ?mx - ?n" for i using old by auto
    with old l l2 le b show ?thesis
      by (auto simp: bitmap_update_eq Let_def bitmap_rel_def bit_or_iff bit_push_bit_iff bit_1_iff
          simp del: push_bit_of_1)
  qed
qed

section \<open>The window implements the contract\<close>

definition window_check :: "DTLS1_BITMAP \<Rightarrow> bytes \<Rightarrow> bool" where
  "window_check bm n = fst (dtls1_record_replay_check \<lparr>read_sequence = n, rrec_seq_num = []\<rparr> bm)"

definition window_update :: "DTLS1_BITMAP \<Rightarrow> bytes \<Rightarrow> DTLS1_BITMAP" where
  "window_update bm n = dtls1_record_bitmap_update \<lparr>read_sequence = n, rrec_seq_num = []\<rparr> bm"

interpretation dtls_window: anti_replay "\<lambda>n. length n = 8" window_check window_update
  "\<lambda>bm H. bitmap_rel bm (be_nat ` H)"
proof
  fix bm H and n :: bytes
  assume "bitmap_rel bm (be_nat ` H)" "length n = 8"
  then show "bitmap_rel (window_update bm n) (be_nat ` insert n H)"
    using bitmap_rel_update [of bm "be_nat ` H" "\<lparr>read_sequence = n, rrec_seq_num = []\<rparr>"]
    by (simp add: window_update_def)
next
  fix bm H and n :: bytes
  assume *: "bitmap_rel bm (be_nat ` H)" "length n = 8" "n \<in> H"
  then have "be_nat n \<le> be_nat (max_seq_num bm)" by (auto simp: bitmap_rel_def)
  with * show "\<not> window_check bm n"
    using replay_check_iff [of bm "be_nat ` H" "\<lparr>read_sequence = n, rrec_seq_num = []\<rparr>"]
    by (auto simp: window_check_def Let_def)
qed

lemma bitmap_rel_fold:
  "bitmap_rel bm H \<Longrightarrow> list_all (\<lambda>n. length n = 8) ns \<Longrightarrow>
   bitmap_rel (fold (\<lambda>n s. window_update s n) ns bm) (H \<union> be_nat ` set ns)"
proof (induction ns arbitrary: bm H)
  case Nil
  then show ?case by simp
next
  case (Cons n ns)
  then have "bitmap_rel (window_update bm n) (insert (be_nat n) H)"
    using bitmap_rel_update [of bm H "\<lparr>read_sequence = n, rrec_seq_num = []\<rparr>"]
    by (simp add: window_update_def)
  with Cons show ?case by fastforce
qed

text \<open>
  C4. Whatever sequence of DTLS record numbers arrives at a fresh window, the numbers that
  pass \<^verbatim>\<open>dtls1_record_replay_check\<close> when each accepted one is recorded by
  \<^verbatim>\<open>dtls1_record_bitmap_update\<close> are pairwise different: no record is accepted twice.
\<close>

theorem dtls_no_replay:
  assumes "list_all (\<lambda>n. length n = 8) ns"
  shows "distinct (accepted window_check window_update bitmap_init ns)"
  using dtls_window.accepted_fresh [of bitmap_init "{}" ns] assms by (simp add: bitmap_rel_init)

theorem dtls_no_replay_witness:
  "distinct (accepted window_check window_update bitmap_init
     [nat_be 8 5, nat_be 8 3, nat_be 8 5, nat_be 8 200, nat_be 8 3])"
  by (rule dtls_no_replay) simp

text \<open>The highest of the numbers recorded in a fresh window; a zeroed bitmap stands at number
  0 although nothing has been recorded.\<close>

definition highest_recorded :: "bytes list \<Rightarrow> nat" where
  "highest_recorded ns = Max (insert 0 (be_nat ` set ns))"

lemma window_update_max:
  assumes "length n = 8" "length (max_seq_num bm) = 8"
  shows "be_nat (max_seq_num (window_update bm n)) = max (be_nat (max_seq_num bm)) (be_nat n)"
  using assms by (auto simp: window_update_def bitmap_update_eq Let_def max_def)

lemma be_nat_zeros: "be_nat (replicate k 0) = 0"
  by (induction k) auto

lemma window_fold_max:
  assumes "list_all (\<lambda>n. length n = 8) ns" "bitmap_rel bm H"
  shows "be_nat (max_seq_num (fold (\<lambda>n s. window_update s n) ns bm)) =
         Max (insert (be_nat (max_seq_num bm)) (be_nat ` set ns))"
  using assms
proof (induction ns arbitrary: bm H)
  case Nil
  then show ?case by simp
next
  case (Cons n ns)
  let ?mx = "be_nat (max_seq_num bm)"
  from Cons.prems have l: "length n = 8" "length (max_seq_num bm) = 8"
    and r: "bitmap_rel (window_update bm n) (insert (be_nat n) H)"
    using bitmap_rel_update [of bm H "\<lparr>read_sequence = n, rrec_seq_num = []\<rparr>"]
    by (auto simp: window_update_def bitmap_rel_def)
  have "be_nat (max_seq_num (fold (\<lambda>n s. window_update s n) (n # ns) bm)) =
      Max (insert (max ?mx (be_nat n)) (be_nat ` set ns))"
    using Cons.IH [OF _ r] Cons.prems(1) by (simp add: window_update_max [OF l])
  also have "\<dots> = Max (insert ?mx (be_nat ` set (n # ns)))"
    by (cases "set ns = {}") (auto simp: max.assoc)
  finally show ?case .
qed

text \<open>
  C5. After any sequence \<open>ns\<close> of recorded numbers the check accepts exactly the numbers above
  the highest number of \<open>ns\<close> and the numbers not in \<open>ns\<close> fewer than 64 below it: the window
  moves with the highest recorded number, accepts late records and rejects only replays and
  stale ones.
\<close>

theorem dtls_window_exact:
  assumes "list_all (\<lambda>n. length n = 8) ns" and "length n = 8"
  shows "window_check (fold (\<lambda>n s. window_update s n) ns bitmap_init) n \<longleftrightarrow>
     highest_recorded ns < be_nat n \<or>
     (highest_recorded ns - be_nat n < 64 \<and> n \<notin> set ns)"
proof -
  let ?bm = "fold (\<lambda>n s. window_update s n) ns bitmap_init"
  have rel: "bitmap_rel ?bm (be_nat ` set ns)"
    using bitmap_rel_fold [OF bitmap_rel_init assms(1)] by simp
  have mx: "be_nat (max_seq_num ?bm) = highest_recorded ns"
    using window_fold_max [OF assms(1) bitmap_rel_init]
    by (simp add: highest_recorded_def bitmap_init_def be_nat_zeros)
  have "n \<in> set ns \<longleftrightarrow> be_nat n \<in> be_nat ` set ns"
    using assms by (auto simp: list_all_iff dest: be_nat_inject [rotated])
  with rel assms(2) show ?thesis
    using replay_check_iff [OF rel, of "\<lparr>read_sequence = n, rrec_seq_num = []\<rparr>"]
    by (simp add: window_check_def Let_def mx)
qed

theorem dtls_window_exact_witness:
  "window_check (fold (\<lambda>n s. window_update s n) [nat_be 8 9, nat_be 8 70] bitmap_init)
     (nat_be 8 8)
   \<and> \<not> window_check (fold (\<lambda>n s. window_update s n) [nat_be 8 9, nat_be 8 70] bitmap_init)
     (nat_be 8 9)
   \<and> \<not> window_check (fold (\<lambda>n s. window_update s n) [nat_be 8 9, nat_be 8 70] bitmap_init)
     (nat_be 8 6)"
proof -
  have l: "list_all (\<lambda>n. length n = 8) [nat_be 8 9, nat_be 8 70]" by simp
  have v: "be_nat (nat_be 8 k) = k" if "k < 2 ^ 64" for k
    using that by (simp add: be_nat_nat_be)
  have h: "highest_recorded [nat_be 8 9, nat_be 8 70] = 70"
    by (simp add: highest_recorded_def v)
  have d: "nat_be 8 8 \<noteq> nat_be 8 9" "nat_be 8 8 \<noteq> nat_be 8 70"
    using v [of 8] v [of 9] v [of 70] by auto
  from dtls_window_exact [OF l, of "nat_be 8 8"] dtls_window_exact [OF l, of "nat_be 8 9"]
    dtls_window_exact [OF l, of "nat_be 8 6"] d
  show ?thesis unfolding h by (simp add: v)
qed

end
