(* ===== verification/PQueue.thy ===== *)
theory PQueue
  imports Prelude
begin

text \<open>
  The priority queue of \<^verbatim>\<open>ssl/pqueue.c\<close>, which orders buffered DTLS handshake messages and
  records by an 8-byte big-endian priority. The C list of \<^verbatim>\<open>pitem\<close> nodes linked by
  \<^verbatim>\<open>next\<close> is an Isabelle list; a result of \<^verbatim>\<open>NULL\<close> is \<open>None\<close>. The contract
  \<open>priority_queue\<close> sees the queue as a finite map from priorities to payloads whose least
  key is delivered first.
\<close>

section \<open>State and operations\<close>

record 'a pitem =
  priority :: bytes
  data :: 'a

record 'a pqueue =
  items :: "'a pitem list"
  count :: int

text \<open>\<^verbatim>\<open>memcmp\<close>: the difference at the first byte where the two strings differ.\<close>

fun memcmp :: "bytes \<Rightarrow> bytes \<Rightarrow> int" where
  "memcmp (x # xs) (y # ys) = (if x = y then memcmp xs ys else uint x - uint y)"
| "memcmp _ _ = 0"

definition pitem_new :: "bytes \<Rightarrow> 'a \<Rightarrow> bool \<Rightarrow> 'a pitem option" where
  "pitem_new prio64be dat malloc_ok =
     (if malloc_ok then Some \<lparr>priority = take 8 prio64be, data = dat\<rparr> else None)"

definition pqueue_new :: "bool \<Rightarrow> 'a pqueue option" where
  "pqueue_new zalloc_ok = (if zalloc_ok then Some \<lparr>items = [], count = 0\<rparr> else None)"

text \<open>The search loop of \<^verbatim>\<open>pqueue_insert\<close>: \<open>None\<close> where the priority is taken already.\<close>

fun insert_from :: "'a pitem list \<Rightarrow> 'a pitem \<Rightarrow> 'a pitem list option" where
  "insert_from [] item = Some [item]"
| "insert_from (next # rest) item =
     (let cmp = memcmp (priority next) (priority item) in
      if cmp > 0 then Some (item # next # rest)
      else if cmp = 0 then None
      else map_option ((#) next) (insert_from rest item))"

text \<open>The list of items is the chain of \<^verbatim>\<open>next\<close> pointers. Into an empty queue the source stores the item
  without writing its \<^verbatim>\<open>next\<close>, which \<^verbatim>\<open>pitem_new\<close> has set to NULL: the item is expected not to be part of
  another chain, and then is a chain of its own.\<close>

definition pqueue_insert :: "'a pqueue \<Rightarrow> 'a pitem \<Rightarrow> 'a pitem option \<times> 'a pqueue" where
  "pqueue_insert pq item =
     (if items pq = [] then (Some item, pq\<lparr>items := [item]\<rparr>)
      else case insert_from (items pq) item of
        None \<Rightarrow> (None, pq)
      | Some is \<Rightarrow> (Some item, pq\<lparr>items := is\<rparr>))"

definition pqueue_peek :: "'a pqueue \<Rightarrow> 'a pitem option" where
  "pqueue_peek pq = (case items pq of [] \<Rightarrow> None | i # _ \<Rightarrow> Some i)"

definition pqueue_pop :: "'a pqueue \<Rightarrow> 'a pitem option \<times> 'a pqueue" where
  "pqueue_pop pq = (case items pq of [] \<Rightarrow> (None, pq) | i # is \<Rightarrow> (Some i, pq\<lparr>items := is\<rparr>))"

text \<open>The search loop of \<^verbatim>\<open>pqueue_find\<close> stops before the last node, which is checked after it.\<close>

fun find_from :: "'a pitem list \<Rightarrow> bytes \<Rightarrow> 'a pitem option" where
  "find_from [] prio64be = None"
| "find_from [next] prio64be =
     (if memcmp (priority next) prio64be = 0 then Some next else None)"
| "find_from (next # n2 # rest) prio64be =
     (if memcmp (priority next) prio64be = 0 then Some next else find_from (n2 # rest) prio64be)"

definition pqueue_find :: "'a pqueue \<Rightarrow> bytes \<Rightarrow> 'a pitem option" where
  "pqueue_find pq prio64be =
     (if items pq = [] then None else find_from (items pq) prio64be)"

text \<open>A \<^verbatim>\<open>piterator\<close> points at a node, here the rest of the list from that node on.\<close>

definition pqueue_iterator :: "'a pqueue \<Rightarrow> 'a pitem list" where
  "pqueue_iterator pq = items pq"

definition pqueue_next :: "'a pitem list \<Rightarrow> 'a pitem option \<times> 'a pitem list" where
  "pqueue_next it = (case it of [] \<Rightarrow> (None, []) | i # is \<Rightarrow> (Some i, is))"

fun size_from :: "'a pitem list \<Rightarrow> nat \<Rightarrow> nat" where
  "size_from [] n = n"
| "size_from (i # is) n = size_from is (n + 1)"

definition pqueue_size :: "'a pqueue \<Rightarrow> nat" where
  "pqueue_size pq = size_from (items pq) 0"

section \<open>The contract of a priority queue\<close>

locale priority_queue =
  fixes invar :: "'q \<Rightarrow> bool"
    and valid :: "'v \<Rightarrow> bool"
    and key :: "'v \<Rightarrow> 'k::linorder"
    and contents :: "'q \<Rightarrow> 'k \<Rightarrow> 'v option"
    and ins :: "'q \<Rightarrow> 'v \<Rightarrow> 'v option \<times> 'q"
    and pop :: "'q \<Rightarrow> 'v option \<times> 'q"
    and len :: "'q \<Rightarrow> nat"
  assumes invar_ins: "invar q \<Longrightarrow> valid v \<Longrightarrow> invar (snd (ins q v))"
    and ins_new: "invar q \<Longrightarrow> valid v \<Longrightarrow> contents q (key v) = None \<Longrightarrow>
       fst (ins q v) = Some v \<and> contents (snd (ins q v)) = (contents q)(key v \<mapsto> v)"
    and ins_dup: "invar q \<Longrightarrow> valid v \<Longrightarrow> contents q (key v) \<noteq> None \<Longrightarrow> ins q v = (None, q)"
    and invar_pop: "invar q \<Longrightarrow> invar (snd (pop q))"
    and pop_empty: "invar q \<Longrightarrow> fst (pop q) = None \<longleftrightarrow> contents q = (\<lambda>_. None)"
    and pop_least: "invar q \<Longrightarrow> fst (pop q) = Some v \<Longrightarrow>
       contents q (key v) = Some v \<and> (\<forall>k \<in> dom (contents q). key v \<le> k)
       \<and> contents (snd (pop q)) = (contents q)(key v := None)"
    and len_pop: "invar q \<Longrightarrow> fst (pop q) = Some v \<Longrightarrow> len q = Suc (len (snd (pop q)))"
    and len_zero: "invar q \<Longrightarrow> fst (pop q) = None \<Longrightarrow> len q = 0"

text \<open>Popping \<open>n\<close> times, in delivery order.\<close>

primrec drain :: "('q \<Rightarrow> 'v option \<times> 'q) \<Rightarrow> nat \<Rightarrow> 'q \<Rightarrow> 'v list" where
  "drain pop 0 q = []"
| "drain pop (Suc n) q =
     (case pop q of (None, _) \<Rightarrow> [] | (Some v, q') \<Rightarrow> v # drain pop n q')"

context priority_queue
begin

lemma drain_delivers:
  "invar q \<Longrightarrow> n = len q \<Longrightarrow>
   sorted_wrt (<) (map key (drain pop n q)) \<and> set (drain pop n q) = ran (contents q)
   \<and> (\<forall>v \<in> set (drain pop n q). contents q (key v) = Some v)"
proof (induction n arbitrary: q)
  case 0
  obtain r q' where p: "pop q = (r, q')" by (cases "pop q")
  with 0 len_pop [of q] have "r = None" by (cases r) auto
  with p 0 pop_empty [of q] show ?case by simp
next
  case (Suc n)
  obtain r q' where p: "pop q = (r, q')" by (cases "pop q")
  with Suc.prems len_zero [of q] obtain v where r: "r = Some v" by (cases r) auto
  have f: "fst (pop q) = Some v" "snd (pop q) = q'" using p r by simp_all
  note least = pop_least [OF Suc.prems(1) f(1)]
  have "invar q'" "n = len q'"
    using invar_pop [OF Suc.prems(1)] len_pop [OF Suc.prems(1) f(1)] Suc.prems f by simp_all
  then have IH: "sorted_wrt (<) (map key (drain pop n q'))"
    "set (drain pop n q') = ran (contents q')"
    "\<forall>w \<in> set (drain pop n q'). contents q' (key w) = Some w"
    using Suc.IH by blast+
  have c: "contents q' = (contents q)(key v := None)" and m: "contents q (key v) = Some v"
    and l: "\<forall>k \<in> dom (contents q). key v \<le> k"
    using least f by auto
  have gt: "\<forall>w \<in> set (drain pop n q'). key v < key w \<and> contents q (key w) = Some w"
  proof
    fix w assume "w \<in> set (drain pop n q')"
    with IH(3) c have "contents q (key w) = Some w" "key w \<noteq> key v"
      by (auto split: if_splits)
    with l show "key v < key w \<and> contents q (key w) = Some w" by (auto simp: dom_def less_le)
  qed
  have "ran (contents q) = insert v (ran (contents q'))"
  proof
    show "ran (contents q) \<subseteq> insert v (ran (contents q'))"
    proof
      fix x assume "x \<in> ran (contents q)"
      then obtain k where "contents q k = Some x" by (auto simp: ran_def)
      with c m show "x \<in> insert v (ran (contents q'))"
        by (cases "k = key v") (auto simp: ran_def)
    qed
  qed (use c m in \<open>auto simp: ran_def split: if_splits\<close>)
  with IH gt p r m show ?case by auto
qed

end

section \<open>The list of nodes implements the contract\<close>

lemma memcmp_sign:
  "length xs = length ys \<Longrightarrow>
   (memcmp xs ys = 0 \<longleftrightarrow> be_nat xs = be_nat ys) \<and> (memcmp xs ys > 0 \<longleftrightarrow> be_nat ys < be_nat xs)"
proof (induction xs ys rule: list_induct2)
  case Nil
  then show ?case by simp
next
  case (Cons x xs y ys)
  have less: "unat a * 256 ^ n + be_nat as < unat b * 256 ^ n + be_nat bs"
    if "unat a < unat b" "length as = n" for a b :: u8 and as bs n
  proof -
    have "be_nat as < 256 ^ n" using be_nat_bound [of as] that by simp
    moreover have "(unat a + 1) * 256 ^ n \<le> unat b * 256 ^ n"
      by (rule mult_right_mono) (use that in simp_all)
    ultimately show ?thesis by (simp add: add_mult_distrib)
  qed
  show ?case
  proof (cases "x = y")
    case True
    with Cons show ?thesis by simp
  next
    case False
    then have "unat x \<noteq> unat y" by (simp add: word_unat_eq_iff)
    then consider (lt) "unat x < unat y" | (gt) "unat y < unat x" by linarith
    then show ?thesis
    proof cases
      case lt
      then have "uint x < uint y" by (metis uint_nat of_nat_less_iff)
      with less [OF lt, of xs "length ys" ys] Cons.hyps False show ?thesis by simp
    next
      case gt
      then have "uint y < uint x" by (metis uint_nat of_nat_less_iff)
      with less [OF gt, of ys "length ys" xs] Cons.hyps False show ?thesis by simp
    qed
  qed
qed

lemma memcmp_zero: "length xs = length ys \<Longrightarrow> memcmp xs ys = 0 \<longleftrightarrow> xs = ys"
  using memcmp_sign [of xs ys] be_nat_inject [of xs ys] by auto

definition prio :: "'a pitem \<Rightarrow> nat" where
  "prio i = be_nat (priority i)"

definition pq_inv :: "'a pqueue \<Rightarrow> bool" where
  "pq_inv pq \<longleftrightarrow> (\<forall>i \<in> set (items pq). length (priority i) = 8) \<and>
     sorted_wrt (\<lambda>i j. prio i < prio j) (items pq)"

definition pq_contents :: "'a pqueue \<Rightarrow> nat \<Rightarrow> 'a pitem option" where
  "pq_contents pq = map_of (map (\<lambda>i. (prio i, i)) (items pq))"

lemma insert_from_dup:
  assumes "\<forall>i \<in> set is. length (priority i) = 8" "length (priority item) = 8"
    "sorted_wrt (\<lambda>i j. prio i < prio j) is"
  shows "insert_from is item = None \<longleftrightarrow> prio item \<in> prio ` set is"
  using assms
proof (induction "is")
  case Nil
  then show ?case by simp
next
  case (Cons i "is")
  have "memcmp (priority i) (priority item) = 0 \<longleftrightarrow> prio i = prio item"
    "memcmp (priority i) (priority item) > 0 \<longleftrightarrow> prio item < prio i"
    using Cons.prems memcmp_sign [of "priority i" "priority item"] by (auto simp: prio_def)
  with Cons show ?case by (auto simp: Let_def)
qed

lemma insert_from_Some:
  assumes "insert_from is item = Some js"
    "\<forall>i \<in> set is. length (priority i) = 8" "length (priority item) = 8"
    "sorted_wrt (\<lambda>i j. prio i < prio j) is"
  shows "sorted_wrt (\<lambda>i j. prio i < prio j) js \<and> set js = insert item (set is)
    \<and> map_of (map (\<lambda>i. (prio i, i)) js) = (map_of (map (\<lambda>i. (prio i, i)) is))(prio item \<mapsto> item)"
  using assms
proof (induction "is" arbitrary: js)
  case Nil
  then show ?case by auto
next
  case (Cons i "is")
  have c: "memcmp (priority i) (priority item) = 0 \<longleftrightarrow> prio i = prio item"
    "memcmp (priority i) (priority item) > 0 \<longleftrightarrow> prio item < prio i"
    using Cons.prems memcmp_sign [of "priority i" "priority item"] by (auto simp: prio_def)
  show ?case
  proof (cases "prio item < prio i")
    case True
    with Cons.prems have "\<forall>j \<in> set is. prio item < prio j" by auto
    with True Cons.prems c show ?thesis by (auto simp: Let_def)
  next
    case False
    with Cons.prems c obtain ks where "insert_from is item = Some ks" "js = i # ks"
      "prio i < prio item"
      by (auto simp: Let_def split: if_splits)
    with Cons show ?thesis by (auto simp: fun_upd_twist)
  qed
qed

lemma prio_inject: "length (priority i) = 8 \<Longrightarrow> length (priority j) = 8 \<Longrightarrow>
    prio i = prio j \<longleftrightarrow> priority i = priority j"
  by (auto simp: prio_def dest: be_nat_inject [rotated])

lemma pq_contents_None: "pq_contents pq k = None \<longleftrightarrow> k \<notin> prio ` set (items pq)"
  by (force simp: pq_contents_def map_of_eq_None_iff)

lemma size_from_eq: "size_from is n = length is + n"
  by (induction "is" arbitrary: n) auto

lemma pqueue_insert_cases:
  assumes "pq_inv pq" "length (priority v) = 8"
  shows "pqueue_insert pq v = (None, pq) \<and> pq_contents pq (prio v) \<noteq> None \<or>
    (\<exists>js. pqueue_insert pq v = (Some v, pq\<lparr>items := js\<rparr>) \<and> pq_contents pq (prio v) = None
      \<and> pq_inv (pq\<lparr>items := js\<rparr>) \<and> set js = insert v (set (items pq))
      \<and> pq_contents (pq\<lparr>items := js\<rparr>) = (pq_contents pq)(prio v \<mapsto> v))"
proof (cases "insert_from (items pq) v")
  case None
  then have "items pq \<noteq> []" by (cases "items pq") auto
  with None assms insert_from_dup [of "items pq" v] show ?thesis
    by (auto simp: pqueue_insert_def pq_inv_def pq_contents_None)
next
  case (Some js)
  have "pqueue_insert pq v = (Some v, pq\<lparr>items := js\<rparr>)"
    using Some by (cases "items pq") (auto simp: pqueue_insert_def)
  moreover have "pq_contents pq (prio v) = None"
    using Some assms insert_from_dup [of "items pq" v] by (auto simp: pq_inv_def pq_contents_None)
  ultimately show ?thesis
    using assms insert_from_Some [OF Some]
    by (intro disjI2 exI [of _ js]) (auto simp: pq_inv_def pq_contents_def)
qed

interpretation dtls_pq: priority_queue pq_inv "\<lambda>i. length (priority i) = 8" prio pq_contents
  pqueue_insert pqueue_pop pqueue_size
proof (unfold_locales, goal_cases)
  case (1 q v)
  then show ?case using pqueue_insert_cases [of q v] by auto
next
  case (2 q v)
  then show ?case using pqueue_insert_cases [of q v] by auto
next
  case (3 q v)
  then show ?case using pqueue_insert_cases [of q v] by auto
next
  case (4 q)
  then show ?case by (auto simp: pqueue_pop_def pq_inv_def split: list.splits)
next
  case (5 q)
  then show ?case
    by (auto simp: pqueue_pop_def pq_contents_def fun_eq_iff split: list.splits)
next
  case (6 q v)
  then show ?case
    by (force simp: pqueue_pop_def pq_contents_def pq_inv_def fun_eq_iff map_of_eq_None_iff
        dom_map_of_conv_image_fst split: list.splits if_splits)
next
  case (7 q v)
  then show ?case by (auto simp: pqueue_pop_def pqueue_size_def size_from_eq split: list.splits)
next
  case (8 q)
  then show ?case by (auto simp: pqueue_pop_def pqueue_size_def size_from_eq split: list.splits)
qed


section \<open>Properties\<close>

text \<open>Handing messages to the queue one after the other, as the DTLS reassembly code does.\<close>

primrec insert_all :: "'a pitem list \<Rightarrow> 'a pqueue \<Rightarrow> 'a pqueue" where
  "insert_all [] pq = pq"
| "insert_all (i # is) pq = insert_all is (snd (pqueue_insert pq i))"

lemma insert_all_inv:
  "pq_inv pq \<Longrightarrow> list_all (\<lambda>i. length (priority i) = 8) is \<Longrightarrow>
   pq_inv (insert_all is pq) \<and> dom (pq_contents (insert_all is pq)) = dom (pq_contents pq) \<union> prio ` set is
   \<and> ran (pq_contents (insert_all is pq)) \<subseteq> ran (pq_contents pq) \<union> set is"
proof (induction "is" arbitrary: pq)
  case Nil
  then show ?case by simp
next
  case (Cons i "is")
  then have i: "length (priority i) = 8" by simp
  have "dom (pq_contents (snd (pqueue_insert pq i))) = insert (prio i) (dom (pq_contents pq))
    \<and> ran (pq_contents (snd (pqueue_insert pq i))) \<subseteq> insert i (ran (pq_contents pq))"
    using pqueue_insert_cases [OF Cons.prems(1) i] by (auto simp: ran_def split: if_splits)
  moreover have "pq_inv (snd (pqueue_insert pq i))"
    using dtls_pq.invar_ins [OF Cons.prems(1) i] .
  ultimately show ?case
    using Cons.IH [of "snd (pqueue_insert pq i)"] Cons.prems(2) by simp blast
qed

lemma pq_contents_Some: "pq_contents q k = Some v \<Longrightarrow> prio v = k \<and> v \<in> set (items q)"
  by (auto simp: pq_contents_def dest!: map_of_SomeD)

lemma pq_inv_empty: "pq_inv \<lparr>items = [], count = c\<rparr>"
  by (simp add: pq_inv_def)

text \<open>
  C6. Whatever messages with 8-byte priorities are inserted into a new queue, popping it until it is
  empty delivers them in strictly ascending order of priority, exactly one message per inserted
  priority and none that was not inserted.
\<close>

theorem pqueue_delivers_in_order:
  assumes "list_all (\<lambda>i. length (priority i) = 8) is" and "pqueue_new True = Some pq"
  shows "let q = insert_all is pq; out = drain pqueue_pop (pqueue_size q) q in
     sorted_wrt (<) (map prio out) \<and> prio ` set out = prio ` set is \<and> set out \<subseteq> set is"
proof -
  have pq: "pq = \<lparr>items = [], count = 0\<rparr>" using assms(2) by (simp add: pqueue_new_def)
  let ?q = "insert_all is pq"
  have inv: "pq_inv ?q" and d: "dom (pq_contents ?q) = prio ` set is"
    and r: "ran (pq_contents ?q) \<subseteq> set is"
    using insert_all_inv [of pq "is"] assms(1) pq_inv_empty
    by (auto simp: pq pq_contents_def)
  note dr = dtls_pq.drain_delivers [OF inv refl]
  then have "prio ` set (drain pqueue_pop (pqueue_size ?q) ?q) = prio ` ran (pq_contents ?q)"
    by simp
  also have "\<dots> = dom (pq_contents ?q)"
    by (auto simp: ran_def dom_def image_iff dest: pq_contents_Some)
  finally have "prio ` set (drain pqueue_pop (pqueue_size ?q) ?q) = dom (pq_contents ?q)" .
  with dr d r show ?thesis by (auto simp: Let_def)
qed

theorem pqueue_delivers_in_order_witness:
  "let is = [\<lparr>priority = nat_be 8 7, data = ''b''\<rparr>, \<lparr>priority = nat_be 8 2, data = ''a''\<rparr>];
       q = insert_all is \<lparr>items = [], count = 0\<rparr>; out = drain pqueue_pop (pqueue_size q) q in
     sorted_wrt (<) (map prio out) \<and> prio ` set out = prio ` set is \<and> set out \<subseteq> set is"
  using pqueue_delivers_in_order [of "[\<lparr>priority = nat_be 8 7, data = ''b''\<rparr>,
      \<lparr>priority = nat_be 8 2, data = ''a''\<rparr>]" "\<lparr>items = [], count = 0\<rparr>"]
  by (simp add: Let_def pqueue_new_def)

lemma find_from_eq:
  "\<forall>i \<in> set is. length (priority i) = 8 \<Longrightarrow> length p = 8 \<Longrightarrow>
   find_from is p = map_of (map (\<lambda>i. (prio i, i)) is) (be_nat p)"
proof (induction "is" p rule: find_from.induct)
  case (1 p)
  then show ?case by simp
next
  case (2 i p)
  then show ?case using memcmp_sign [of "priority i" p] by (auto simp: prio_def)
next
  case (3 i j "is" p)
  then show ?case using memcmp_sign [of "priority i" p] by (auto simp: prio_def)
qed

text \<open>
  In a queue built by \<^verbatim>\<open>pqueue_insert\<close>, \<^verbatim>\<open>pqueue_find\<close> returns the node with the given
  8-byte priority when there is one and \<^verbatim>\<open>NULL\<close> otherwise.
\<close>

theorem pqueue_find_correct:
  assumes "list_all (\<lambda>i. length (priority i) = 8) is" "length p = 8"
  shows "let q = insert_all is \<lparr>items = [], count = 0\<rparr> in
     (pqueue_find q p = None \<longleftrightarrow> p \<notin> priority ` set is) \<and>
     (\<forall>i. pqueue_find q p = Some i \<longrightarrow> i \<in> set is \<and> priority i = p)"
proof -
  let ?q = "insert_all is \<lparr>items = [], count = 0\<rparr>"
  have inv: "pq_inv ?q" and d: "dom (pq_contents ?q) = prio ` set is"
    and r: "ran (pq_contents ?q) \<subseteq> set is"
    using insert_all_inv [OF pq_inv_empty assms(1)] by (auto simp: pq_contents_def)
  have f: "pqueue_find ?q p = pq_contents ?q (be_nat p)"
    using inv assms(2) find_from_eq [of "items ?q" p]
    by (auto simp: pqueue_find_def pq_contents_def pq_inv_def)
  have "be_nat p \<in> prio ` set is \<longleftrightarrow> p \<in> priority ` set is"
    using assms by (force simp: prio_def list_all_iff dest: be_nat_inject [rotated])
  then have none: "pqueue_find ?q p = None \<longleftrightarrow> p \<notin> priority ` set is"
    using d f by (metis domIff)
  have "i \<in> set is \<and> priority i = p" if "pqueue_find ?q p = Some i" for i
  proof -
    from that f have c: "pq_contents ?q (be_nat p) = Some i" by simp
    then have "i \<in> set is" "prio i = be_nat p"
      using r pq_contents_Some [OF c] by (auto simp: ran_def)
    with assms show ?thesis by (auto simp: prio_def list_all_iff intro: be_nat_inject)
  qed
  with none show ?thesis by (auto simp: Let_def)
qed

theorem pqueue_find_correct_witness:
  "let q = insert_all [\<lparr>priority = nat_be 8 7, data = ''b''\<rparr>] \<lparr>items = [], count = 0\<rparr> in
     (pqueue_find q (nat_be 8 7) = None \<longleftrightarrow>
        nat_be 8 7 \<notin> priority ` set [\<lparr>priority = nat_be 8 7, data = ''b''\<rparr>]) \<and>
     (\<forall>i. pqueue_find q (nat_be 8 7) = Some i \<longrightarrow>
        i \<in> set [\<lparr>priority = nat_be 8 7, data = ''b''\<rparr>] \<and> priority i = nat_be 8 7)"
  by (rule pqueue_find_correct) simp_all

end
