(* ===== verification/Stack.thy ===== *)
theory Stack
  imports Prelude "HOL-Library.Multiset"
begin

text \<open>
  The growable array of \<^verbatim>\<open>crypto/stack/stack.c\<close> (\<^verbatim>\<open>OPENSSL_STACK\<close>) and the binary search
  \<^verbatim>\<open>OBJ_bsearch_ex_\<close> of \<^verbatim>\<open>crypto/objects/obj_dat.c\<close> it uses. A \<^verbatim>\<open>void *\<close> is an
  option (\<open>None\<close> is \<^verbatim>\<open>NULL\<close>); comparison functions are pointers of type \<open>'c\<close> that
  \<open>cmpf\<close> resolves to the function they point to; the memory that
  \<^verbatim>\<open>OPENSSL_zalloc\<close>/\<^verbatim>\<open>OPENSSL_realloc\<close> hand out comes from a \<open>heap\<close> parameter that says which
  requests succeed and what fresh cells hold. The array is seen as a list through
  \<open>sk_list\<close>, which the contract \<open>flexible_array\<close> specifies.
\<close>

section \<open>State\<close>

definition min_nodes :: int where "min_nodes = 4"
definition max_nodes :: int where
  "max_nodes = (if int SIZE_MAX div 8 < INT_MAX then int SIZE_MAX div 8 else INT_MAX)"

record ('a, 'c) stack_st =
  num :: int
  data :: "'a option list option"
  sorted :: bool
  num_alloc :: int
  comp :: "'c option"

record 'a heap =
  alloc_ok :: "int \<Rightarrow> bool"
  fresh :: "'a option"

type_synonym ('a, 'c) cmpf = "'c \<Rightarrow> 'a option \<Rightarrow> 'a option \<Rightarrow> int"

section \<open>Comparison function, copies\<close>


definition OPENSSL_sk_dup :: "'a heap \<Rightarrow> ('a, 'c) stack_st \<Rightarrow> ('a, 'c) stack_st option" where
  "OPENSSL_sk_dup h sk =
     (if \<not> alloc_ok h 1 then None
      else if num sk = 0 then Some (sk\<lparr>data := None, num_alloc := 0\<rparr>)
      else if \<not> alloc_ok h (num_alloc sk) then None
      else Some (sk\<lparr>data := Some (take (nat (num sk)) (the (data sk)) @
             replicate (nat (num_alloc sk) - nat (num sk)) (fresh h))\<rparr>))"

text \<open>The copy loop of \<^verbatim>\<open>OPENSSL_sk_deep_copy\<close>: elements done so far and, where
  \<^verbatim>\<open>copy_func\<close> fails, the elements handed to \<^verbatim>\<open>free_func\<close> on the way back.\<close>

fun deep_copy_loop ::
  "('a \<Rightarrow> 'a option) \<Rightarrow> 'a option list \<Rightarrow> 'a option list \<Rightarrow> 'a list + 'a option list" where
  "deep_copy_loop copy_func acc [] = Inr (rev acc)"
| "deep_copy_loop copy_func acc (None # xs) = deep_copy_loop copy_func (None # acc) xs"
| "deep_copy_loop copy_func acc (Some x # xs) =
     (case copy_func x of
        None \<Rightarrow> Inl (List.map_filter id acc)
      | Some y \<Rightarrow> deep_copy_loop copy_func (Some y # acc) xs)"

definition OPENSSL_sk_deep_copy ::
  "'a heap \<Rightarrow> ('a, 'c) stack_st \<Rightarrow> ('a \<Rightarrow> 'a option) \<Rightarrow> 'a list \<times> ('a, 'c) stack_st option" where
  "OPENSSL_sk_deep_copy h sk copy_func =
     (if \<not> alloc_ok h 1 then ([], None)
      else if num sk = 0 then ([], Some (sk\<lparr>data := None, num_alloc := 0\<rparr>))
      else let na = (if num sk > min_nodes then num sk else min_nodes) in
        if \<not> alloc_ok h na then ([], None)
        else case deep_copy_loop copy_func [] (take (nat (num sk)) (the (data sk))) of
            Inl freed \<Rightarrow> (freed, None)
          | Inr ys \<Rightarrow> ([], Some (sk\<lparr>data := Some (ys @ replicate (nat na - nat (num sk)) None),
                                   num_alloc := na\<rparr>)))"

section \<open>Growth and reservation\<close>

definition growth_limit :: int where
  "growth_limit = (max_nodes div 3) * 2 + (if max_nodes mod 3 \<noteq> 0 then 1 else 0)"

text \<open>The loop does not end for \<open>current < 2\<close>, as the comment in the source says: then the
  result is \<open>None\<close>.\<close>

partial_function (option) compute_growth :: "int \<Rightarrow> int \<Rightarrow> int option" where
  "compute_growth target current =
     (if current < target then
        (if current \<ge> max_nodes then Some 0
         else compute_growth target
                (if current < growth_limit then current + current div 2 else max_nodes))
      else Some current)"

text \<open>The final reallocation of the array to \<open>na\<close> cells.\<close>

definition sk_realloc :: "'a heap \<Rightarrow> ('a, 'c) stack_st \<Rightarrow> int \<Rightarrow> bool \<times> ('a, 'c) stack_st" where
  "sk_realloc h st na =
     (let cells = the (data st) in
      if \<not> alloc_ok h na then (False, st)
      else (True, st\<lparr>data := Some (take (nat na) cells @ replicate (nat na - length cells) (fresh h)),
                     num_alloc := na\<rparr>))"

text \<open>Result and new stack; \<open>None\<close> where the growth loop does not return.\<close>

definition sk_reserve ::
  "'a heap \<Rightarrow> ('a, 'c) stack_st \<Rightarrow> int \<Rightarrow> bool \<Rightarrow> (bool \<times> ('a, 'c) stack_st) option" where
  "sk_reserve h st n exact =
     (if n > max_nodes - num st then Some (False, st)
      else
        let na = (if num st + n < min_nodes then min_nodes else num st + n) in
        if data st = None then
          Some (if \<not> alloc_ok h na then (False, st)
                else (True, st\<lparr>data := Some (replicate (nat na) None), num_alloc := na\<rparr>))
        else if \<not> exact then
          if na \<le> num_alloc st then Some (True, st)
          else (case compute_growth na (num_alloc st) of
                  None \<Rightarrow> None
                | Some g \<Rightarrow> Some (if g = 0 then (False, st) else sk_realloc h st g))
        else if na = num_alloc st then Some (True, st)
        else Some (sk_realloc h st na))"

definition sk_zeroed :: "'c option \<Rightarrow> ('a, 'c) stack_st" where
  "sk_zeroed c = \<lparr>num = 0, data = None, sorted = False, num_alloc = 0, comp = c\<rparr>"

definition OPENSSL_sk_new_reserve ::
  "'a heap \<Rightarrow> 'c option \<Rightarrow> int \<Rightarrow> ('a, 'c) stack_st option option" where
  "OPENSSL_sk_new_reserve h c n =
     (if \<not> alloc_ok h 1 then Some None
      else if n \<le> 0 then Some (Some (sk_zeroed c))
      else case sk_reserve h (sk_zeroed c) n True of
          None \<Rightarrow> None
        | Some (ok, st) \<Rightarrow> Some (if ok then Some st else None))"

definition OPENSSL_sk_new_null :: "'a heap \<Rightarrow> ('a, 'c) stack_st option option" where
  "OPENSSL_sk_new_null h = OPENSSL_sk_new_reserve h None 0"



section \<open>Insertion and deletion\<close>

text \<open>Placing the new pointer: at the end, or at \<open>loc\<close> with the tail moved up by one cell.\<close>

definition insert_cells :: "'p list \<Rightarrow> int \<Rightarrow> int \<Rightarrow> 'p \<Rightarrow> 'p list" where
  "insert_cells cells n loc d =
     (if loc \<ge> n \<or> loc < 0 then cells[nat n := d]
      else (memmove cells (nat (loc + 1)) (nat loc) (nat (n - loc)))[nat loc := d])"

definition OPENSSL_sk_insert ::
  "'a heap \<Rightarrow> ('a, 'c) stack_st option \<Rightarrow> 'a option \<Rightarrow> int \<Rightarrow> (int \<times> ('a, 'c) stack_st option) option" where
  "OPENSSL_sk_insert h st d loc =
     (case st of
        None \<Rightarrow> Some (0, None)
      | Some s \<Rightarrow>
          if num s = max_nodes then Some (0, st)
          else case sk_reserve h s 1 False of
              None \<Rightarrow> None
            | Some (False, s') \<Rightarrow> Some (0, Some s')
            | Some (True, s') \<Rightarrow>
                Some (num s' + 1,
                      Some (s'\<lparr>data := Some (insert_cells (the (data s')) (num s') loc d),
                               num := num s' + 1, sorted := False\<rparr>)))"

definition internal_delete :: "('a, 'c) stack_st \<Rightarrow> int \<Rightarrow> 'a option \<times> ('a, 'c) stack_st" where
  "internal_delete st loc =
     (let cells = the (data st); ret = cells ! nat loc;
          cells' = (if loc \<noteq> num st - 1
                    then memmove cells (nat loc) (nat (loc + 1)) (nat (num st - loc - 1))
                    else cells) in
      (ret, st\<lparr>data := Some cells', num := num st - 1\<rparr>))"

text \<open>The index of the first cell equal to \<open>p\<close> among those not yet visited.\<close>

fun first_index :: "'a list \<Rightarrow> 'a \<Rightarrow> int \<Rightarrow> int option" where
  "first_index [] p i = None"
| "first_index (x # xs) p i = (if x = p then Some i else first_index xs p (i + 1))"

definition used_cells :: "('a, 'c) stack_st \<Rightarrow> 'a option list" where
  "used_cells st = (case data st of None \<Rightarrow> [] | Some cells \<Rightarrow> take (nat (num st)) cells)"



section \<open>Search\<close>

text \<open>\<^verbatim>\<open>qsort\<close> of the C library, as an insertion sort: a permutation in ascending order.\<close>

fun insort_cmp :: "('p \<Rightarrow> 'p \<Rightarrow> int) \<Rightarrow> 'p \<Rightarrow> 'p list \<Rightarrow> 'p list" where
  "insort_cmp cmp x [] = [x]"
| "insort_cmp cmp x (y # ys) = (if cmp x y \<le> 0 then x # y # ys else y # insort_cmp cmp x ys)"

definition qsort :: "('p \<Rightarrow> 'p \<Rightarrow> int) \<Rightarrow> 'p list \<Rightarrow> 'p list" where
  "qsort cmp xs = foldr (insort_cmp cmp) xs []"

text \<open>\<^verbatim>\<open>sizeof(void *)\<close>, the element size of the array of pointers.\<close>

abbreviation sizeof_pointer :: int where "sizeof_pointer \<equiv> 8"

definition OBJ_BSEARCH_VALUE_ON_NOMATCH :: "8 word" where "OBJ_BSEARCH_VALUE_ON_NOMATCH = 1"
definition OBJ_BSEARCH_FIRST_VALUE_ON_MATCH :: "8 word" where "OBJ_BSEARCH_FIRST_VALUE_ON_MATCH = 2"

text \<open>The halving loop: \<open>f i\<close> is the result of comparing the key with element \<open>i\<close>. C computes
  \<open>l + h\<close> and the offset \<open>i * size\<close> in \<^verbatim>\<open>int\<close>; a value beyond INT_MAX is an overflow, whose
  behaviour C leaves undefined: the outcome None. The sum and the offset are never negative, so
  halving is \<open>div\<close>.\<close>

function bsearch_loop ::
  "(int \<Rightarrow> int) \<Rightarrow> int \<Rightarrow> int \<Rightarrow> int \<Rightarrow> int \<Rightarrow> int \<Rightarrow> (int \<times> int) option" where
  "bsearch_loop f sz l h i c =
     (if l < h then
        if l + h > INT_MAX then None
        else let i = (l + h) div 2 in
          if i * sz > INT_MAX then None
          else let c = f i in
            if c < 0 then bsearch_loop f sz l i i c
            else if c > 0 then bsearch_loop f sz (i + 1) h i c
            else Some (i, c)
      else Some (i, c))"
  by pat_completeness auto
termination
  by (relation "measure (\<lambda>(f, sz, l, h, i, c). nat (h - l))") auto

function first_match :: "(int \<Rightarrow> int) \<Rightarrow> int \<Rightarrow> int" where
  "first_match f i = (if i > 0 \<and> f (i - 1) = 0 then first_match f (i - 1) else i)"
  by pat_completeness auto
termination
  by (relation "measure (\<lambda>(f, i). nat i)") auto

declare bsearch_loop.simps [simp del] first_match.simps [simp del]

text \<open>The outer None is the overflow of the loop, the inner one the NULL result. On a negative
  count the loop does not run and \<^verbatim>\<open>p\<close> keeps its NULL, unless the first match is asked for.\<close>

definition OBJ_bsearch_ex :: "(int \<Rightarrow> int) \<Rightarrow> int \<Rightarrow> int \<Rightarrow> 8 word \<Rightarrow> int option option" where
  "OBJ_bsearch_ex f n sz flags =
     (if n = 0 then Some None
      else case bsearch_loop f sz 0 n 0 0 of
          None \<Rightarrow> None
        | Some (i, c) \<Rightarrow> Some
            (if c \<noteq> 0 \<and> \<not> has_flag flags OBJ_BSEARCH_VALUE_ON_NOMATCH then None
             else if c = 0 \<and> has_flag flags OBJ_BSEARCH_FIRST_VALUE_ON_MATCH then Some (first_match f i)
             else if n < 0 then None
             else Some i))"

text \<open>Sorting the used cells in place where the flag says they are not sorted.\<close>

definition sort_cells ::
  "('a option \<Rightarrow> 'a option \<Rightarrow> int) \<Rightarrow> ('a, 'c) stack_st \<Rightarrow> ('a, 'c) stack_st" where
  "sort_cells cmp st =
     (let cells = the (data st); n = nat (num st) in
      (if num st > 1 then st\<lparr>data := Some (qsort cmp (take n cells) @ drop n cells)\<rparr> else st)
        \<lparr>sorted := True\<rparr>)"

text \<open>The result is None where the index arithmetic of the binary search overflows; the stack is
  by then sorted and is not touched by the search itself.\<close>

definition internal_find ::
  "('a, 'c) cmpf \<Rightarrow> ('a, 'c) stack_st option \<Rightarrow> 'a option \<Rightarrow> 8 word \<Rightarrow>
     int option \<times> ('a, 'c) stack_st option" where
  "internal_find cmpf st d ret_val_options =
     (case st of
        None \<Rightarrow> (Some (- 1), None)
      | Some s \<Rightarrow>
          if num s = 0 then (Some (- 1), st)
          else case comp s of
              None \<Rightarrow> (Some (case first_index (used_cells s) d 0 of None \<Rightarrow> - 1 | Some i \<Rightarrow> i), st)
            | Some c \<Rightarrow>
                let s' = (if \<not> sorted s then sort_cells (cmpf c) s else s) in
                if d = None then (Some (- 1), Some s')
                else (map_option (\<lambda>r. case r of None \<Rightarrow> - 1 | Some i \<Rightarrow> i)
                        (OBJ_bsearch_ex (\<lambda>i. cmpf c d (the (data s') ! nat i)) (num s')
                           sizeof_pointer ret_val_options), Some s'))"

definition OPENSSL_sk_find ::
  "('a, 'c) cmpf \<Rightarrow> ('a, 'c) stack_st option \<Rightarrow> 'a option \<Rightarrow> int option \<times> ('a, 'c) stack_st option" where
  "OPENSSL_sk_find cmpf st d = internal_find cmpf st d OBJ_BSEARCH_FIRST_VALUE_ON_MATCH"

definition OPENSSL_sk_find_ex ::
  "('a, 'c) cmpf \<Rightarrow> ('a, 'c) stack_st option \<Rightarrow> 'a option \<Rightarrow> int option \<times> ('a, 'c) stack_st option" where
  "OPENSSL_sk_find_ex cmpf st d = internal_find cmpf st d OBJ_BSEARCH_VALUE_ON_NOMATCH"

section \<open>Stack and array operations\<close>

definition OPENSSL_sk_push ::
  "'a heap \<Rightarrow> ('a, 'c) stack_st option \<Rightarrow> 'a option \<Rightarrow> (int \<times> ('a, 'c) stack_st option) option" where
  "OPENSSL_sk_push h st d =
     (case st of None \<Rightarrow> Some (- 1, None) | Some s \<Rightarrow> OPENSSL_sk_insert h st d (num s))"

definition OPENSSL_sk_unshift ::
  "'a heap \<Rightarrow> ('a, 'c) stack_st option \<Rightarrow> 'a option \<Rightarrow> (int \<times> ('a, 'c) stack_st option) option" where
  "OPENSSL_sk_unshift h st d = OPENSSL_sk_insert h st d 0"

definition OPENSSL_sk_shift ::
  "('a, 'c) stack_st option \<Rightarrow> 'a option \<times> ('a, 'c) stack_st option" where
  "OPENSSL_sk_shift st =
     (case st of
        None \<Rightarrow> (None, None)
      | Some s \<Rightarrow> if num s = 0 then (None, st) else map_prod id Some (internal_delete s 0))"

definition OPENSSL_sk_pop ::
  "('a, 'c) stack_st option \<Rightarrow> 'a option \<times> ('a, 'c) stack_st option" where
  "OPENSSL_sk_pop st =
     (case st of
        None \<Rightarrow> (None, None)
      | Some s \<Rightarrow>
          if num s = 0 then (None, st) else map_prod id Some (internal_delete s (num s - 1)))"


text \<open>The pointers \<^verbatim>\<open>OPENSSL_sk_pop_free\<close> hands to the callback, in order, before the stack is freed.\<close>

definition OPENSSL_sk_pop_free :: "('a, 'c) stack_st option \<Rightarrow> 'a list" where
  "OPENSSL_sk_pop_free st = (case st of None \<Rightarrow> [] | Some s \<Rightarrow> List.map_filter id (used_cells s))"

definition OPENSSL_sk_num :: "('a, 'c) stack_st option \<Rightarrow> int" where
  "OPENSSL_sk_num st = (case st of None \<Rightarrow> - 1 | Some s \<Rightarrow> num s)"

definition OPENSSL_sk_value :: "('a, 'c) stack_st option \<Rightarrow> int \<Rightarrow> 'a option" where
  "OPENSSL_sk_value st i =
     (case st of
        None \<Rightarrow> None
      | Some s \<Rightarrow> if i < 0 \<or> i \<ge> num s then None else the (data s) ! nat i)"



definition OPENSSL_sk_is_sorted :: "('a, 'c) stack_st option \<Rightarrow> bool" where
  "OPENSSL_sk_is_sorted st = (case st of None \<Rightarrow> True | Some s \<Rightarrow> sorted s)"

section \<open>Well-formedness\<close>

lemma nodes_values [simp]: "max_nodes = 2147483647" "min_nodes = 4" "growth_limit = 1431655765"
  by (simp_all add: max_nodes_def min_nodes_def growth_limit_def)

definition sk_inv :: "('a, 'c) stack_st \<Rightarrow> bool" where
  "sk_inv st \<longleftrightarrow> 0 \<le> num st \<and> num st \<le> num_alloc st \<and> num_alloc st \<le> max_nodes \<and>
     (case data st of
        None \<Rightarrow> num_alloc st = 0
      | Some cells \<Rightarrow> int (length cells) = num_alloc st \<and> min_nodes \<le> num_alloc st)"

lemma sk_inv_zeroed: "sk_inv (sk_zeroed c)"
  by (simp add: sk_inv_def sk_zeroed_def)

lemma length_used_cells [simp]: "sk_inv st \<Longrightarrow> int (length (used_cells st)) = num st"
  by (auto simp: sk_inv_def used_cells_def split: option.splits)

lemma compute_growth_step:
  "2 \<le> current \<Longrightarrow> current < target \<Longrightarrow> target \<le> max_nodes \<Longrightarrow>
   compute_growth target current =
     compute_growth target (if current < growth_limit then current + current div 2 else max_nodes)"
  by (subst compute_growth.simps) simp

lemma compute_growth_returns:
  assumes "2 \<le> current" "current \<le> max_nodes" "target \<le> max_nodes"
  shows "\<exists>r. compute_growth target current = Some r \<and> target \<le> r \<and> current \<le> r \<and> r \<le> max_nodes
    \<and> (r = current \<or> 2 * r \<le> 3 * (target - 1) \<or> r = max_nodes)"
  using assms
proof (induction "nat (target - current)" arbitrary: current rule: less_induct)
  case less
  show ?case
  proof (cases "current < target")
    case False
    then show ?thesis using less.prems by (subst compute_growth.simps) simp
  next
    case True
    define c' where "c' = (if current < growth_limit then current + current div 2 else max_nodes)"
    have eq: "compute_growth target current = compute_growth target c'"
      using True less.prems unfolding c'_def by (intro compute_growth_step) auto
    have c': "current < c'" "c' \<le> max_nodes" "2 * c' \<le> 3 * current \<or> c' = max_nodes"
      using True less.prems by (auto simp: c'_def)
    from c' True less.prems have "nat (target - c') < nat (target - current)" by auto
    then obtain r where "compute_growth target c' = Some r" "target \<le> r" "c' \<le> r" "r \<le> max_nodes"
      "r = c' \<or> 2 * r \<le> 3 * (target - 1) \<or> r = max_nodes"
      using less.hyps [of c'] c' less.prems by auto
    with eq c' True show ?thesis by fastforce
  qed
qed

definition reserved :: "('a, 'c) stack_st \<Rightarrow> int \<Rightarrow> bool \<times> ('a, 'c) stack_st \<Rightarrow> bool" where
  "reserved s n r \<longleftrightarrow> (case r of (ok, s') \<Rightarrow> sk_inv s' \<and> used_cells s' = used_cells s \<and>
     num s' = num s \<and> comp s' = comp s \<and> sorted s' = sorted s \<and>
     (ok \<longrightarrow> data s' \<noteq> None \<and> num s + n \<le> num_alloc s'))"

lemma sk_realloc_reserved:
  assumes "sk_inv s" "data s \<noteq> None" "0 \<le> n" "num s + n \<le> m" "min_nodes \<le> m" "m \<le> max_nodes"
  shows "reserved s n (sk_realloc h s m)"
proof -
  from assms obtain cells where d: "data s = Some cells" by auto
  then have len: "int (length cells) = num_alloc s" "0 \<le> num s" "num s \<le> num_alloc s"
    using assms by (auto simp: sk_inv_def)
  then have "take (nat (num s)) (take (nat m) cells @ replicate (nat m - length cells) (fresh h))
      = take (nat (num s)) cells"
    using assms by (auto simp: min_def)
  with d len assms show ?thesis
    by (auto simp: sk_realloc_def reserved_def sk_inv_def used_cells_def Let_def)
qed

lemma sk_reserve_returns:
  assumes inv: "sk_inv s" and n: "0 \<le> n"
  shows "\<exists>r. sk_reserve h s n exact = Some r \<and> reserved s n r"
proof (cases "n > max_nodes - num s")
  case True
  then show ?thesis using inv by (simp add: sk_reserve_def reserved_def)
next
  case False
  define na where "na = (if num s + n < min_nodes then min_nodes else num s + n)"
  have na: "min_nodes \<le> na" "num s + n \<le> na" "na \<le> max_nodes" "num s \<le> na"
    using False inv n by (auto simp: na_def sk_inv_def)
  have eq: "sk_reserve h s n exact =
      (if data s = None then
          Some (if \<not> alloc_ok h na then (False, s)
                else (True, s\<lparr>data := Some (replicate (nat na) None), num_alloc := na\<rparr>))
        else if \<not> exact then
          if na \<le> num_alloc s then Some (True, s)
          else (case compute_growth na (num_alloc s) of
                  None \<Rightarrow> None
                | Some g \<Rightarrow> Some (if g = 0 then (False, s) else sk_realloc h s g))
        else if na = num_alloc s then Some (True, s)
        else Some (sk_realloc h s na))"
    using False unfolding sk_reserve_def Let_def na_def by (simp only: if_False)
  have re: "reserved s n (sk_realloc h s m)" if "na \<le> m" "m \<le> max_nodes" "data s \<noteq> None" for m
    using that na inv n by (intro sk_realloc_reserved) auto
  show ?thesis
  proof (cases "data s")
    case None
    then have "num s = 0" using inv by (auto simp: sk_inv_def)
    with None inv na show ?thesis unfolding eq by (auto simp: reserved_def sk_inv_def used_cells_def)
  next
    case (Some cells)
    then have "2 \<le> num_alloc s" "num_alloc s \<le> max_nodes" using inv by (auto simp: sk_inv_def)
    then obtain g where "compute_growth na (num_alloc s) = Some g" "na \<le> g" "g \<le> max_nodes"
      using compute_growth_returns [of "num_alloc s" na] na by auto
    with Some inv na re [of g] re [of na] show ?thesis unfolding eq by (auto simp: reserved_def)
  qed
qed

lemma insert_cells_take:
  assumes "0 \<le> n" "nat n < length cells"
  shows "length (insert_cells cells n loc d) = length cells"
    and "take (nat (n + 1)) (insert_cells cells n loc d) =
      (let k = (if 0 \<le> loc \<and> loc < n then nat loc else nat n);
           xs = take (nat n) cells in take k xs @ d # drop k xs)"
proof -
  have nn: "nat (n + 1) = Suc (nat n)" using assms by simp
  have "length (insert_cells cells n loc d) = length cells \<and>
    take (nat (n + 1)) (insert_cells cells n loc d) =
      (let k = (if 0 \<le> loc \<and> loc < n then nat loc else nat n);
           xs = take (nat n) cells in take k xs @ d # drop k xs)"
  proof (cases "loc \<ge> n \<or> loc < 0")
    case True
    with assms nn show ?thesis by (auto simp: insert_cells_def take_Suc_conv_app_nth Let_def)
  next
    case False
    then have l: "nat loc < nat n" "nat (loc + 1) = Suc (nat loc)" "nat (n - loc) = nat n - nat loc"
      by auto
    then have "insert_cells cells n loc d = (memmove cells (Suc (nat loc)) (nat loc) (nat n - nat loc))[nat loc := d]"
      using False by (simp add: insert_cells_def)
    moreover have "length (memmove cells (Suc (nat loc)) (nat loc) (nat n - nat loc)) = length cells"
      using l assms by (intro length_memmove) auto
    ultimately show ?thesis
      using False nn take_memmove_up [OF less_imp_le [OF l(1)] assms(2), of d]
        min_absorb1 [OF less_imp_le [OF l(1)]]
      by (simp add: Let_def)
  qed
  then show "length (insert_cells cells n loc d) = length cells"
    and "take (nat (n + 1)) (insert_cells cells n loc d) =
      (let k = (if 0 \<le> loc \<and> loc < n then nat loc else nat n);
           xs = take (nat n) cells in take k xs @ d # drop k xs)"
    by simp_all
qed

definition inserted :: "'p list \<Rightarrow> int \<Rightarrow> 'p \<Rightarrow> 'p list" where
  "inserted xs loc d =
     (let k = (if 0 \<le> loc \<and> loc < int (length xs) then nat loc else length xs)
      in take k xs @ d # drop k xs)"

lemma sk_insert_returns:
  assumes inv: "sk_inv s"
  shows "\<exists>r s'. OPENSSL_sk_insert h (Some s) d loc = Some (r, Some s') \<and> sk_inv s' \<and> comp s' = comp s \<and>
    (r = 0 \<and> used_cells s' = used_cells s \<and> sorted s' = sorted s \<or>
     r = num s + 1 \<and> \<not> sorted s' \<and> used_cells s' = inserted (used_cells s) loc d)"
proof (cases "num s = max_nodes")
  case True
  then show ?thesis using inv by (simp add: OPENSSL_sk_insert_def)
next
  case False
  from sk_reserve_returns [OF inv, of 1 h False] obtain ok s1 where
    r: "sk_reserve h s 1 False = Some (ok, s1)" and res: "reserved s 1 (ok, s1)" by auto
  show ?thesis
  proof (cases ok)
    case False
    with r res \<open>num s \<noteq> max_nodes\<close> show ?thesis by (auto simp: OPENSSL_sk_insert_def reserved_def)
  next
    case True
    with res obtain cells where d: "data s1 = Some cells" and inv1: "sk_inv s1"
      and u: "used_cells s1 = used_cells s" "num s1 = num s" "comp s1 = comp s" "num s + 1 \<le> num_alloc s1"
      by (auto simp: reserved_def)
    have n: "0 \<le> num s" "nat (num s) < length cells" "int (length cells) = num_alloc s1"
      "used_cells s = take (nat (num s)) cells"
      using inv1 d u by (auto simp: sk_inv_def used_cells_def)
    have ins: "OPENSSL_sk_insert h (Some s) d loc = Some (num s + 1,
        Some (s1\<lparr>data := Some (insert_cells cells (num s) loc d), num := num s + 1, sorted := False\<rparr>))"
      using \<open>num s \<noteq> max_nodes\<close> r True d u by (simp add: OPENSSL_sk_insert_def)
    have "inserted (used_cells s) loc d = take (nat (num s + 1)) (insert_cells cells (num s) loc d)"
      using n insert_cells_take(2) [OF n(1,2), of loc d] by (auto simp: inserted_def Let_def min_def)
    with ins inv1 u d n insert_cells_take(1) [OF n(1,2), of loc d] show ?thesis
      by (auto simp: sk_inv_def used_cells_def)
  qed
qed

lemma internal_delete_list:
  assumes inv: "sk_inv s" and loc: "0 \<le> loc" "loc < num s"
  shows "\<exists>s'. internal_delete s loc = (used_cells s ! nat loc, s') \<and> sk_inv s' \<and> comp s' = comp s \<and>
    sorted s' = sorted s \<and>
    used_cells s' = take (nat loc) (used_cells s) @ drop (Suc (nat loc)) (used_cells s)"
proof -
  from inv loc obtain cells where d: "data s = Some cells" "int (length cells) = num_alloc s" "num s \<le> num_alloc s"
    by (auto simp: sk_inv_def split: option.splits)
  define n l where "n = nat (num s)" and "l = nat loc"
  have n: "l < n" "n \<le> length cells" "int n = num s" "int l = loc" "nat (loc + 1) = Suc l"
     "nat (num s - loc - 1) = n - l - 1" "nat (num s - 1) = n - 1" "used_cells s = take n cells"
    using d loc by (auto simp: n_def l_def used_cells_def)
  define cells' where "cells' = (if loc \<noteq> num s - 1 then memmove cells l (Suc l) (n - l - 1) else cells)"
  have del: "internal_delete s loc = (cells ! l, s\<lparr>data := Some cells', num := num s - 1\<rparr>)"
    using n d by (simp add: internal_delete_def Let_def cells'_def l_def)
  have len: "length cells' = length cells" using n by (simp add: cells'_def length_memmove)
  have "take (n - 1) cells' = take l cells @ drop (Suc l) (take n cells)"
  proof (cases "loc = num s - 1")
    case True
    then have "n = Suc l" using n by linarith
    with True n show ?thesis by (simp add: cells'_def)
  next
    case False
    then show ?thesis using n take_memmove_down [of l n cells] by (simp add: cells'_def)
  qed
  with del len inv loc d n show ?thesis
    by (auto simp: sk_inv_def used_cells_def l_def[symmetric] min_def)
qed
section \<open>The contract of a flexible array\<close>

locale flexible_array =
  fixes invar :: "'s \<Rightarrow> bool"
    and lst :: "'s \<Rightarrow> 'e list"
    and ins :: "'s \<Rightarrow> 'e \<Rightarrow> int \<Rightarrow> (int \<times> 's) option"
    and del :: "'s \<Rightarrow> int \<Rightarrow> 'e \<times> 's"
  assumes ins_returns: "invar s \<Longrightarrow> \<exists>r s'. ins s e i = Some (r, s') \<and> invar s' \<and>
       (r = 0 \<and> lst s' = lst s \<or> r = int (length (lst s)) + 1 \<and> lst s' = inserted (lst s) i e)"
    and del_list: "invar s \<Longrightarrow> 0 \<le> i \<Longrightarrow> i < int (length (lst s)) \<Longrightarrow>
       \<exists>s'. del s i = (lst s ! nat i, s') \<and> invar s' \<and>
         lst s' = take (nat i) (lst s) @ drop (Suc (nat i)) (lst s)"
begin

text \<open>Deleting where an element was just inserted gives the element and the old contents back.\<close>

lemma del_ins:
  assumes "invar s" "ins s e i = Some (r, s')" "r \<noteq> 0" "0 \<le> i" "i \<le> int (length (lst s))"
  shows "\<exists>s''. del s' i = (e, s'') \<and> invar s'' \<and> lst s'' = lst s"
proof -
  from ins_returns [OF assms(1), of e i] assms(2,3)
  have s': "invar s'" "lst s' = inserted (lst s) i e" by auto
  then have l: "lst s' = take (nat i) (lst s) @ e # drop (nat i) (lst s)"
    using assms(4,5) by (auto simp: inserted_def Let_def)
  with assms(4,5) have "int (length (lst s')) = int (length (lst s)) + 1" by simp
  with s' assms(4,5) obtain s'' where "del s' i = (lst s' ! nat i, s'')" "invar s''"
    "lst s'' = take (nat i) (lst s') @ drop (Suc (nat i)) (lst s')"
    using del_list [of s' i] by auto
  with l assms(4,5) show ?thesis by (auto simp: nth_append min_def)
qed

end

interpretation sk: flexible_array sk_inv used_cells
  "\<lambda>s d loc. map_option (map_prod id the) (OPENSSL_sk_insert h (Some s) d loc)" internal_delete
  for h :: "'a heap"
proof
  fix s :: "('a, 'c) stack_st" and e i
  assume "sk_inv s"
  with sk_insert_returns [OF this, of h e i] show "\<exists>r s'.
      map_option (map_prod id the) (OPENSSL_sk_insert h (Some s) e i) = Some (r, s') \<and> sk_inv s' \<and>
      (r = 0 \<and> used_cells s' = used_cells s \<or>
       r = int (length (used_cells s)) + 1 \<and> used_cells s' = inserted (used_cells s) i e)"
    by auto
next
  fix s :: "('a, 'c) stack_st" and i
  assume "sk_inv s" "0 \<le> i" "i < int (length (used_cells s))"
  then show "\<exists>s'. internal_delete s i = (used_cells s ! nat i, s') \<and> sk_inv s' \<and>
      used_cells s' = take (nat i) (used_cells s) @ drop (Suc (nat i)) (used_cells s)"
    using internal_delete_list [of s i] by auto
qed

lemma insert_Some_stack:
  "OPENSSL_sk_insert h (Some s) d loc = Some (r, t) \<Longrightarrow> \<exists>s'. t = Some s'"
  by (auto simp: OPENSSL_sk_insert_def split: if_splits option.splits bool.splits)

section \<open>Sorting and searching\<close>

definition comparator :: "('p \<Rightarrow> 'p \<Rightarrow> int) \<Rightarrow> bool" where
  "comparator cmp \<longleftrightarrow> (\<forall>x y. cmp x y < 0 \<longleftrightarrow> cmp y x > 0) \<and>
     (\<forall>x y z. cmp x y \<le> 0 \<longrightarrow> cmp y z \<le> 0 \<longrightarrow> cmp x z \<le> 0)"

lemma comparator_flip:
  assumes "comparator cmp"
  shows "cmp x y < 0 \<longleftrightarrow> cmp y x > 0" "cmp x y \<le> 0 \<longleftrightarrow> cmp y x \<ge> 0"
proof -
  have "\<And>x y. cmp x y < 0 \<longleftrightarrow> cmp y x > 0" using assms unfolding comparator_def by blast
  then show "cmp x y < 0 \<longleftrightarrow> cmp y x > 0" "cmp x y \<le> 0 \<longleftrightarrow> cmp y x \<ge> 0"
    by (metis linorder_not_less)+
qed

lemma comparator_trans: "comparator cmp \<Longrightarrow> cmp x y \<le> 0 \<Longrightarrow> cmp y z \<le> 0 \<Longrightarrow> cmp x z \<le> 0"
  by (auto simp: comparator_def)

lemma mset_qsort [simp]: "mset (qsort cmp xs) = mset xs"
proof -
  have "mset (insort_cmp cmp x ys) = add_mset x (mset ys)" for x ys
    by (induction ys) auto
  then show ?thesis by (induction xs) (auto simp: qsort_def)
qed

lemma set_insort_cmp: "set (insort_cmp cmp x ys) = insert x (set ys)"
  by (induction ys) auto

lemma sorted_qsort: "comparator cmp \<Longrightarrow> sorted_wrt (\<lambda>x y. cmp x y \<le> 0) (qsort cmp xs)"
proof -
  assume c: "comparator cmp"
  have "sorted_wrt (\<lambda>x y. cmp x y \<le> 0) ys \<Longrightarrow> sorted_wrt (\<lambda>x y. cmp x y \<le> 0) (insort_cmp cmp x ys)" for x ys
  proof (induction ys)
    case Nil
    then show ?case by simp
  next
    case (Cons y ys)
    then show ?case using comparator_flip [OF c, of x y] comparator_trans [OF c, of x y]
      by (auto simp: set_insort_cmp)
  qed
  then show ?thesis by (induction xs) (auto simp: qsort_def)
qed

lemma length_qsort [simp]: "length (qsort cmp xs) = length xs"
  by (metis mset_qsort size_mset)

text \<open>The signs of comparing one key with the elements of an ascending array.\<close>

definition ascending_signs :: "(int \<Rightarrow> int) \<Rightarrow> int \<Rightarrow> bool" where
  "ascending_signs f n \<longleftrightarrow>
     (\<forall>i j. 0 \<le> i \<and> i < j \<and> j < n \<longrightarrow> (f i < 0 \<longrightarrow> f j < 0) \<and> (f j > 0 \<longrightarrow> f i > 0))"

lemma bsearch_loop_correct:
  assumes "ascending_signs f n" "0 \<le> l" "h \<le> n" "0 < sz" "(n - 1) * sz \<le> INT_MAX" "2 * n \<le> INT_MAX"
    "\<forall>k. 0 \<le> k \<and> k < l \<longrightarrow> f k > 0" "\<forall>k. h \<le> k \<and> k < n \<longrightarrow> f k < 0" "l < h \<or> c \<noteq> 0"
  shows "\<exists>i' c'. bsearch_loop f sz l h i c = Some (i', c') \<and>
    (if c' = 0 then 0 \<le> i' \<and> i' < n \<and> f i' = 0 else (\<forall>k. 0 \<le> k \<and> k < n \<longrightarrow> f k \<noteq> 0))"
  using assms
proof (induction f sz l h i c rule: bsearch_loop.induct)
  case (1 f sz l h i c)
  note asc = "1.prems"(1) [unfolded ascending_signs_def, rule_format]
  show ?case
  proof (cases "l < h")
    case False
    then have "bsearch_loop f sz l h i c = Some (i, c)" by (simp add: bsearch_loop.simps [of f sz l h])
    moreover have "f k \<noteq> 0" if "0 \<le> k" "k < n" for k
      using "1.prems"(7) [rule_format, of k] "1.prems"(8) [rule_format, of k] that False by linarith
    ultimately show ?thesis using "1.prems" False by auto
  next
    case True
    define m where "m = (l + h) div 2"
    have m: "l \<le> m" "m < h" "0 \<le> m" "m < n" using True "1.prems" by (auto simp: m_def)
    have sum: "\<not> l + h > INT_MAX" using True "1.prems" by linarith
    have "m * sz \<le> (n - 1) * sz" using m "1.prems"(4) by (intro mult_right_mono) auto
    then have off: "\<not> m * sz > INT_MAX" using "1.prems"(5) by linarith
    have step: "bsearch_loop f sz l h i c =
       (if f m < 0 then bsearch_loop f sz l m m (f m)
        else if f m > 0 then bsearch_loop f sz (m + 1) h m (f m) else Some (m, f m))"
      using True sum off by (simp add: bsearch_loop.simps [of f sz l h] m_def [symmetric] Let_def)
    note IH = "1.IH" [OF True sum m_def, OF off refl]
    consider (lt) "f m < 0" | (gt) "f m > 0" | (eq) "f m = 0" by linarith
    then show ?thesis
    proof cases
      case eq
      then show ?thesis using step m by simp
    next
      case lt
      then have "\<forall>k. m \<le> k \<and> k < n \<longrightarrow> f k < 0" using asc [of m] m by (metis order_le_less)
      then show ?thesis using IH(1) lt m "1.prems" step by simp
    next
      case gt
      then have "\<forall>k. 0 \<le> k \<and> k < m + 1 \<longrightarrow> f k > 0" using asc [of _ m] m
        by (metis order_le_less zless_add1_eq)
      moreover have "bsearch_loop f sz l h i c = bsearch_loop f sz (m + 1) h m (f m)" using step gt by simp
      ultimately show ?thesis using IH(2) gt m "1.prems" by simp
    qed
  qed
qed

lemma first_match_least:
  assumes "0 \<le> i" "f i = 0" "ascending_signs f n" "i < n"
  shows "0 \<le> first_match f i \<and> first_match f i < n \<and> f (first_match f i) = 0 \<and>
    (\<forall>k. 0 \<le> k \<and> k < first_match f i \<longrightarrow> f k \<noteq> 0)"
  using assms
proof (induction f i rule: first_match.induct)
  case (1 f i)
  note asc = "1.prems"(3) [unfolded ascending_signs_def, rule_format]
  show ?case
  proof (cases "i > 0 \<and> f (i - 1) = 0")
    case True
    with 1 show ?thesis by (simp add: first_match.simps [of f i])
  next
    case False
    have "f k \<noteq> 0" if k: "0 \<le> k" "k < i" for k
    proof -
      have "f (i - 1) \<noteq> 0" using False k by auto
      moreover have "\<not> f (i - 1) < 0" using asc [of "i - 1" i] "1.prems" k by auto
      ultimately have "f (i - 1) > 0" by simp
      then show ?thesis using asc [of k "i - 1"] "1.prems" k by (cases "k = i - 1") auto
    qed
    moreover have "first_match f i = i" using False by (subst first_match.simps) auto
    ultimately show ?thesis using "1.prems" by simp
  qed
qed

lemma OBJ_bsearch_first:
  assumes "ascending_signs f n" "0 < n" "0 < sz" "(n - 1) * sz \<le> INT_MAX" "2 * n \<le> INT_MAX"
  shows "\<exists>r. OBJ_bsearch_ex f n sz OBJ_BSEARCH_FIRST_VALUE_ON_MATCH = Some r \<and>
   (case r of
     None \<Rightarrow> \<forall>k. 0 \<le> k \<and> k < n \<longrightarrow> f k \<noteq> 0
   | Some i \<Rightarrow> 0 \<le> i \<and> i < n \<and> f i = 0 \<and> (\<forall>k. 0 \<le> k \<and> k < i \<longrightarrow> f k \<noteq> 0))"
proof -
  obtain i c where b: "bsearch_loop f sz 0 n 0 0 = Some (i, c)"
    and *: "if c = 0 then 0 \<le> i \<and> i < n \<and> f i = 0 else (\<forall>k. 0 \<le> k \<and> k < n \<longrightarrow> f k \<noteq> 0)"
    using bsearch_loop_correct [OF assms(1), of 0 n sz 0 0] assms by auto
  from b * assms first_match_least [of i f n] show ?thesis
    by (simp add: OBJ_bsearch_ex_def has_flag_def OBJ_BSEARCH_VALUE_ON_NOMATCH_def
        OBJ_BSEARCH_FIRST_VALUE_ON_MATCH_def split: if_splits)
qed

lemma ascending_signs_sorted:
  assumes c: "comparator cmp" and s: "sorted_wrt (\<lambda>x y. cmp x y \<le> 0) xs"
  shows "ascending_signs (\<lambda>i. cmp d (xs ! nat i)) (int (length xs))"
proof -
  have "(cmp d (xs ! nat i) < 0 \<longrightarrow> cmp d (xs ! nat j) < 0) \<and>
        (cmp d (xs ! nat j) > 0 \<longrightarrow> cmp d (xs ! nat i) > 0)"
    if ij: "0 \<le> i" "i < j" "j < int (length xs)" for i j
  proof -
    have le: "cmp (xs ! nat i) (xs ! nat j) \<le> 0"
      using s ij by (auto simp: sorted_wrt_iff_nth_less)
    show ?thesis
      using comparator_trans [OF c le, of d] comparator_trans [OF c _ le, of d]
        comparator_flip [OF c, of d] by (metis linorder_not_less order_less_imp_le)
  qed
  then show ?thesis unfolding ascending_signs_def by blast
qed
section \<open>Every operation keeps the array well-formed\<close>

text \<open>The \<^verbatim>\<open>sorted\<close> flag is set only on an array in ascending order of its comparison function.\<close>

definition sk_ok :: "('a, 'c) cmpf \<Rightarrow> ('a, 'c) stack_st \<Rightarrow> bool" where
  "sk_ok cmpf s \<longleftrightarrow> sk_inv s \<and>
     (sorted s \<longrightarrow> (case comp s of None \<Rightarrow> False
        | Some c \<Rightarrow> sorted_wrt (\<lambda>x y. cmpf c x y \<le> 0) (used_cells s)))"

lemma sk_okD: "sk_ok cmpf s \<Longrightarrow> sk_inv s"
  by (simp add: sk_ok_def)


lemma sk_ok_unsorted: "sk_inv s \<Longrightarrow> \<not> sorted s \<Longrightarrow> sk_ok cmpf s"
  by (simp add: sk_ok_def)


lemma sort_cells_ok:
  assumes "sk_inv s" "num s \<noteq> 0" "comp s = Some c" "comparator (cmpf c)"
  shows "sk_ok cmpf (sort_cells (cmpf c) s)" "comp (sort_cells (cmpf c) s) = Some c"
    "num (sort_cells (cmpf c) s) = num s"
    "mset (used_cells (sort_cells (cmpf c) s)) = mset (used_cells s)"
proof -
  from assms obtain cells where d: "data s = Some cells" "nat (num s) \<le> length cells"
    by (auto simp: sk_inv_def split: option.splits)
  define xs where "xs = take (nat (num s)) cells"
  have u: "used_cells s = xs" "length xs = nat (num s)" using d by (auto simp: used_cells_def xs_def)
  define s' where "s' = sort_cells (cmpf c) s"
  have s': "num s' = num s" "comp s' = Some c" "num_alloc s' = num_alloc s" "sorted s'"
    "data s' = Some ((if num s > 1 then qsort (cmpf c) xs else xs) @ drop (nat (num s)) cells)"
    using d assms unfolding s'_def by (auto simp: sort_cells_def Let_def xs_def)
  have u': "used_cells s' = (if num s > 1 then qsort (cmpf c) xs else xs)"
    using s' u by (auto simp: used_cells_def)
  have "sorted_wrt (\<lambda>x y. cmpf c x y \<le> 0) (used_cells s')"
  proof (cases "num s > 1")
    case True
    then show ?thesis using u' sorted_qsort [OF assms(4)] by simp
  next
    case False
    then have "length xs \<le> 1" using u by simp
    then show ?thesis using u' False by (cases xs) auto
  qed
  moreover have "sk_inv s'" using assms d s' u by (auto simp: sk_inv_def)
  ultimately show "sk_ok cmpf (sort_cells (cmpf c) s)" "comp (sort_cells (cmpf c) s) = Some c"
    "num (sort_cells (cmpf c) s) = num s"
    "mset (used_cells (sort_cells (cmpf c) s)) = mset (used_cells s)"
    using s' u u' by (auto simp: sk_ok_def s'_def)
qed














section \<open>Properties\<close>

text \<open>
  The growth loop \<^verbatim>\<open>compute_growth\<close>, called with a current size of at least 2 and a target
  within the hard limit, returns; its result covers the target, never exceeds
  \<^verbatim>\<open>max_nodes\<close> (so no size computation overflows \<^verbatim>\<open>int\<close>), and overshoots the target by less than
  half unless it is the hard limit itself.
\<close>

theorem sk_growth_bounded:
  assumes "2 \<le> current" "current \<le> max_nodes" "target \<le> max_nodes"
  shows "\<exists>r. compute_growth target current = Some r \<and> target \<le> r \<and> current \<le> r \<and> r \<le> max_nodes
    \<and> (r = current \<or> 2 * r \<le> 3 * (target - 1) \<or> r = max_nodes)"
  by (rule compute_growth_returns [OF assms])

theorem sk_growth_bounded_witness:
  "\<exists>r. compute_growth 100 4 = Some r \<and> 100 \<le> r \<and> 4 \<le> r \<and> r \<le> max_nodes
    \<and> (r = 4 \<or> 2 * r \<le> 3 * (100 - 1) \<or> r = max_nodes)"
  by (rule sk_growth_bounded) simp_all


text \<open>A comparison function for the witnesses: NULL first, then by value.\<close>

definition int_cmp :: "unit \<Rightarrow> int option \<Rightarrow> int option \<Rightarrow> int" where
  "int_cmp u x y = (case (x, y) of (None, None) \<Rightarrow> 0 | (None, Some _) \<Rightarrow> - 1
     | (Some _, None) \<Rightarrow> 1 | (Some a, Some b) \<Rightarrow> a - b)"

definition all_ok :: "'a heap" where "all_ok = \<lparr>alloc_ok = \<lambda>_. True, fresh = None\<rparr>"

lemma comparator_int_cmp: "comparator (int_cmp c)"
  by (auto simp: comparator_def int_cmp_def split: option.splits)


text \<open>
  C8. Inserting into a well-formed stack always returns, and either fails with the contents
  unchanged (result 0) or returns the new number of elements with the pointer placed at
  \<^verbatim>\<open>loc\<close>, or at the end when \<^verbatim>\<open>loc\<close> is out of range, and every other element kept in order.
\<close>

theorem sk_insert_correct:
  assumes "sk_inv s"
  shows "\<exists>r s'. OPENSSL_sk_insert h (Some s) d loc = Some (r, Some s') \<and> sk_inv s' \<and>
    (r = 0 \<and> used_cells s' = used_cells s \<or>
     r = OPENSSL_sk_num (Some s') \<and> used_cells s' = inserted (used_cells s) loc d)"
proof -
  from sk_insert_returns [OF assms, of h d loc] obtain r s' where
    i: "OPENSSL_sk_insert h (Some s) d loc = Some (r, Some s')" "sk_inv s'"
    and c: "r = 0 \<and> used_cells s' = used_cells s \<or>
      r = num s + 1 \<and> used_cells s' = inserted (used_cells s) loc d" by auto
  from c have "r = 0 \<and> used_cells s' = used_cells s \<or>
      r = num s' \<and> used_cells s' = inserted (used_cells s) loc d"
  proof
    assume r: "r = num s + 1 \<and> used_cells s' = inserted (used_cells s) loc d"
    then have "int (length (used_cells s')) = int (length (used_cells s)) + 1"
      by (auto simp: inserted_def Let_def)
    with r show ?thesis using length_used_cells [OF assms] length_used_cells [OF i(2)] by simp
  qed simp
  with i show ?thesis by (auto simp: OPENSSL_sk_num_def)
qed

theorem sk_insert_correct_witness:
  "\<exists>r s'. OPENSSL_sk_insert all_ok (Some (sk_zeroed (None :: unit option)))
      (Some (1::nat)) 5 = Some (r, Some s') \<and> sk_inv s' \<and>
    (r = 0 \<and> used_cells s' = used_cells (sk_zeroed (None :: unit option) :: (nat, unit) stack_st) \<or>
     r = OPENSSL_sk_num (Some s') \<and>
     used_cells s' = inserted (used_cells (sk_zeroed (None :: unit option))) 5 (Some 1))"
  by (rule sk_insert_correct) (rule sk_inv_zeroed)

text \<open>
  A successful \<^verbatim>\<open>OPENSSL_sk_push\<close> followed by \<^verbatim>\<open>OPENSSL_sk_pop\<close> returns the pushed pointer and
  restores the contents, and likewise \<^verbatim>\<open>OPENSSL_sk_unshift\<close> followed by \<^verbatim>\<open>OPENSSL_sk_shift\<close>.
\<close>

theorem sk_push_pop_roundtrip:
  assumes "sk_inv s"
  shows "(OPENSSL_sk_push h (Some s) d = Some (r, Some s1) \<and> r \<noteq> 0 \<longrightarrow>
      (\<exists>s2. OPENSSL_sk_pop (Some s1) = (d, Some s2) \<and> used_cells s2 = used_cells s)) \<and>
    (OPENSSL_sk_unshift h (Some s) d = Some (r, Some s1) \<and> r \<noteq> 0 \<longrightarrow>
      (\<exists>s2. OPENSSL_sk_shift (Some s1) = (d, Some s2) \<and> used_cells s2 = used_cells s))"
proof (intro conjI impI)
  assume "OPENSSL_sk_push h (Some s) d = Some (r, Some s1) \<and> r \<noteq> 0"
  then have i: "OPENSSL_sk_insert h (Some s) d (num s) = Some (r, Some s1)" "r \<noteq> 0"
    by (simp_all add: OPENSSL_sk_push_def)
  have n: "num s1 = num s + 1"
    using sk_insert_returns [OF assms, of h d "num s"] i assms
      length_used_cells [of s1] length_used_cells [of s] by (auto simp: inserted_def Let_def)
  have "0 \<le> num s" using assms by (simp add: sk_inv_def)
  then obtain s2 where "internal_delete s1 (num s) = (d, s2)" "used_cells s2 = used_cells s"
    using sk.del_ins [OF assms, of h d "num s" r s1] i assms by auto
  with n \<open>0 \<le> num s\<close> show "\<exists>s2. OPENSSL_sk_pop (Some s1) = (d, Some s2) \<and> used_cells s2 = used_cells s"
    by (auto simp: OPENSSL_sk_pop_def)
next
  assume "OPENSSL_sk_unshift h (Some s) d = Some (r, Some s1) \<and> r \<noteq> 0"
  then have i: "OPENSSL_sk_insert h (Some s) d 0 = Some (r, Some s1)" "r \<noteq> 0"
    by (simp_all add: OPENSSL_sk_unshift_def)
  have "num s1 \<noteq> 0"
    using sk_insert_returns [OF assms, of h d 0] i assms length_used_cells [of s1]
    by (auto simp: inserted_def Let_def)
  moreover obtain s2 where "internal_delete s1 0 = (d, s2)" "used_cells s2 = used_cells s"
    using sk.del_ins [OF assms, of h d 0 r s1] i assms by (auto simp: sk_inv_def)
  ultimately show "\<exists>s2. OPENSSL_sk_shift (Some s1) = (d, Some s2) \<and> used_cells s2 = used_cells s"
    by (auto simp: OPENSSL_sk_shift_def)
qed

lemma witness_push:
  "OPENSSL_sk_push all_ok (Some (sk_zeroed (None :: unit option))) (Some (7::nat))
   = Some (1, Some \<lparr>num = 1, data = Some [Some 7, None, None, None], sorted = False,
                     num_alloc = 4, comp = None\<rparr>)"
  by (simp add: OPENSSL_sk_push_def OPENSSL_sk_insert_def sk_reserve_def sk_zeroed_def insert_cells_def all_ok_def
      numeral_eq_Suc)

theorem sk_push_pop_roundtrip_witness:
  "\<exists>s2. OPENSSL_sk_pop (Some \<lparr>num = 1, data = Some [Some (7::nat), None, None, None], sorted = False,
                     num_alloc = 4, comp = (None :: unit option)\<rparr>) = (Some 7, Some s2)
     \<and> used_cells s2 = used_cells (sk_zeroed (None :: unit option) :: (nat, unit) stack_st)"
  by (rule sk_push_pop_roundtrip [OF sk_inv_zeroed, THEN conjunct1, rule_format, OF conjI, OF witness_push])
    simp

lemma ascending_signs_cong:
  assumes "\<And>i. 0 \<le> i \<Longrightarrow> i < n \<Longrightarrow> f i = g i"
  shows "ascending_signs f n = ascending_signs g n"
proof -
  have "0 \<le> i \<and> i < j \<and> j < n \<Longrightarrow> f i = g i \<and> f j = g j" for i j using assms by simp
  then show ?thesis unfolding ascending_signs_def by metis
qed

lemma search_sorted:
  assumes ok: "sk_ok cmpf t" "sorted t" "comp t = Some c" and cmp: "comparator (cmpf c)"
    and n: "num t \<noteq> 0" "(num t - 1) * sizeof_pointer \<le> INT_MAX"
  shows "\<exists>res. OBJ_bsearch_ex (\<lambda>i. cmpf c d (the (data t) ! nat i)) (num t) sizeof_pointer
      OBJ_BSEARCH_FIRST_VALUE_ON_MATCH = Some res \<and>
    (case res of
     None \<Rightarrow> \<forall>x \<in> set (used_cells t). cmpf c d x \<noteq> 0
   | Some r \<Rightarrow> 0 \<le> r \<and> r < num t \<and> cmpf c d (used_cells t ! nat r) = 0 \<and>
       (\<forall>k < nat r. cmpf c d (used_cells t ! k) \<noteq> 0))"
proof -
  let ?f = "\<lambda>i. cmpf c d (the (data t) ! nat i)" and ?g = "\<lambda>i. cmpf c d (used_cells t ! nat i)"
  have len: "int (length (used_cells t)) = num t" "0 < num t"
    using sk_okD [OF ok(1)] n by (auto simp: sk_inv_def)
  have eq: "?f i = ?g i" if "0 \<le> i" "i < num t" for i
    using that len by (auto simp: used_cells_def split: option.splits)
  have "ascending_signs ?g (num t)"
    using ascending_signs_sorted [OF cmp, of "used_cells t" d] ok len by (simp add: sk_ok_def)
  then have "ascending_signs ?f (num t)"
    using ascending_signs_cong [of "num t" ?f ?g] eq by simp
  then obtain res where res: "OBJ_bsearch_ex ?f (num t) sizeof_pointer OBJ_BSEARCH_FIRST_VALUE_ON_MATCH = Some res"
    and found: "case res of None \<Rightarrow> \<forall>k. 0 \<le> k \<and> k < num t \<longrightarrow> ?f k \<noteq> 0
      | Some i \<Rightarrow> 0 \<le> i \<and> i < num t \<and> ?f i = 0 \<and> (\<forall>k. 0 \<le> k \<and> k < i \<longrightarrow> ?f k \<noteq> 0)"
    using OBJ_bsearch_first [of ?f "num t" sizeof_pointer] len(2) n(2) by auto
  show ?thesis
  proof (cases res)
    case None
    with found have all: "\<And>k. 0 \<le> k \<Longrightarrow> k < num t \<Longrightarrow> ?f k \<noteq> 0" by simp
    have "cmpf c d x \<noteq> 0" if "x \<in> set (used_cells t)" for x
    proof -
      from that obtain k where "k < length (used_cells t)" "x = used_cells t ! k"
        by (auto simp: in_set_conv_nth)
      with all [of "int k"] eq [of "int k"] len show ?thesis by simp
    qed
    with None res show ?thesis by simp
  next
    case (Some r)
    with found have fr: "0 \<le> r" "r < num t" "?f r = 0"
      and all: "\<And>k. 0 \<le> k \<Longrightarrow> k < r \<Longrightarrow> ?f k \<noteq> 0" by simp_all
    have "cmpf c d (used_cells t ! k) \<noteq> 0" if "k < nat r" for k
      using all [of "int k"] eq [of "int k"] fr that by auto
    with fr Some res eq [of r] show ?thesis by auto
  qed
qed

text \<open>
  C9. On a well-formed non-empty stack of at most 2^28 elements (the byte offset of the last
  element fits an \<^verbatim>\<open>int\<close>) with a comparison function that is a total preorder, searching for a
  non-NULL pointer computes no overflow, only reorders the elements (into ascending order), and
  returns the index of the first element that compares equal, or -1 exactly when no element
  does.
\<close>

theorem sk_find_correct:
  assumes ok: "sk_ok cmpf s" and c: "comp s = Some c" "comparator (cmpf c)"
    and d: "d \<noteq> None" "num s \<noteq> 0" and fits: "(num s - 1) * sizeof_pointer \<le> INT_MAX"
  shows "\<exists>r s'. OPENSSL_sk_find cmpf (Some s) d = (Some r, Some s') \<and>
    sk_ok cmpf s' \<and> mset (used_cells s') = mset (used_cells s) \<and>
    sorted_wrt (\<lambda>x y. cmpf c x y \<le> 0) (used_cells s') \<and>
    (if r = - 1 then \<forall>x \<in> set (used_cells s). cmpf c d x \<noteq> 0
     else 0 \<le> r \<and> r < num s \<and> cmpf c d (used_cells s' ! nat r) = 0 \<and>
       (\<forall>k < nat r. cmpf c d (used_cells s' ! k) \<noteq> 0))"
proof -
  define t where "t = (if \<not> sorted s then sort_cells (cmpf c) s else s)"
  have t: "sk_ok cmpf t" "sorted t" "comp t = Some c" "num t = num s" "mset (used_cells t) = mset (used_cells s)"
    using sort_cells_ok [OF sk_okD [OF ok] d(2) c(1), of cmpf] ok c
    by (auto simp: t_def sort_cells_def Let_def)
  have n: "num t \<noteq> 0" "(num t - 1) * sizeof_pointer \<le> INT_MAX" using t(4) d fits by simp_all
  obtain res where res: "OBJ_bsearch_ex (\<lambda>i. cmpf c d (the (data t) ! nat i)) (num t) sizeof_pointer
      OBJ_BSEARCH_FIRST_VALUE_ON_MATCH = Some res"
    and found: "case res of None \<Rightarrow> \<forall>x \<in> set (used_cells t). cmpf c d x \<noteq> 0
      | Some r \<Rightarrow> 0 \<le> r \<and> r < num t \<and> cmpf c d (used_cells t ! nat r) = 0 \<and>
          (\<forall>k < nat r. cmpf c d (used_cells t ! k) \<noteq> 0)"
    using search_sorted [OF t(1-3) c(2) n, of d] by blast
  have find: "OPENSSL_sk_find cmpf (Some s) d = (Some (case res of None \<Rightarrow> - 1 | Some i \<Rightarrow> i), Some t)"
    using d c res by (auto simp: OPENSSL_sk_find_def internal_find_def Let_def t_def [symmetric])
  have set_eq: "set (used_cells s) = set (used_cells t)" using t(5) by (metis set_mset_mset)
  have srt: "sorted_wrt (\<lambda>x y. cmpf c x y \<le> 0) (used_cells t)" using t by (simp add: sk_ok_def)
  show ?thesis unfolding find using found t set_eq srt by (auto split: option.splits)
qed

theorem sk_find_correct_witness:
  "\<exists>r s'. OPENSSL_sk_find int_cmp (Some \<lparr>num = 2, data = Some [Some 5, Some 3, None, None],
       sorted = False, num_alloc = 4, comp = Some ()\<rparr>) (Some 3) = (Some r, Some s') \<and>
     mset (used_cells s') = {#Some 5, Some 3#} \<and>
     r \<noteq> - 1 \<and> int_cmp () (Some 3) (used_cells s' ! nat r) = 0"
proof -
  let ?s = "\<lparr>num = 2, data = Some [Some 5, Some 3, None, None],
       sorted = False, num_alloc = 4, comp = Some ()\<rparr>"
  have ok: "sk_ok int_cmp ?s" by (rule sk_ok_unsorted) (simp_all add: sk_inv_def)
  have set: "set (used_cells ?s) = {Some 5, Some 3}" "mset (used_cells ?s) = {#Some 5, Some 3#}"
    by (simp_all add: used_cells_def)
  have hit: "int_cmp () (Some 3) (Some 3) = 0" by (simp add: int_cmp_def)
  from sk_find_correct [OF ok _ comparator_int_cmp, of "()" "Some 3"]
  show ?thesis unfolding set using hit by (auto split: if_splits)
qed

text \<open>
  The bound of the previous property is needed: the stack admits up to INT_MAX elements, and
  on every well-formed stack with a comparison function and at least 2^29 elements a search for a
  non-NULL pointer overflows \<^verbatim>\<open>int\<close> in the first step of the binary search, whatever the
  elements and the comparison function are.
\<close>

lemma sk_find_overflows:
  assumes inv: "sk_inv s" and c: "comp s = Some c" and d: "d \<noteq> None"
    and big: "num s \<ge> 2 ^ 29"
  shows "fst (OPENSSL_sk_find cmpf (Some s) d) = None"
proof -
  let ?t = "if \<not> sorted s then sort_cells (cmpf c) s else s"
  have t: "num ?t = num s" by (simp add: sort_cells_def Let_def)
  have "bsearch_loop f sizeof_pointer 0 (num s) 0 0 = None" for f
  proof -
    have "0 < num s" "num s div 2 \<ge> 2 ^ 28" using big by auto
    moreover have "num s \<le> INT_MAX" using inv by (simp add: sk_inv_def)
    ultimately show ?thesis by (simp add: bsearch_loop.simps [of f _ 0 "num s"] Let_def)
  qed
  then have "OBJ_bsearch_ex f (num ?t) sizeof_pointer fl = None" for f fl
    using big unfolding t by (simp add: OBJ_bsearch_ex_def)
  then show ?thesis using c d big by (simp add: OPENSSL_sk_find_def internal_find_def Let_def)
qed

end
