(* ===== verification/Statem_Types.thy ===== *)
theory Statem_Types
  imports Prelude
begin

text \<open>
  The data the TLS/DTLS handshake state machine works on (\<^verbatim>\<open>ssl/statem/statem.h\<close>,
  \<^verbatim>\<open>ssl/ssl_local.h\<close>, \<^verbatim>\<open>include/openssl/ssl.h\<close>), the functions of \<^verbatim>\<open>ssl/statem/statem.c\<close> that read
  and set it outside the message loops, and the helpers of \<^verbatim>\<open>statem_lib.c\<close>, \<^verbatim>\<open>s3_lib.c\<close> and
  \<^verbatim>\<open>s3_enc.c\<close> that the transition functions call. Pointers that are only compared with
  \<^verbatim>\<open>NULL\<close> are booleans, \<open>init_msg\<close> is the offset of that pointer in its buffer. Results of libcrypto calls (a new memory BIO, copying a digest context)
  and of the version configuration are fields of an environment \<open>statem_env\<close>. The
  configuration in \<^verbatim>\<open>include/openssl/opensslconf.h\<close> leaves SCTP out and NPN, PSK and SRP in.
\<close>

section \<open>Enumerations and constants\<close>

datatype OSSL_HANDSHAKE_STATE =
    TLS_ST_BEFORE | TLS_ST_OK | DTLS_ST_CR_HELLO_VERIFY_REQUEST | TLS_ST_CR_SRVR_HELLO
  | TLS_ST_CR_CERT | TLS_ST_CR_CERT_STATUS | TLS_ST_CR_KEY_EXCH | TLS_ST_CR_CERT_REQ
  | TLS_ST_CR_SRVR_DONE | TLS_ST_CR_SESSION_TICKET | TLS_ST_CR_CHANGE | TLS_ST_CR_FINISHED
  | TLS_ST_CW_CLNT_HELLO | TLS_ST_CW_CERT | TLS_ST_CW_KEY_EXCH | TLS_ST_CW_CERT_VRFY
  | TLS_ST_CW_CHANGE | TLS_ST_CW_NEXT_PROTO | TLS_ST_CW_FINISHED | TLS_ST_SW_HELLO_REQ
  | TLS_ST_SR_CLNT_HELLO | DTLS_ST_SW_HELLO_VERIFY_REQUEST | TLS_ST_SW_SRVR_HELLO
  | TLS_ST_SW_CERT | TLS_ST_SW_KEY_EXCH | TLS_ST_SW_CERT_REQ | TLS_ST_SW_SRVR_DONE
  | TLS_ST_SR_CERT | TLS_ST_SR_KEY_EXCH | TLS_ST_SR_CERT_VRFY | TLS_ST_SR_NEXT_PROTO
  | TLS_ST_SR_CHANGE | TLS_ST_SR_FINISHED | TLS_ST_SW_SESSION_TICKET | TLS_ST_SW_CERT_STATUS
  | TLS_ST_SW_CHANGE | TLS_ST_SW_FINISHED | TLS_ST_SW_ENCRYPTED_EXTENSIONS
  | TLS_ST_CR_ENCRYPTED_EXTENSIONS | TLS_ST_CR_CERT_VRFY | TLS_ST_SW_CERT_VRFY
  | TLS_ST_CR_HELLO_REQ | TLS_ST_SW_KEY_UPDATE | TLS_ST_CW_KEY_UPDATE | TLS_ST_SR_KEY_UPDATE
  | TLS_ST_CR_KEY_UPDATE | TLS_ST_EARLY_DATA | TLS_ST_PENDING_EARLY_DATA_END
  | TLS_ST_CW_END_OF_EARLY_DATA | TLS_ST_SR_END_OF_EARLY_DATA

datatype WORK_STATE =
    WORK_ERROR | WORK_FINISHED_STOP | WORK_FINISHED_CONTINUE | WORK_MORE_A | WORK_MORE_B | WORK_MORE_C

datatype WRITE_TRAN = WRITE_TRAN_ERROR | WRITE_TRAN_CONTINUE | WRITE_TRAN_FINISHED

datatype MSG_FLOW_STATE =
    MSG_FLOW_UNINITED | MSG_FLOW_ERROR | MSG_FLOW_READING | MSG_FLOW_WRITING | MSG_FLOW_FINISHED

datatype READ_STATE = READ_STATE_HEADER | READ_STATE_BODY | READ_STATE_POST_PROCESS

datatype WRITE_STATE =
    WRITE_STATE_TRANSITION | WRITE_STATE_PRE_WORK | WRITE_STATE_SEND | WRITE_STATE_POST_WORK

datatype ENC_WRITE_STATES =
    ENC_WRITE_STATE_VALID | ENC_WRITE_STATE_INVALID | ENC_WRITE_STATE_WRITE_PLAIN_ALERTS

datatype ENC_READ_STATES = ENC_READ_STATE_VALID | ENC_READ_STATE_ALLOW_PLAIN_ALERTS

datatype SSL_EARLY_DATA_STATE =
    SSL_EARLY_DATA_NONE | SSL_EARLY_DATA_CONNECT_RETRY | SSL_EARLY_DATA_CONNECTING
  | SSL_EARLY_DATA_WRITE_RETRY | SSL_EARLY_DATA_WRITING | SSL_EARLY_DATA_WRITE_FLUSH
  | SSL_EARLY_DATA_UNAUTH_WRITING | SSL_EARLY_DATA_FINISHED_WRITING | SSL_EARLY_DATA_ACCEPT_RETRY
  | SSL_EARLY_DATA_ACCEPTING | SSL_EARLY_DATA_READ_RETRY | SSL_EARLY_DATA_READING
  | SSL_EARLY_DATA_FINISHED_READING

datatype SSL_PHA_STATE =
    SSL_PHA_NONE | SSL_PHA_EXT_SENT | SSL_PHA_EXT_RECEIVED | SSL_PHA_REQUEST_PENDING | SSL_PHA_REQUESTED

datatype SSL_HRR = SSL_HRR_NONE | SSL_HRR_PENDING | SSL_HRR_COMPLETE

datatype RWSTATE = SSL_NOTHING | SSL_WRITING | SSL_READING

datatype HANDSHAKE_FUNC = no_handshake_func | handshake_connect | handshake_accept

datatype ALERT =
    SSL_AD_NO_ALERT | SSL_AD_UNEXPECTED_MESSAGE | SSL_AD_HANDSHAKE_FAILURE | SSL_AD_INTERNAL_ERROR
  | SSL_AD_ILLEGAL_PARAMETER

datatype REASON =
    SSL_R_UNEXPECTED_MESSAGE | ERR_R_INTERNAL_ERROR | SSL_R_PEER_DID_NOT_RETURN_A_CERTIFICATE
  | ERR_R_MALLOC_FAILURE | SSL_R_NO_CIPHERS_AVAILABLE | SSL_R_BAD_HANDSHAKE_STATE
  | SSL_R_EXCESSIVE_MESSAGE_SIZE | SSL_R_MISSING_FATAL | ERR_R_BUF_LIB
  | ERR_R_SHOULD_NOT_HAVE_BEEN_CALLED

text \<open>The message construction functions the write side chooses from; \<open>no_confunc\<close> is \<^verbatim>\<open>NULL\<close>.\<close>

datatype confunc =
    no_confunc | dtls_construct_change_cipher_spec | tls_construct_change_cipher_spec
  | tls_construct_client_hello | tls_construct_end_of_early_data | tls_construct_client_certificate
  | tls_construct_client_key_exchange | tls_construct_cert_verify | tls_construct_next_proto
  | tls_construct_finished | tls_construct_key_update | dtls_construct_hello_verify_request
  | tls_construct_server_hello | tls_construct_server_certificate | tls_construct_server_key_exchange
  | tls_construct_certificate_request | tls_construct_server_done | tls_construct_new_session_ticket
  | tls_construct_cert_status | tls_construct_encrypted_extensions

text \<open>The routines received messages are passed to, and those that complete the processing.\<close>

datatype msg_handler =
    tls_process_server_hello | dtls_process_hello_verify | tls_process_server_certificate
  | tls_process_cert_verify | tls_process_cert_status | tls_process_key_exchange
  | tls_process_certificate_request | tls_process_server_done | tls_process_change_cipher_spec
  | tls_process_new_session_ticket | tls_process_finished | tls_process_hello_req
  | tls_process_encrypted_extensions | tls_process_key_update
  | tls_process_client_hello | tls_process_end_of_early_data | tls_process_client_certificate
  | tls_process_client_key_exchange | tls_process_next_proto | tls_prepare_client_certificate
  | tls_post_process_client_hello | tls_post_process_client_key_exchange

abbreviation "SSL3_VERSION \<equiv> 0x0300 :: int"
abbreviation "TLS1_VERSION \<equiv> 0x0301 :: int"
abbreviation "TLS1_3_VERSION \<equiv> 0x0304 :: int"
abbreviation "TLS_ANY_VERSION \<equiv> 0x10000 :: int"
abbreviation "DTLS1_BAD_VER \<equiv> 0x0100 :: int"
abbreviation "DTLS1_VERSION \<equiv> 0xFEFF :: int"

abbreviation "SSL_ENC_FLAG_DTLS \<equiv> 8 :: u32"
abbreviation "SSL_kDHE \<equiv> 2 :: u32"
abbreviation "SSL_kECDHE \<equiv> 4 :: u32"
abbreviation "SSL_kPSK \<equiv> 8 :: u32"
abbreviation "SSL_kSRP \<equiv> 0x20 :: u32"
abbreviation "SSL_kRSAPSK \<equiv> 0x40 :: u32"
abbreviation "SSL_kECDHEPSK \<equiv> 0x80 :: u32"
abbreviation "SSL_kDHEPSK \<equiv> 0x100 :: u32"
abbreviation "SSL_PSK \<equiv> SSL_kPSK OR SSL_kRSAPSK OR SSL_kECDHEPSK OR SSL_kDHEPSK"
abbreviation "SSL_aNULL \<equiv> 4 :: u32"
abbreviation "SSL_aPSK \<equiv> 0x10 :: u32"
abbreviation "SSL_aSRP \<equiv> 0x40 :: u32"
abbreviation "SSL_VERIFY_PEER \<equiv> 1 :: u32"
abbreviation "SSL_VERIFY_FAIL_IF_NO_PEER_CERT \<equiv> 2 :: u32"
abbreviation "SSL_VERIFY_CLIENT_ONCE \<equiv> 4 :: u32"
abbreviation "SSL_VERIFY_POST_HANDSHAKE \<equiv> 8 :: u32"
abbreviation "SSL_OP_COOKIE_EXCHANGE \<equiv> 0x2000 :: u32"
abbreviation "SSL_OP_ENABLE_MIDDLEBOX_COMPAT \<equiv> 0x100000 :: u32"
abbreviation "SSL_SENT_SHUTDOWN \<equiv> 1 :: u32"
abbreviation "TLS1_FLAGS_SKIP_CERT_VERIFY \<equiv> 0x10 :: u32"
abbreviation "SSL_KEY_UPDATE_NONE \<equiv> - 1 :: int"
abbreviation "SSL_EARLY_DATA_NOT_SENT \<equiv> 0 :: int"
abbreviation "SSL_EARLY_DATA_REJECTED \<equiv> 1 :: int"
abbreviation "SSL_EARLY_DATA_ACCEPTED \<equiv> 2 :: int"

abbreviation "SSL3_MT_HELLO_REQUEST \<equiv> 0 :: int"
abbreviation "SSL3_MT_CLIENT_HELLO \<equiv> 1 :: int"
abbreviation "SSL3_MT_SERVER_HELLO \<equiv> 2 :: int"
abbreviation "DTLS1_MT_HELLO_VERIFY_REQUEST \<equiv> 3 :: int"
abbreviation "SSL3_MT_NEWSESSION_TICKET \<equiv> 4 :: int"
abbreviation "SSL3_MT_END_OF_EARLY_DATA \<equiv> 5 :: int"
abbreviation "SSL3_MT_ENCRYPTED_EXTENSIONS \<equiv> 8 :: int"
abbreviation "SSL3_MT_CERTIFICATE \<equiv> 11 :: int"
abbreviation "SSL3_MT_SERVER_KEY_EXCHANGE \<equiv> 12 :: int"
abbreviation "SSL3_MT_CERTIFICATE_REQUEST \<equiv> 13 :: int"
abbreviation "SSL3_MT_SERVER_DONE \<equiv> 14 :: int"
abbreviation "SSL3_MT_CERTIFICATE_VERIFY \<equiv> 15 :: int"
abbreviation "SSL3_MT_CLIENT_KEY_EXCHANGE \<equiv> 16 :: int"
abbreviation "SSL3_MT_FINISHED \<equiv> 20 :: int"
abbreviation "SSL3_MT_CERTIFICATE_STATUS \<equiv> 22 :: int"
abbreviation "SSL3_MT_KEY_UPDATE \<equiv> 24 :: int"
abbreviation "SSL3_MT_NEXT_PROTO \<equiv> 67 :: int"
abbreviation "SSL3_MT_CHANGE_CIPHER_SPEC \<equiv> 0x0101 :: int"
abbreviation "SSL3_MT_DUMMY \<equiv> - 1 :: int"

section \<open>The connection\<close>

record OSSL_STATEM =
  state :: MSG_FLOW_STATE
  write_state :: WRITE_STATE
  write_state_work :: WORK_STATE
  read_state :: READ_STATE
  read_state_work :: WORK_STATE
  hand_state :: OSSL_HANDSHAKE_STATE
  request_state :: OSSL_HANDSHAKE_STATE
  in_init :: bool
  read_state_first_init :: bool
  in_handshake :: int
  no_cert_verify :: bool
  use_timer :: bool
  enc_write_state :: ENC_WRITE_STATES
  enc_read_state :: ENC_READ_STATES
  cleanuphand :: bool

record SSL_CIPHER =
  cipher_id :: u32
  algorithm_mkey :: u32
  algorithm_auth :: u32
  min_tls :: int
  max_tls :: int
  min_dtls :: int
  max_dtls :: int

record S3_STATE =
  flags :: u32
  s3_renegotiate :: bool
  num_renegotiations :: nat
  total_renegotiations :: nat
  in_read_app_data :: bool
  npn_seen :: bool
  previous_server_finished_len :: nat
  client_random :: bytes
  handshake_buffer :: bytes
  handshake_dgst :: "bytes option"
  new_cipher :: SSL_CIPHER
  cert_req :: int
  cert_request :: bool
  finish_md_len :: nat
  peer_finish_md_len :: nat
  message_size :: nat
  change_cipher_spec :: bool
  new_compression :: "int option"

record SSL_EXT =
  extflags :: "u8 list"
  ticket_expected :: bool
  status_expected :: bool
  early_data :: int
  session_secret_cb :: bool

record SSL_STATS =
  sess_accept :: nat
  sess_accept_renegotiate :: nat
  sess_connect :: nat
  sess_connect_renegotiate :: nat
  sess_accept_good :: nat
  sess_connect_good :: nat
  sess_hit :: nat

record DTLS1_STATE =
  handshake_write_seq :: u16
  next_handshake_write_seq :: u16
  handshake_read_seq :: u16

record SSL =
  statem :: OSSL_STATEM
  s3 :: S3_STATE
  ext :: SSL_EXT
  stats :: SSL_STATS
  version :: int
  method_version :: int
  enc_flags :: u32
  server :: bool
  hit :: bool
  shutdown :: u32
  early_data_state :: SSL_EARLY_DATA_STATE
  hello_retry_request :: SSL_HRR
  post_handshake_auth :: SSL_PHA_STATE
  key_update :: int
  options :: u32
  verify_mode :: u32
  certreqs_sent :: int
  num_tickets :: nat
  sent_tickets :: nat
  renegotiate :: bool
  init_num :: nat
  rwstate :: RWSTATE
  rbio_retry_read :: bool
  rlayer_read_pending :: bool
  rlayer_write_pending :: bool
  max_cert_list :: nat
  psk_identity_hint :: bool
  session_peer :: bool
  session_ext_tick :: bool
  cookie_verified :: bool
  pha_dgst :: "bytes option"
  ciphers :: "SSL_CIPHER list"
  d1 :: DTLS1_STATE
  handshake_func :: HANDSHAKE_FUNC
  first_packet :: bool
  init_buf :: bool
  init_msg :: nat
  enc_write_ctx :: bool
  max_early_data :: nat
  new_session :: bool
  session_cipher :: "SSL_CIPHER option"
  session_compress_meth :: int
  session_cache_mode :: u32
  alerts_sent :: "ALERT list"
  errors :: "REASON list"

record statem_env =
  bio_new_ok :: bool
  md_ctx_copy_ok :: bool
  min_max_version :: "(int \<times> int) option"

abbreviation hs :: "SSL \<Rightarrow> OSSL_HANDSHAKE_STATE" where
  "hs s \<equiv> hand_state (statem s)"

definition set_hs :: "OSSL_HANDSHAKE_STATE \<Rightarrow> SSL \<Rightarrow> SSL" where
  "set_hs h s = s\<lparr>statem := (statem s)\<lparr>hand_state := h\<rparr>\<rparr>"

definition SSL_IS_DTLS :: "SSL \<Rightarrow> bool" where
  "SSL_IS_DTLS s = has_flag (enc_flags s) SSL_ENC_FLAG_DTLS"

definition SSL_IS_TLS13 :: "SSL \<Rightarrow> bool" where
  "SSL_IS_TLS13 s \<longleftrightarrow>
     \<not> SSL_IS_DTLS s \<and> method_version s \<ge> TLS1_3_VERSION \<and> method_version s \<noteq> TLS_ANY_VERSION"

definition SSL_IS_FIRST_HANDSHAKE :: "SSL \<Rightarrow> bool" where
  "SSL_IS_FIRST_HANDSHAKE s \<longleftrightarrow> finish_md_len (s3 s) = 0 \<or> peer_finish_md_len (s3 s) = 0"

section \<open>State machine accessors\<close>

definition SSL_get_state :: "SSL \<Rightarrow> OSSL_HANDSHAKE_STATE" where
  "SSL_get_state s = hs s"

definition SSL_in_init :: "SSL \<Rightarrow> bool" where
  "SSL_in_init s = in_init (statem s)"

definition SSL_is_init_finished :: "SSL \<Rightarrow> bool" where
  "SSL_is_init_finished s \<longleftrightarrow> \<not> in_init (statem s) \<and> hs s = TLS_ST_OK"

definition SSL_in_before :: "SSL \<Rightarrow> bool" where
  "SSL_in_before s \<longleftrightarrow> hs s = TLS_ST_BEFORE \<and> state (statem s) = MSG_FLOW_UNINITED"

definition ossl_statem_clear :: "SSL \<Rightarrow> SSL" where
  "ossl_statem_clear s = s\<lparr>statem := (statem s)\<lparr>state := MSG_FLOW_UNINITED, hand_state := TLS_ST_BEFORE,
     in_init := True, no_cert_verify := False\<rparr>\<rparr>"

definition ossl_statem_set_renegotiate :: "SSL \<Rightarrow> SSL" where
  "ossl_statem_set_renegotiate s =
     s\<lparr>statem := (statem s)\<lparr>in_init := True, request_state := TLS_ST_SW_HELLO_REQ\<rparr>\<rparr>"

text \<open>\<^verbatim>\<open>SSLfatal\<close>: the error is queued, the machine enters \<^verbatim>\<open>MSG_FLOW_ERROR\<close>, and an alert goes
  out unless one was sent before, none is wanted or the write side cannot be used.\<close>

definition ossl_statem_fatal :: "SSL \<Rightarrow> ALERT \<Rightarrow> REASON \<Rightarrow> SSL" where
  "ossl_statem_fatal s al reason =
     (let s = s\<lparr>errors := errors s @ [reason]\<rparr> in
      if in_init (statem s) \<and> state (statem s) = MSG_FLOW_ERROR then s
      else let s = s\<lparr>statem := (statem s)\<lparr>in_init := True, state := MSG_FLOW_ERROR\<rparr>\<rparr> in
        if al \<noteq> SSL_AD_NO_ALERT \<and> enc_write_state (statem s) \<noteq> ENC_WRITE_STATE_INVALID
        then s\<lparr>alerts_sent := alerts_sent s @ [al]\<rparr> else s)"

definition check_fatal :: "SSL \<Rightarrow> SSL" where
  "check_fatal s =
     (if \<not> (in_init (statem s) \<and> state (statem s) = MSG_FLOW_ERROR)
      then ossl_statem_fatal s SSL_AD_INTERNAL_ERROR SSL_R_MISSING_FATAL else s)"

definition ossl_statem_in_error :: "SSL \<Rightarrow> bool" where
  "ossl_statem_in_error s \<longleftrightarrow> state (statem s) = MSG_FLOW_ERROR"

definition ossl_statem_set_in_init :: "SSL \<Rightarrow> bool \<Rightarrow> SSL" where
  "ossl_statem_set_in_init s init = s\<lparr>statem := (statem s)\<lparr>in_init := init\<rparr>\<rparr>"

definition ossl_statem_get_in_handshake :: "SSL \<Rightarrow> int" where
  "ossl_statem_get_in_handshake s = in_handshake (statem s)"

definition ossl_statem_set_in_handshake :: "SSL \<Rightarrow> bool \<Rightarrow> SSL" where
  "ossl_statem_set_in_handshake s inhand =
     s\<lparr>statem := (statem s)\<lparr>in_handshake := in_handshake (statem s) + (if inhand then 1 else - 1)\<rparr>\<rparr>"

definition ossl_statem_skip_early_data :: "SSL \<Rightarrow> bool" where
  "ossl_statem_skip_early_data s =
     (if early_data (ext s) \<noteq> SSL_EARLY_DATA_REJECTED then False
      else if \<not> server s \<or> hs s \<noteq> TLS_ST_EARLY_DATA \<or> hello_retry_request s = SSL_HRR_COMPLETE then False
      else True)"

definition ossl_statem_check_finish_init :: "SSL \<Rightarrow> int \<Rightarrow> SSL" where
  "ossl_statem_check_finish_init s sending =
     (if sending = - 1 then
        (if hs s = TLS_ST_PENDING_EARLY_DATA_END \<or> hs s = TLS_ST_EARLY_DATA then
           let s = ossl_statem_set_in_init s True in
           (if early_data_state s = SSL_EARLY_DATA_WRITE_RETRY
            then s\<lparr>early_data_state := SSL_EARLY_DATA_FINISHED_WRITING\<rparr> else s)
         else s)
      else if \<not> server s then
        (if sending \<noteq> 0 \<and> (hs s = TLS_ST_PENDING_EARLY_DATA_END \<or> hs s = TLS_ST_EARLY_DATA)
              \<and> early_data_state s \<noteq> SSL_EARLY_DATA_WRITING
            \<or> sending = 0 \<and> hs s = TLS_ST_EARLY_DATA then
           let s = ossl_statem_set_in_init s True in
           (if sending \<noteq> 0 \<and> early_data_state s = SSL_EARLY_DATA_WRITE_RETRY
            then s\<lparr>early_data_state := SSL_EARLY_DATA_FINISHED_WRITING\<rparr> else s)
         else s)
      else
        (if early_data_state s = SSL_EARLY_DATA_FINISHED_READING \<and> hs s = TLS_ST_EARLY_DATA
         then ossl_statem_set_in_init s True else s))"

definition ossl_statem_set_hello_verify_done :: "SSL \<Rightarrow> SSL" where
  "ossl_statem_set_hello_verify_done s = s\<lparr>statem := (statem s)\<lparr>state := MSG_FLOW_UNINITED,
     in_init := True, hand_state := TLS_ST_SR_CLNT_HELLO\<rparr>\<rparr>"

definition ossl_statem_app_data_allowed :: "SSL \<Rightarrow> bool" where
  "ossl_statem_app_data_allowed s =
     (if state (statem s) = MSG_FLOW_UNINITED then False
      else if \<not> in_read_app_data (s3 s) \<or> total_renegotiations (s3 s) = 0 then False
      else if server s then hs s = TLS_ST_BEFORE \<or> hs s = TLS_ST_SR_CLNT_HELLO
      else hs s = TLS_ST_CW_CLNT_HELLO)"

definition ossl_statem_export_allowed :: "SSL \<Rightarrow> bool" where
  "ossl_statem_export_allowed s \<longleftrightarrow>
     previous_server_finished_len (s3 s) \<noteq> 0 \<and> hs s \<noteq> TLS_ST_SW_FINISHED"

definition ossl_statem_export_early_allowed :: "SSL \<Rightarrow> bool" where
  "ossl_statem_export_early_allowed s \<longleftrightarrow>
     early_data (ext s) = SSL_EARLY_DATA_ACCEPTED
     \<or> \<not> server s \<and> early_data (ext s) \<noteq> SSL_EARLY_DATA_NOT_SENT"

section \<open>Helpers of the transition functions\<close>

definition ssl3_init_finished_mac :: "statem_env \<Rightarrow> SSL \<Rightarrow> bool \<times> SSL" where
  "ssl3_init_finished_mac e s =
     (if \<not> bio_new_ok e then (False, ossl_statem_fatal s SSL_AD_INTERNAL_ERROR ERR_R_MALLOC_FAILURE)
      else (True, s\<lparr>s3 := (s3 s)\<lparr>handshake_dgst := None, handshake_buffer := []\<rparr>\<rparr>))"

definition dtls_ver_ordinal :: "int \<Rightarrow> int" where
  "dtls_ver_ordinal v = (if v = DTLS1_BAD_VER then 0xff00 else v)"

definition DTLS_VERSION_GE :: "int \<Rightarrow> int \<Rightarrow> bool" where
  "DTLS_VERSION_GE v1 v2 \<longleftrightarrow> dtls_ver_ordinal v1 \<le> dtls_ver_ordinal v2"

definition DTLS_VERSION_LE :: "int \<Rightarrow> int \<Rightarrow> bool" where
  "DTLS_VERSION_LE v1 v2 \<longleftrightarrow> dtls_ver_ordinal v1 \<ge> dtls_ver_ordinal v2"

definition cipher_usable :: "SSL \<Rightarrow> int \<Rightarrow> SSL_CIPHER \<Rightarrow> bool" where
  "cipher_usable s ver_max c =
     (if SSL_IS_DTLS s then DTLS_VERSION_GE ver_max (min_dtls c) \<and> DTLS_VERSION_LE ver_max (max_dtls c)
      else ver_max \<ge> min_tls c \<and> ver_max \<le> max_tls c)"

definition tls_setup_handshake :: "statem_env \<Rightarrow> SSL \<Rightarrow> bool \<times> SSL" where
  "tls_setup_handshake e s =
     (case ssl3_init_finished_mac e s of
        (False, s) \<Rightarrow> (False, s)
      | (True, s) \<Rightarrow>
          let s = s\<lparr>ext := (ext s)\<lparr>extflags := map (\<lambda>_. 0) (extflags (ext s))\<rparr>\<rparr> in
          if server s then
            (case min_max_version e of
               None \<Rightarrow> (False, ossl_statem_fatal s SSL_AD_INTERNAL_ERROR ERR_R_INTERNAL_ERROR)
             | Some (_, ver_max) \<Rightarrow>
                 if \<not> list_ex (cipher_usable s ver_max) (ciphers s)
                 then (False, ossl_statem_fatal s SSL_AD_HANDSHAKE_FAILURE SSL_R_NO_CIPHERS_AVAILABLE)
                 else if SSL_IS_FIRST_HANDSHAKE s
                 then (True, s\<lparr>stats := (stats s)\<lparr>sess_accept := sess_accept (stats s) + 1\<rparr>\<rparr>)
                 else (True, s\<lparr>stats := (stats s)\<lparr>sess_accept_renegotiate :=
                                  sess_accept_renegotiate (stats s) + 1\<rparr>,
                               s3 := (s3 s)\<lparr>cert_request := False\<rparr>\<rparr>))
          else
            let s = (if SSL_IS_FIRST_HANDSHAKE s
                     then s\<lparr>stats := (stats s)\<lparr>sess_connect := sess_connect (stats s) + 1\<rparr>\<rparr>
                     else s\<lparr>stats := (stats s)\<lparr>sess_connect_renegotiate :=
                              sess_connect_renegotiate (stats s) + 1\<rparr>\<rparr>);
                s = s\<lparr>s3 := (s3 s)\<lparr>client_random := replicate 32 0, cert_req := 0\<rparr>, hit := False\<rparr> in
            (True, if SSL_IS_DTLS s then s\<lparr>statem := (statem s)\<lparr>use_timer := True\<rparr>\<rparr> else s))"

definition tls13_restore_handshake_digest_for_pha :: "statem_env \<Rightarrow> SSL \<Rightarrow> bool \<times> SSL" where
  "tls13_restore_handshake_digest_for_pha e s =
     (case pha_dgst s of
        None \<Rightarrow> (False, ossl_statem_fatal s SSL_AD_INTERNAL_ERROR ERR_R_INTERNAL_ERROR)
      | Some d \<Rightarrow>
          if \<not> md_ctx_copy_ok e
          then (False, ossl_statem_fatal s SSL_AD_INTERNAL_ERROR ERR_R_INTERNAL_ERROR)
          else (True, s\<lparr>s3 := (s3 s)\<lparr>handshake_dgst := Some d\<rparr>\<rparr>))"

definition ssl3_renegotiate_check :: "SSL \<Rightarrow> bool \<Rightarrow> bool \<times> SSL" where
  "ssl3_renegotiate_check s initok =
     (if s3_renegotiate (s3 s) \<and> \<not> rlayer_read_pending s \<and> \<not> rlayer_write_pending s
         \<and> (initok \<or> \<not> SSL_in_init s)
      then (True, (ossl_statem_set_renegotiate s)\<lparr>s3 := (s3 s)\<lparr>s3_renegotiate := False,
              num_renegotiations := num_renegotiations (s3 s) + 1,
              total_renegotiations := total_renegotiations (s3 s) + 1\<rparr>\<rparr>)
      else (False, s))"

text \<open>What a rejected message leads to: an out-of-order DTLS ChangeCipherSpec is dropped, anything
  else ends the connection.\<close>

definition reject_message :: "SSL \<Rightarrow> int \<Rightarrow> bool \<times> SSL" where
  "reject_message s mt =
     (if SSL_IS_DTLS s \<and> mt = SSL3_MT_CHANGE_CIPHER_SPEC
      then (False, s\<lparr>init_num := 0, rwstate := SSL_READING, rbio_retry_read := True\<rparr>)
      else (False, ossl_statem_fatal s SSL_AD_UNEXPECTED_MESSAGE SSL_R_UNEXPECTED_MESSAGE))"

section \<open>Message flows\<close>

text \<open>
  One side of a connection over time: a message of type \<open>mt\<close> is accepted by the read transition,
  the write transition moves on to the state whose message is sent next (where \<open>may_write\<close>
  holds), or the routines that process and construct messages change other fields of the
  connection, within the limits \<open>work\<close>.
\<close>

datatype flow_event = Read int | Write OSSL_HANDSHAKE_STATE | Work

inductive flow_step ::
  "(SSL \<Rightarrow> int \<Rightarrow> bool \<times> SSL) \<Rightarrow> (SSL \<Rightarrow> WRITE_TRAN \<times> SSL) \<Rightarrow> (SSL \<Rightarrow> bool) \<Rightarrow> (SSL \<Rightarrow> SSL \<Rightarrow> bool)
    \<Rightarrow> SSL \<Rightarrow> flow_event \<Rightarrow> SSL \<Rightarrow> bool"
  for rd wr may_write work where
  flow_read: "rd s mt = (True, t) \<Longrightarrow> flow_step rd wr may_write work s (Read mt) t"
| flow_write: "may_write s \<Longrightarrow> wr s = (WRITE_TRAN_CONTINUE, t) \<Longrightarrow>
    flow_step rd wr may_write work s (Write (hs t)) t"
| flow_work: "work s t \<Longrightarrow> hs t = hs s \<Longrightarrow> flow_step rd wr may_write work s Work t"

inductive_cases flow_stepE: "flow_step rd wr may_write work s ev t"

text \<open>Executing a sequence of reads and writes.\<close>

fun exec_flow ::
  "(SSL \<Rightarrow> int \<Rightarrow> bool \<times> SSL) \<Rightarrow> (SSL \<Rightarrow> WRITE_TRAN \<times> SSL) \<Rightarrow> (SSL \<Rightarrow> bool) \<Rightarrow> SSL \<Rightarrow> flow_event list \<Rightarrow> SSL option" where
  "exec_flow rd wr mw s [] = Some s"
| "exec_flow rd wr mw s (Read mt # es) =
     (case rd s mt of (True, t) \<Rightarrow> exec_flow rd wr mw t es | (False, _) \<Rightarrow> None)"
| "exec_flow rd wr mw s (Write h # es) =
     (case wr s of
        (WRITE_TRAN_CONTINUE, t) \<Rightarrow> if mw s \<and> hs t = h then exec_flow rd wr mw t es else None
      | _ \<Rightarrow> None)"
| "exec_flow rd wr mw s (Work # es) = None"

lemma exec_flow_run: "exec_flow rd wr mw s es = Some t \<Longrightarrow> run (flow_step rd wr mw work) s es t"
proof (induction rd wr mw s es rule: exec_flow.induct)
  case (2 rd wr mw s mt es)
  then show ?case
    by (auto intro: run_cons [where step = "flow_step rd wr mw work"] flow_read split: prod.splits bool.splits)
next
  case (3 rd wr mw s h es)
  then show ?case
    by (auto intro!: run_cons [where step = "flow_step rd wr mw work"] flow_write
        split: prod.splits WRITE_TRAN.splits if_splits)
qed (auto intro: run_nil)

text \<open>A connection in its initial state, from which concrete handshakes start.\<close>

definition fresh_statem :: OSSL_STATEM where
  "fresh_statem = \<lparr>state = MSG_FLOW_UNINITED, write_state = WRITE_STATE_TRANSITION, write_state_work = WORK_MORE_A,
     read_state = READ_STATE_HEADER, read_state_work = WORK_MORE_A, hand_state = TLS_ST_BEFORE,
     request_state = TLS_ST_BEFORE, in_init = True, read_state_first_init = False, in_handshake = 0,
     no_cert_verify = False, use_timer = False, enc_write_state = ENC_WRITE_STATE_VALID,
     enc_read_state = ENC_READ_STATE_VALID, cleanuphand = False\<rparr>"

definition fresh_ssl :: "bool \<Rightarrow> int \<Rightarrow> OSSL_HANDSHAKE_STATE \<Rightarrow> SSL" where
  "fresh_ssl srv ver h = \<lparr>statem = fresh_statem\<lparr>hand_state := h\<rparr>,
     s3 = \<lparr>flags = 0, s3_renegotiate = False, num_renegotiations = 0, total_renegotiations = 0,
       in_read_app_data = False, npn_seen = False, previous_server_finished_len = 0, client_random = [],
       handshake_buffer = [], handshake_dgst = None,
       new_cipher = \<lparr>cipher_id = 0x0300C02F, algorithm_mkey = 4, algorithm_auth = 1, min_tls = 0x0301, max_tls = 0x0304,
         min_dtls = 0xFEFF, max_dtls = 0xFEFD\<rparr>,
       cert_req = 0, cert_request = False, finish_md_len = 0, peer_finish_md_len = 0, message_size = 0,
       change_cipher_spec = False, new_compression = None\<rparr>,
     ext = \<lparr>extflags = [], ticket_expected = False, status_expected = False, early_data = 0, session_secret_cb = False\<rparr>,
     stats = \<lparr>sess_accept = 0, sess_accept_renegotiate = 0, sess_connect = 0, sess_connect_renegotiate = 0,
       sess_accept_good = 0, sess_connect_good = 0, sess_hit = 0\<rparr>,
     version = ver, method_version = ver, enc_flags = 0, server = srv, hit = False, shutdown = 0,
     early_data_state = SSL_EARLY_DATA_NONE, hello_retry_request = SSL_HRR_NONE, post_handshake_auth = SSL_PHA_NONE,
     key_update = SSL_KEY_UPDATE_NONE, options = 0, verify_mode = 0, certreqs_sent = 0, num_tickets = 2,
     sent_tickets = 0, renegotiate = False, init_num = 0, rwstate = SSL_NOTHING, rbio_retry_read = False,
     rlayer_read_pending = False, rlayer_write_pending = False, max_cert_list = 102400,
     psk_identity_hint = False, session_peer = False, session_ext_tick = False, cookie_verified = False,
     pha_dgst = None, ciphers = [],
     d1 = \<lparr>handshake_write_seq = 0, next_handshake_write_seq = 0, handshake_read_seq = 0\<rparr>,
     handshake_func = no_handshake_func, first_packet = False, init_buf = False, init_msg = 0, enc_write_ctx = False,
     max_early_data = 0, new_session = False, session_cipher = None, session_compress_meth = 0,
     session_cache_mode = 0, alerts_sent = [], errors = []\<rparr>"

section \<open>Facts about the helpers\<close>

named_theorems statem_simps \<open>handshake state after the helpers\<close>

lemma set_hs_sel [simp]:
  "hs (set_hs h s) = h" "SSL_IS_TLS13 (set_hs h s) = SSL_IS_TLS13 s"
  "SSL_IS_DTLS (set_hs h s) = SSL_IS_DTLS s" "hit (set_hs h s) = hit s"
  "state (statem (set_hs h s)) = state (statem s)" "s3 (set_hs h s) = s3 s" "ext (set_hs h s) = ext s"
  "in_init (statem (set_hs h s)) = in_init (statem s)"
  "session_peer (set_hs h s) = session_peer s"
  "no_cert_verify (statem (set_hs h s)) = no_cert_verify (statem s)"
  "shutdown (set_hs h s) = shutdown s" "post_handshake_auth (set_hs h s) = post_handshake_auth s"
  "hello_retry_request (set_hs h s) = hello_retry_request s"
  "early_data_state (set_hs h s) = early_data_state s"
  by (simp_all add: set_hs_def SSL_IS_TLS13_def SSL_IS_DTLS_def)

lemma update_version_simps [simp]:
  "SSL_IS_DTLS (s\<lparr>post_handshake_auth := p\<rparr>) = SSL_IS_DTLS s" "SSL_IS_TLS13 (s\<lparr>post_handshake_auth := p\<rparr>) = SSL_IS_TLS13 s"
  "SSL_IS_DTLS (s\<lparr>s3 := x\<rparr>) = SSL_IS_DTLS s" "SSL_IS_TLS13 (s\<lparr>s3 := x\<rparr>) = SSL_IS_TLS13 s"
  "SSL_IS_DTLS (s\<lparr>hit := b\<rparr>) = SSL_IS_DTLS s" "SSL_IS_TLS13 (s\<lparr>hit := b\<rparr>) = SSL_IS_TLS13 s"
  "SSL_IS_DTLS (s\<lparr>statem := st\<rparr>) = SSL_IS_DTLS s" "SSL_IS_TLS13 (s\<lparr>statem := st\<rparr>) = SSL_IS_TLS13 s"
  by (simp_all add: SSL_IS_TLS13_def SSL_IS_DTLS_def)

lemma fatal_sel [simp]:
  "hs (ossl_statem_fatal s al r) = hs s"
  "state (statem (ossl_statem_fatal s al r)) = MSG_FLOW_ERROR"
  "in_init (statem (ossl_statem_fatal s al r))"
  "SSL_IS_TLS13 (ossl_statem_fatal s al r) = SSL_IS_TLS13 s"
  "SSL_IS_DTLS (ossl_statem_fatal s al r) = SSL_IS_DTLS s"
  "hit (ossl_statem_fatal s al r) = hit s"
  "errors (ossl_statem_fatal s al r) = errors s @ [r]"
  by (auto simp: ossl_statem_fatal_def Let_def SSL_IS_TLS13_def SSL_IS_DTLS_def)

lemma hs_reject [simp]: "hs (snd (reject_message s mt)) = hs s" "\<not> fst (reject_message s mt)"
  by (auto simp: reject_message_def)

section \<open>Histories and samples shared by both sides\<close>

text \<open>A connection that is not and does not become one of TLS 1.3.\<close>

definition pre13 :: "SSL \<Rightarrow> bool" where
  "pre13 s \<longleftrightarrow> \<not> SSL_IS_TLS13 s \<and> hello_retry_request s \<noteq> SSL_HRR_PENDING
     \<and> early_data_state s \<noteq> SSL_EARLY_DATA_CONNECTING"

definition finished_read :: "flow_event list \<Rightarrow> bool" where
  "finished_read h = subseq [Read SSL3_MT_CHANGE_CIPHER_SPEC, Read SSL3_MT_FINISHED] h"

definition ccs_read :: "flow_event list \<Rightarrow> bool" where
  "ccs_read h \<longleftrightarrow> Read SSL3_MT_CHANGE_CIPHER_SPEC \<in> set h"

lemma finished_read_snoc:
  "finished_read h \<Longrightarrow> finished_read (h @ [x])"
  "ccs_read h \<Longrightarrow> finished_read (h @ [Read SSL3_MT_FINISHED])"
  using subseq_snoc_same [of "[Read SSL3_MT_CHANGE_CIPHER_SPEC]" h "Read SSL3_MT_FINISHED"]
  by (simp_all add: finished_read_def ccs_read_def subseq_snoc subseq_singleton_left)

lemma ccs_read_snoc: "ccs_read (h @ [x]) \<longleftrightarrow> ccs_read h \<or> x = Read SSL3_MT_CHANGE_CIPHER_SPEC"
  by (auto simp: ccs_read_def)

definition sample_env :: statem_env where
  "sample_env = \<lparr>bio_new_ok = True, md_ctx_copy_ok = True, min_max_version = None\<rparr>"

lemmas sample_simps = sample_env_def fresh_ssl_def fresh_statem_def SSL_IS_TLS13_def SSL_IS_DTLS_def has_flag_def
  set_hs_def

end
