(* ===== verification/Statem_Client.thy ===== *)
theory Statem_Client
  imports Statem_Types
begin

text \<open>
  The client side of the handshake message flow, \<^verbatim>\<open>ssl/statem/statem_clnt.c\<close>: which message may
  be read in which state, which one is written next, the constructor and the type of the message
  to write, the maximum length of the message being read and the routine that processes it. A
  transition function returns its C result and the connection it leaves behind; the cases of the
  long \<^verbatim>\<open>switch\<close> statements are definitions of their own.
\<close>

section \<open>Reading\<close>

definition cert_req_allowed :: "SSL \<Rightarrow> bool" where
  "cert_req_allowed s =
     (if version s > SSL3_VERSION \<and> has_flag (algorithm_auth (new_cipher (s3 s))) SSL_aNULL
         \<or> has_flag (algorithm_auth (new_cipher (s3 s))) (SSL_aSRP OR SSL_aPSK)
      then False else True)"

definition key_exchange_expected :: "SSL \<Rightarrow> bool" where
  "key_exchange_expected s =
     has_flag (algorithm_mkey (new_cipher (s3 s)))
       (SSL_kDHE OR SSL_kECDHE OR SSL_kDHEPSK OR SSL_kECDHEPSK OR SSL_kSRP)"

text \<open>Post-handshake messages of TLS 1.3.\<close>

definition client13_read_ok :: "statem_env \<Rightarrow> SSL \<Rightarrow> int \<Rightarrow> bool \<times> SSL" where
  "client13_read_ok e s mt =
     (if mt = SSL3_MT_NEWSESSION_TICKET then (True, set_hs TLS_ST_CR_SESSION_TICKET s)
      else if mt = SSL3_MT_KEY_UPDATE then (True, set_hs TLS_ST_CR_KEY_UPDATE s)
      else if mt = SSL3_MT_CERTIFICATE_REQUEST \<and> \<not> SSL_IS_DTLS s \<and> post_handshake_auth s = SSL_PHA_EXT_SENT
      then let s = s\<lparr>post_handshake_auth := SSL_PHA_REQUESTED\<rparr> in
        (case tls13_restore_handshake_digest_for_pha e s of
           (False, s) \<Rightarrow> (False, s)
         | (True, s) \<Rightarrow> (True, set_hs TLS_ST_CR_CERT_REQ s))
      else (False, s))"

definition client13_next :: "SSL \<Rightarrow> int \<Rightarrow> OSSL_HANDSHAKE_STATE option" where
  "client13_next s mt =
     (case hs s of
        TLS_ST_CW_CLNT_HELLO \<Rightarrow>
          if mt = SSL3_MT_SERVER_HELLO then Some TLS_ST_CR_SRVR_HELLO else None
      | TLS_ST_CR_SRVR_HELLO \<Rightarrow>
          if mt = SSL3_MT_ENCRYPTED_EXTENSIONS then Some TLS_ST_CR_ENCRYPTED_EXTENSIONS else None
      | TLS_ST_CR_ENCRYPTED_EXTENSIONS \<Rightarrow>
          if hit s then (if mt = SSL3_MT_FINISHED then Some TLS_ST_CR_FINISHED else None)
          else if mt = SSL3_MT_CERTIFICATE_REQUEST then Some TLS_ST_CR_CERT_REQ
          else if mt = SSL3_MT_CERTIFICATE then Some TLS_ST_CR_CERT else None
      | TLS_ST_CR_CERT_REQ \<Rightarrow> if mt = SSL3_MT_CERTIFICATE then Some TLS_ST_CR_CERT else None
      | TLS_ST_CR_CERT \<Rightarrow> if mt = SSL3_MT_CERTIFICATE_VERIFY then Some TLS_ST_CR_CERT_VRFY else None
      | TLS_ST_CR_CERT_VRFY \<Rightarrow> if mt = SSL3_MT_FINISHED then Some TLS_ST_CR_FINISHED else None
      | _ \<Rightarrow> None)"

definition ossl_statem_client13_read_transition :: "statem_env \<Rightarrow> SSL \<Rightarrow> int \<Rightarrow> bool \<times> SSL" where
  "ossl_statem_client13_read_transition e s mt =
     (if hs s = TLS_ST_OK then client13_read_ok e s mt
      else case client13_next s mt of
        Some h \<Rightarrow> (True, set_hs h s)
      | None \<Rightarrow> (False, s))"

text \<open>The message after the ServerHello, before TLS 1.3.\<close>

definition client_after_server_hello :: "SSL \<Rightarrow> int \<Rightarrow> SSL option" where
  "client_after_server_hello s mt =
     (if hit s then
        (if ticket_expected (ext s) then
           (if mt = SSL3_MT_NEWSESSION_TICKET then Some (set_hs TLS_ST_CR_SESSION_TICKET s) else None)
         else if mt = SSL3_MT_CHANGE_CIPHER_SPEC then Some (set_hs TLS_ST_CR_CHANGE s) else None)
      else if SSL_IS_DTLS s \<and> mt = DTLS1_MT_HELLO_VERIFY_REQUEST
      then Some (set_hs DTLS_ST_CR_HELLO_VERIFY_REQUEST s)
      else if version s \<ge> TLS1_VERSION \<and> session_secret_cb (ext s) \<and> session_ext_tick s
        \<and> mt = SSL3_MT_CHANGE_CIPHER_SPEC
      then Some (set_hs TLS_ST_CR_CHANGE (s\<lparr>hit := True\<rparr>))
      else if \<not> has_flag (algorithm_auth (new_cipher (s3 s))) (SSL_aNULL OR SSL_aSRP OR SSL_aPSK)
      then (if mt = SSL3_MT_CERTIFICATE then Some (set_hs TLS_ST_CR_CERT s) else None)
      else if key_exchange_expected s
        \<or> has_flag (algorithm_mkey (new_cipher (s3 s))) SSL_PSK \<and> mt = SSL3_MT_SERVER_KEY_EXCHANGE
      then (if mt = SSL3_MT_SERVER_KEY_EXCHANGE then Some (set_hs TLS_ST_CR_KEY_EXCH s) else None)
      else if mt = SSL3_MT_CERTIFICATE_REQUEST \<and> cert_req_allowed s
      then Some (set_hs TLS_ST_CR_CERT_REQ s)
      else if mt = SSL3_MT_SERVER_DONE then Some (set_hs TLS_ST_CR_SRVR_DONE s) else None)"

text \<open>The cases of the certificate, status, key exchange and request states fall through into
  each other, in this order.\<close>

definition client_after_cert_req :: "SSL \<Rightarrow> int \<Rightarrow> SSL option" where
  "client_after_cert_req s mt =
     (if mt = SSL3_MT_SERVER_DONE then Some (set_hs TLS_ST_CR_SRVR_DONE s) else None)"

definition client_after_key_exch :: "SSL \<Rightarrow> int \<Rightarrow> SSL option" where
  "client_after_key_exch s mt =
     (if mt = SSL3_MT_CERTIFICATE_REQUEST
      then (if cert_req_allowed s then Some (set_hs TLS_ST_CR_CERT_REQ s) else None)
      else client_after_cert_req s mt)"

definition client_after_cert_status :: "SSL \<Rightarrow> int \<Rightarrow> SSL option" where
  "client_after_cert_status s mt =
     (if key_exchange_expected s
        \<or> has_flag (algorithm_mkey (new_cipher (s3 s))) SSL_PSK \<and> mt = SSL3_MT_SERVER_KEY_EXCHANGE
      then (if mt = SSL3_MT_SERVER_KEY_EXCHANGE then Some (set_hs TLS_ST_CR_KEY_EXCH s) else None)
      else client_after_key_exch s mt)"

definition client_after_cert :: "SSL \<Rightarrow> int \<Rightarrow> SSL option" where
  "client_after_cert s mt =
     (if status_expected (ext s) \<and> mt = SSL3_MT_CERTIFICATE_STATUS
      then Some (set_hs TLS_ST_CR_CERT_STATUS s)
      else client_after_cert_status s mt)"

definition client_before_server_change :: "SSL \<Rightarrow> int \<Rightarrow> SSL option" where
  "client_before_server_change s mt =
     (if ticket_expected (ext s) then
        (if mt = SSL3_MT_NEWSESSION_TICKET then Some (set_hs TLS_ST_CR_SESSION_TICKET s) else None)
      else if mt = SSL3_MT_CHANGE_CIPHER_SPEC then Some (set_hs TLS_ST_CR_CHANGE s) else None)"

definition client_next :: "SSL \<Rightarrow> int \<Rightarrow> SSL option" where
  "client_next s mt =
     (case hs s of
        TLS_ST_CW_CLNT_HELLO \<Rightarrow>
          if mt = SSL3_MT_SERVER_HELLO then Some (set_hs TLS_ST_CR_SRVR_HELLO s)
          else if SSL_IS_DTLS s \<and> mt = DTLS1_MT_HELLO_VERIFY_REQUEST
          then Some (set_hs DTLS_ST_CR_HELLO_VERIFY_REQUEST s) else None
      | TLS_ST_EARLY_DATA \<Rightarrow>
          if mt = SSL3_MT_SERVER_HELLO then Some (set_hs TLS_ST_CR_SRVR_HELLO s) else None
      | TLS_ST_CR_SRVR_HELLO \<Rightarrow> client_after_server_hello s mt
      | TLS_ST_CR_CERT \<Rightarrow> client_after_cert s mt
      | TLS_ST_CR_CERT_STATUS \<Rightarrow> client_after_cert_status s mt
      | TLS_ST_CR_KEY_EXCH \<Rightarrow> client_after_key_exch s mt
      | TLS_ST_CR_CERT_REQ \<Rightarrow> client_after_cert_req s mt
      | TLS_ST_CW_FINISHED \<Rightarrow> client_before_server_change s mt
      | TLS_ST_CR_SESSION_TICKET \<Rightarrow>
          if mt = SSL3_MT_CHANGE_CIPHER_SPEC then Some (set_hs TLS_ST_CR_CHANGE s) else None
      | TLS_ST_CR_CHANGE \<Rightarrow>
          if mt = SSL3_MT_FINISHED then Some (set_hs TLS_ST_CR_FINISHED s) else None
      | TLS_ST_OK \<Rightarrow>
          if mt = SSL3_MT_HELLO_REQUEST then Some (set_hs TLS_ST_CR_HELLO_REQ s) else None
      | _ \<Rightarrow> None)"

definition ossl_statem_client_read_transition :: "statem_env \<Rightarrow> SSL \<Rightarrow> int \<Rightarrow> bool \<times> SSL" where
  "ossl_statem_client_read_transition e s mt =
     (if SSL_IS_TLS13 s then
        (case ossl_statem_client13_read_transition e s mt of
           (False, s) \<Rightarrow> reject_message s mt
         | (True, s) \<Rightarrow> (True, s))
      else case client_next s mt of
        Some s \<Rightarrow> (True, s)
      | None \<Rightarrow> reject_message s mt)"

section \<open>Writing\<close>

definition client13_cert_or_finished :: "SSL \<Rightarrow> OSSL_HANDSHAKE_STATE" where
  "client13_cert_or_finished s = (if cert_req (s3 s) \<noteq> 0 then TLS_ST_CW_CERT else TLS_ST_CW_FINISHED)"

definition client13_after_cert_req :: "SSL \<Rightarrow> WRITE_TRAN \<times> SSL" where
  "client13_after_cert_req s =
     (if post_handshake_auth s = SSL_PHA_REQUESTED
      then (WRITE_TRAN_CONTINUE, set_hs TLS_ST_CW_CERT s)
      else if \<not> has_flag (shutdown s) SSL_SENT_SHUTDOWN
      then (WRITE_TRAN_ERROR, ossl_statem_fatal s SSL_AD_INTERNAL_ERROR ERR_R_INTERNAL_ERROR)
      else (WRITE_TRAN_CONTINUE, set_hs TLS_ST_OK s))"

definition client13_after_finished :: "SSL \<Rightarrow> OSSL_HANDSHAKE_STATE" where
  "client13_after_finished s =
     (if early_data_state s = SSL_EARLY_DATA_WRITE_RETRY \<or> early_data_state s = SSL_EARLY_DATA_FINISHED_WRITING
      then TLS_ST_PENDING_EARLY_DATA_END
      else if has_flag (options s) SSL_OP_ENABLE_MIDDLEBOX_COMPAT \<and> hello_retry_request s = SSL_HRR_NONE
      then TLS_ST_CW_CHANGE
      else client13_cert_or_finished s)"

definition ossl_statem_client13_write_transition :: "SSL \<Rightarrow> WRITE_TRAN \<times> SSL" where
  "ossl_statem_client13_write_transition s =
     (case hs s of
        TLS_ST_CR_CERT_REQ \<Rightarrow> client13_after_cert_req s
      | TLS_ST_CR_FINISHED \<Rightarrow> (WRITE_TRAN_CONTINUE, set_hs (client13_after_finished s) s)
      | TLS_ST_PENDING_EARLY_DATA_END \<Rightarrow>
          (WRITE_TRAN_CONTINUE,
           set_hs (if early_data (ext s) = SSL_EARLY_DATA_ACCEPTED then TLS_ST_CW_END_OF_EARLY_DATA
                   else client13_cert_or_finished s) s)
      | TLS_ST_CW_END_OF_EARLY_DATA \<Rightarrow> (WRITE_TRAN_CONTINUE, set_hs (client13_cert_or_finished s) s)
      | TLS_ST_CW_CHANGE \<Rightarrow> (WRITE_TRAN_CONTINUE, set_hs (client13_cert_or_finished s) s)
      | TLS_ST_CW_CERT \<Rightarrow>
          (WRITE_TRAN_CONTINUE,
           set_hs (if cert_req (s3 s) = 1 then TLS_ST_CW_CERT_VRFY else TLS_ST_CW_FINISHED) s)
      | TLS_ST_CW_CERT_VRFY \<Rightarrow> (WRITE_TRAN_CONTINUE, set_hs TLS_ST_CW_FINISHED s)
      | TLS_ST_CR_KEY_UPDATE \<Rightarrow> (WRITE_TRAN_CONTINUE, set_hs TLS_ST_OK s)
      | TLS_ST_CW_KEY_UPDATE \<Rightarrow> (WRITE_TRAN_CONTINUE, set_hs TLS_ST_OK s)
      | TLS_ST_CR_SESSION_TICKET \<Rightarrow> (WRITE_TRAN_CONTINUE, set_hs TLS_ST_OK s)
      | TLS_ST_CW_FINISHED \<Rightarrow> (WRITE_TRAN_CONTINUE, set_hs TLS_ST_OK s)
      | TLS_ST_OK \<Rightarrow>
          if key_update s \<noteq> SSL_KEY_UPDATE_NONE
          then (WRITE_TRAN_CONTINUE, set_hs TLS_ST_CW_KEY_UPDATE s)
          else (WRITE_TRAN_FINISHED, s)
      | _ \<Rightarrow> (WRITE_TRAN_ERROR, ossl_statem_fatal s SSL_AD_INTERNAL_ERROR ERR_R_INTERNAL_ERROR))"

definition client_write_after_hello :: "SSL \<Rightarrow> WRITE_TRAN \<times> SSL" where
  "client_write_after_hello s =
     (if early_data_state s = SSL_EARLY_DATA_CONNECTING
      then (WRITE_TRAN_CONTINUE,
            set_hs (if has_flag (options s) SSL_OP_ENABLE_MIDDLEBOX_COMPAT then TLS_ST_CW_CHANGE
                    else TLS_ST_EARLY_DATA) s)
      else (WRITE_TRAN_FINISHED, s))"

definition client_write_after_retry_request :: "SSL \<Rightarrow> WRITE_TRAN \<times> SSL" where
  "client_write_after_retry_request s =
     (WRITE_TRAN_CONTINUE,
      set_hs (if has_flag (options s) SSL_OP_ENABLE_MIDDLEBOX_COMPAT
                 \<and> early_data_state s \<noteq> SSL_EARLY_DATA_FINISHED_WRITING
              then TLS_ST_CW_CHANGE else TLS_ST_CW_CLNT_HELLO) s)"

definition client_write_after_key_exch :: "SSL \<Rightarrow> WRITE_TRAN \<times> SSL" where
  "client_write_after_key_exch s =
     (let s = (if cert_req (s3 s) = 1 then set_hs TLS_ST_CW_CERT_VRFY s else set_hs TLS_ST_CW_CHANGE s);
          s = (if has_flag (flags (s3 s)) TLS1_FLAGS_SKIP_CERT_VERIFY then set_hs TLS_ST_CW_CHANGE s else s)
      in (WRITE_TRAN_CONTINUE, s))"

definition client_write_after_change :: "SSL \<Rightarrow> WRITE_TRAN \<times> SSL" where
  "client_write_after_change s =
     (WRITE_TRAN_CONTINUE,
      set_hs (if hello_retry_request s = SSL_HRR_PENDING then TLS_ST_CW_CLNT_HELLO
              else if early_data_state s = SSL_EARLY_DATA_CONNECTING then TLS_ST_EARLY_DATA
              else if \<not> SSL_IS_DTLS s \<and> npn_seen (s3 s) then TLS_ST_CW_NEXT_PROTO
              else TLS_ST_CW_FINISHED) s)"

definition client_write_after_hello_req :: "statem_env \<Rightarrow> SSL \<Rightarrow> WRITE_TRAN \<times> SSL" where
  "client_write_after_hello_req e s =
     (case ssl3_renegotiate_check s True of
        (True, s) \<Rightarrow>
          (case tls_setup_handshake e s of
             (False, s) \<Rightarrow> (WRITE_TRAN_ERROR, s)
           | (True, s) \<Rightarrow> (WRITE_TRAN_CONTINUE, set_hs TLS_ST_CW_CLNT_HELLO s))
      | (False, s) \<Rightarrow> (WRITE_TRAN_CONTINUE, set_hs TLS_ST_OK s))"

definition ossl_statem_client_write_transition :: "statem_env \<Rightarrow> SSL \<Rightarrow> WRITE_TRAN \<times> SSL" where
  "ossl_statem_client_write_transition e s =
     (if SSL_IS_TLS13 s then ossl_statem_client13_write_transition s
      else case hs s of
        TLS_ST_OK \<Rightarrow> if \<not> renegotiate s then (WRITE_TRAN_FINISHED, s)
          else (WRITE_TRAN_CONTINUE, set_hs TLS_ST_CW_CLNT_HELLO s)
      | TLS_ST_BEFORE \<Rightarrow> (WRITE_TRAN_CONTINUE, set_hs TLS_ST_CW_CLNT_HELLO s)
      | TLS_ST_CW_CLNT_HELLO \<Rightarrow> client_write_after_hello s
      | TLS_ST_CR_SRVR_HELLO \<Rightarrow> client_write_after_retry_request s
      | TLS_ST_EARLY_DATA \<Rightarrow> (WRITE_TRAN_FINISHED, s)
      | DTLS_ST_CR_HELLO_VERIFY_REQUEST \<Rightarrow> (WRITE_TRAN_CONTINUE, set_hs TLS_ST_CW_CLNT_HELLO s)
      | TLS_ST_CR_SRVR_DONE \<Rightarrow>
          (WRITE_TRAN_CONTINUE, set_hs (if cert_req (s3 s) \<noteq> 0 then TLS_ST_CW_CERT else TLS_ST_CW_KEY_EXCH) s)
      | TLS_ST_CW_CERT \<Rightarrow> (WRITE_TRAN_CONTINUE, set_hs TLS_ST_CW_KEY_EXCH s)
      | TLS_ST_CW_KEY_EXCH \<Rightarrow> client_write_after_key_exch s
      | TLS_ST_CW_CERT_VRFY \<Rightarrow> (WRITE_TRAN_CONTINUE, set_hs TLS_ST_CW_CHANGE s)
      | TLS_ST_CW_CHANGE \<Rightarrow> client_write_after_change s
      | TLS_ST_CW_NEXT_PROTO \<Rightarrow> (WRITE_TRAN_CONTINUE, set_hs TLS_ST_CW_FINISHED s)
      | TLS_ST_CW_FINISHED \<Rightarrow>
          if hit s then (WRITE_TRAN_CONTINUE, set_hs TLS_ST_OK s) else (WRITE_TRAN_FINISHED, s)
      | TLS_ST_CR_FINISHED \<Rightarrow>
          (WRITE_TRAN_CONTINUE, set_hs (if hit s then TLS_ST_CW_CHANGE else TLS_ST_OK) s)
      | TLS_ST_CR_HELLO_REQ \<Rightarrow> client_write_after_hello_req e s
      | _ \<Rightarrow> (WRITE_TRAN_ERROR, ossl_statem_fatal s SSL_AD_INTERNAL_ERROR ERR_R_INTERNAL_ERROR))"

section \<open>Message construction and processing tables\<close>

definition ossl_statem_client_construct_message :: "SSL \<Rightarrow> (confunc \<times> int) option \<times> SSL" where
  "ossl_statem_client_construct_message s =
     (case hs s of
        TLS_ST_CW_CHANGE \<Rightarrow>
          (Some (if SSL_IS_DTLS s then dtls_construct_change_cipher_spec else tls_construct_change_cipher_spec,
               SSL3_MT_CHANGE_CIPHER_SPEC), s)
      | TLS_ST_CW_CLNT_HELLO \<Rightarrow> (Some (tls_construct_client_hello, SSL3_MT_CLIENT_HELLO), s)
      | TLS_ST_CW_END_OF_EARLY_DATA \<Rightarrow> (Some (tls_construct_end_of_early_data, SSL3_MT_END_OF_EARLY_DATA), s)
      | TLS_ST_PENDING_EARLY_DATA_END \<Rightarrow> (Some (no_confunc, SSL3_MT_DUMMY), s)
      | TLS_ST_CW_CERT \<Rightarrow> (Some (tls_construct_client_certificate, SSL3_MT_CERTIFICATE), s)
      | TLS_ST_CW_KEY_EXCH \<Rightarrow> (Some (tls_construct_client_key_exchange, SSL3_MT_CLIENT_KEY_EXCHANGE), s)
      | TLS_ST_CW_CERT_VRFY \<Rightarrow> (Some (tls_construct_cert_verify, SSL3_MT_CERTIFICATE_VERIFY), s)
      | TLS_ST_CW_NEXT_PROTO \<Rightarrow> (Some (tls_construct_next_proto, SSL3_MT_NEXT_PROTO), s)
      | TLS_ST_CW_FINISHED \<Rightarrow> (Some (tls_construct_finished, SSL3_MT_FINISHED), s)
      | TLS_ST_CW_KEY_UPDATE \<Rightarrow> (Some (tls_construct_key_update, SSL3_MT_KEY_UPDATE), s)
      | _ \<Rightarrow> (None, ossl_statem_fatal s SSL_AD_INTERNAL_ERROR SSL_R_BAD_HANDSHAKE_STATE))"

definition ossl_statem_client_max_message_size :: "SSL \<Rightarrow> nat" where
  "ossl_statem_client_max_message_size s =
     (case hs s of
        TLS_ST_CR_SRVR_HELLO \<Rightarrow> 20000
      | DTLS_ST_CR_HELLO_VERIFY_REQUEST \<Rightarrow> 258
      | TLS_ST_CR_CERT \<Rightarrow> max_cert_list s
      | TLS_ST_CR_CERT_VRFY \<Rightarrow> 16384
      | TLS_ST_CR_CERT_STATUS \<Rightarrow> 16384
      | TLS_ST_CR_KEY_EXCH \<Rightarrow> 102400
      | TLS_ST_CR_CERT_REQ \<Rightarrow> max_cert_list s
      | TLS_ST_CR_SRVR_DONE \<Rightarrow> 0
      | TLS_ST_CR_CHANGE \<Rightarrow> if version s = DTLS1_BAD_VER then 3 else 1
      | TLS_ST_CR_SESSION_TICKET \<Rightarrow> if SSL_IS_TLS13 s then 131338 else 65541
      | TLS_ST_CR_FINISHED \<Rightarrow> 64
      | TLS_ST_CR_ENCRYPTED_EXTENSIONS \<Rightarrow> 20000
      | TLS_ST_CR_KEY_UPDATE \<Rightarrow> 1
      | _ \<Rightarrow> 0)"

text \<open>The routine a received message is passed to; a state that reads no message is an error.\<close>

definition ossl_statem_client_process_message :: "SSL \<Rightarrow> msg_handler option \<times> SSL" where
  "ossl_statem_client_process_message s =
     (case hs s of
        TLS_ST_CR_SRVR_HELLO \<Rightarrow> (Some tls_process_server_hello, s)
      | DTLS_ST_CR_HELLO_VERIFY_REQUEST \<Rightarrow> (Some dtls_process_hello_verify, s)
      | TLS_ST_CR_CERT \<Rightarrow> (Some tls_process_server_certificate, s)
      | TLS_ST_CR_CERT_VRFY \<Rightarrow> (Some tls_process_cert_verify, s)
      | TLS_ST_CR_CERT_STATUS \<Rightarrow> (Some tls_process_cert_status, s)
      | TLS_ST_CR_KEY_EXCH \<Rightarrow> (Some tls_process_key_exchange, s)
      | TLS_ST_CR_CERT_REQ \<Rightarrow> (Some tls_process_certificate_request, s)
      | TLS_ST_CR_SRVR_DONE \<Rightarrow> (Some tls_process_server_done, s)
      | TLS_ST_CR_CHANGE \<Rightarrow> (Some tls_process_change_cipher_spec, s)
      | TLS_ST_CR_SESSION_TICKET \<Rightarrow> (Some tls_process_new_session_ticket, s)
      | TLS_ST_CR_FINISHED \<Rightarrow> (Some tls_process_finished, s)
      | TLS_ST_CR_HELLO_REQ \<Rightarrow> (Some tls_process_hello_req, s)
      | TLS_ST_CR_ENCRYPTED_EXTENSIONS \<Rightarrow> (Some tls_process_encrypted_extensions, s)
      | TLS_ST_CR_KEY_UPDATE \<Rightarrow> (Some tls_process_key_update, s)
      | _ \<Rightarrow> (None, ossl_statem_fatal s SSL_AD_INTERNAL_ERROR ERR_R_INTERNAL_ERROR))"

definition ossl_statem_client_post_process_message :: "SSL \<Rightarrow> msg_handler option \<times> SSL" where
  "ossl_statem_client_post_process_message s =
     (case hs s of
        TLS_ST_CR_CERT_VRFY \<Rightarrow> (Some tls_prepare_client_certificate, s)
      | TLS_ST_CR_CERT_REQ \<Rightarrow> (Some tls_prepare_client_certificate, s)
      | _ \<Rightarrow> (None, ossl_statem_fatal s SSL_AD_INTERNAL_ERROR ERR_R_INTERNAL_ERROR))"

section \<open>TLS 1.3 handshakes\<close>


lemmas client13_defs = ossl_statem_client_read_transition_def ossl_statem_client13_read_transition_def
  client13_read_ok_def client13_next_def ossl_statem_client_write_transition_def
  ossl_statem_client13_write_transition_def client13_after_cert_req_def client13_after_finished_def
  client13_cert_or_finished_def tls13_restore_handshake_digest_for_pha_def reject_message_def

text \<open>TLS 1.3 client transitions, as a table.\<close>

lemma client13_read_edge:
  assumes "ossl_statem_client_read_transition e s mt = (True, t)" "SSL_IS_TLS13 s"
  shows "(hs s = TLS_ST_CW_CLNT_HELLO \<and> hs t = TLS_ST_CR_SRVR_HELLO
    \<or> hs s = TLS_ST_CR_SRVR_HELLO \<and> hs t = TLS_ST_CR_ENCRYPTED_EXTENSIONS
    \<or> hs s = TLS_ST_CR_ENCRYPTED_EXTENSIONS \<and> (if hit s then mt = SSL3_MT_FINISHED \<and> hs t = TLS_ST_CR_FINISHED
        else mt = SSL3_MT_CERTIFICATE_REQUEST \<and> hs t = TLS_ST_CR_CERT_REQ
           \<or> mt = SSL3_MT_CERTIFICATE \<and> hs t = TLS_ST_CR_CERT)
    \<or> hs s = TLS_ST_CR_CERT_REQ \<and> mt = SSL3_MT_CERTIFICATE \<and> hs t = TLS_ST_CR_CERT
    \<or> hs s = TLS_ST_CR_CERT \<and> mt = SSL3_MT_CERTIFICATE_VERIFY \<and> hs t = TLS_ST_CR_CERT_VRFY
    \<or> hs s = TLS_ST_CR_CERT_VRFY \<and> mt = SSL3_MT_FINISHED \<and> hs t = TLS_ST_CR_FINISHED
    \<or> hs s = TLS_ST_OK)
    \<and> SSL_IS_TLS13 t \<and> hit t = hit s \<and> shutdown t = shutdown s
    \<and> (hs s \<noteq> TLS_ST_OK \<longrightarrow> post_handshake_auth t = post_handshake_auth s)"
  using assms
  by (cases "hs s") (auto simp: client13_defs Let_def split: if_splits prod.splits bool.splits option.splits)


lemma client13_write_edge:
  assumes "ossl_statem_client_write_transition e s = (WRITE_TRAN_CONTINUE, t)" "SSL_IS_TLS13 s"
  shows "(hs s = TLS_ST_CR_CERT_REQ \<and> (post_handshake_auth s = SSL_PHA_REQUESTED \<or> has_flag (shutdown s) SSL_SENT_SHUTDOWN)
      \<or> hs s \<notin> {TLS_ST_CR_SRVR_HELLO, TLS_ST_CR_ENCRYPTED_EXTENSIONS, TLS_ST_CR_CERT_REQ, TLS_ST_CR_CERT, TLS_ST_CR_CERT_VRFY})
    \<and> SSL_IS_TLS13 t \<and> hit t = hit s \<and> shutdown t = shutdown s
    \<and> post_handshake_auth t = post_handshake_auth s"
  using assms
  by (cases "hs s") (auto simp: client13_defs split: if_splits)

text \<open>What the routines outside the transition functions may change during a TLS 1.3 handshake:
  anything but the handshake state, the protocol version and whether a session is resumed; they
  never mark a post-handshake request as received and do not send a close_notify.\<close>

definition client13_work :: "SSL \<Rightarrow> SSL \<Rightarrow> bool" where
  "client13_work s t \<longleftrightarrow> SSL_IS_TLS13 t = SSL_IS_TLS13 s \<and> hit t = hit s
     \<and> (has_flag (shutdown t) SSL_SENT_SHUTDOWN \<longrightarrow> has_flag (shutdown s) SSL_SENT_SHUTDOWN)
     \<and> (post_handshake_auth t = SSL_PHA_REQUESTED \<longrightarrow> post_handshake_auth s = SSL_PHA_REQUESTED)"

text \<open>After a ServerHello the client goes on reading unless it was a HelloRetryRequest.\<close>

definition client_may_write :: "SSL \<Rightarrow> bool" where
  "client_may_write s \<longleftrightarrow> (hs s = TLS_ST_CR_SRVR_HELLO \<longrightarrow> hello_retry_request s = SSL_HRR_PENDING)"

definition client_flow :: "statem_env \<Rightarrow> (SSL \<Rightarrow> SSL \<Rightarrow> bool) \<Rightarrow> SSL \<Rightarrow> flow_event \<Rightarrow> SSL \<Rightarrow> bool" where
  "client_flow e work =
     flow_step (ossl_statem_client_read_transition e) (ossl_statem_client_write_transition e) client_may_write work"

definition client13_start :: "SSL \<Rightarrow> bool" where
  "client13_start s \<longleftrightarrow> SSL_IS_TLS13 s \<and> \<not> hit s \<and> hs s = TLS_ST_CR_SRVR_HELLO
     \<and> \<not> has_flag (shutdown s) SSL_SENT_SHUTDOWN \<and> post_handshake_auth s \<noteq> SSL_PHA_REQUESTED"

definition server_authenticated :: "flow_event list \<Rightarrow> bool" where
  "server_authenticated h = subseq [Read SSL3_MT_CERTIFICATE, Read SSL3_MT_CERTIFICATE_VERIFY, Read SSL3_MT_FINISHED] h"

definition client13_inv :: "flow_event list \<Rightarrow> SSL \<Rightarrow> bool" where
  "client13_inv h s \<longleftrightarrow> SSL_IS_TLS13 s \<and> \<not> hit s \<and> \<not> has_flag (shutdown s) SSL_SENT_SHUTDOWN \<and>
     (server_authenticated h \<or> post_handshake_auth s \<noteq> SSL_PHA_REQUESTED \<and>
       (hs s \<in> {TLS_ST_CR_SRVR_HELLO, TLS_ST_CR_ENCRYPTED_EXTENSIONS, TLS_ST_CR_CERT_REQ}
        \<or> hs s = TLS_ST_CR_CERT \<and> subseq [Read SSL3_MT_CERTIFICATE] h
        \<or> hs s = TLS_ST_CR_CERT_VRFY \<and> subseq [Read SSL3_MT_CERTIFICATE, Read SSL3_MT_CERTIFICATE_VERIFY] h))"

lemma client13_inv_read:
  assumes inv: "client13_inv h s" and rd: "ossl_statem_client_read_transition e s mt = (True, t)"
  shows "client13_inv (h @ [Read mt]) t"
proof (cases "server_authenticated h")
  case True
  then show ?thesis
    using inv client13_read_edge [OF rd] subseq_snoc by (auto simp: client13_inv_def server_authenticated_def)
next
  case False
  have cert: "mt = SSL3_MT_CERTIFICATE \<Longrightarrow> subseq [Read SSL3_MT_CERTIFICATE] (h @ [Read mt])"
    and vrfy: "mt = SSL3_MT_CERTIFICATE_VERIFY \<Longrightarrow> subseq [Read SSL3_MT_CERTIFICATE] h \<Longrightarrow>
      subseq [Read SSL3_MT_CERTIFICATE, Read SSL3_MT_CERTIFICATE_VERIFY] (h @ [Read mt])"
    and fin: "mt = SSL3_MT_FINISHED \<Longrightarrow> subseq [Read SSL3_MT_CERTIFICATE, Read SSL3_MT_CERTIFICATE_VERIFY] h \<Longrightarrow>
      server_authenticated (h @ [Read mt])"
    using subseq_snoc_same [of "[]" h "Read mt"] subseq_snoc_same [of "[Read SSL3_MT_CERTIFICATE]" h "Read mt"]
      subseq_snoc_same [of "[Read SSL3_MT_CERTIFICATE, Read SSL3_MT_CERTIFICATE_VERIFY]" h "Read mt"]
    by (simp_all add: server_authenticated_def)
  from inv have m: "SSL_IS_TLS13 s" "\<not> hit s" "\<not> has_flag (shutdown s) SSL_SENT_SHUTDOWN"
    by (simp_all add: client13_inv_def)
  from inv False have st: "post_handshake_auth s \<noteq> SSL_PHA_REQUESTED"
    "hs s = TLS_ST_CR_SRVR_HELLO \<or> hs s = TLS_ST_CR_ENCRYPTED_EXTENSIONS \<or> hs s = TLS_ST_CR_CERT_REQ
     \<or> hs s = TLS_ST_CR_CERT \<and> subseq [Read SSL3_MT_CERTIFICATE] h
     \<or> hs s = TLS_ST_CR_CERT_VRFY \<and> subseq [Read SSL3_MT_CERTIFICATE, Read SSL3_MT_CERTIFICATE_VERIFY] h"
    by (auto simp: client13_inv_def)
  note ed = client13_read_edge [OF rd m(1)]
  show ?thesis
    using st(2) by (elim disjE conjE) (use ed st(1) m cert vrfy fin in \<open>auto simp: client13_inv_def\<close>)
qed

lemma client13_inv_write:
  assumes "client13_inv h s" "ossl_statem_client_write_transition e s = (WRITE_TRAN_CONTINUE, t)"
  shows "client13_inv (h @ [Write x]) t"
proof -
  have *: "SSL_IS_TLS13 s" using assms(1) by (auto simp: client13_inv_def)
  show ?thesis
    using client13_write_edge [OF assms(2) *] assms(1)
    by (auto simp: client13_inv_def server_authenticated_def intro: subseq_snoc)
qed

lemma client13_inv_work:
  assumes "client13_inv h s" "client13_work s t" "hs t = hs s"
  shows "client13_inv (h @ [Work]) t"
  using assms by (auto simp: client13_inv_def server_authenticated_def client13_work_def intro: subseq_snoc)

interpretation client13: history_invariant client13_start "client_flow e client13_work" client13_inv for e
proof (unfold_locales, goal_cases)
  case (1 s)
  then show ?case by (auto simp: client13_start_def client13_inv_def)
next
  case (2 h s ev t)
  then show ?case unfolding client_flow_def
    by (auto elim!: flow_stepE intro: client13_inv_read client13_inv_write client13_inv_work)
qed

lemma sample_client13_run:
  "run (client_flow sample_env work) (fresh_ssl False 0x0304 TLS_ST_CR_SRVR_HELLO)
     [Read 8, Read 11, Read 15, Read 20, Write TLS_ST_CW_FINISHED, Write TLS_ST_OK]
     (fresh_ssl False 0x0304 TLS_ST_OK)"
  unfolding client_flow_def
  by (rule exec_flow_run) (simp add: client13_defs sample_simps client_may_write_def)

text \<open>
  C25. In TLS 1.3 without resumption, whatever the peer sends and whatever the processing
  routines do to the rest of the connection, a client that has left the states of the server's
  first flight has read the server's Certificate, its CertificateVerify and its Finished message, in
  this order. In particular it holds in \<^verbatim>\<open>TLS_ST_OK\<close> and in every state that writes.
\<close>

theorem client13_server_authenticated:
  assumes "client13_start s" "run (client_flow e client13_work) s es t"
    and "hs t \<notin> {TLS_ST_CR_SRVR_HELLO, TLS_ST_CR_ENCRYPTED_EXTENSIONS, TLS_ST_CR_CERT_REQ, TLS_ST_CR_CERT, TLS_ST_CR_CERT_VRFY}"
  shows "subseq [Read SSL3_MT_CERTIFICATE, Read SSL3_MT_CERTIFICATE_VERIFY, Read SSL3_MT_FINISHED] es"
  using client13.inv_run [OF assms(2,1)] assms(3) by (auto simp: client13_inv_def server_authenticated_def)


theorem client13_server_authenticated_witness:
  "subseq [Read SSL3_MT_CERTIFICATE, Read SSL3_MT_CERTIFICATE_VERIFY, Read SSL3_MT_FINISHED]
     [Read 8, Read 11, Read 15, Read 20, Write TLS_ST_CW_FINISHED, Write TLS_ST_OK]"
  by (rule client13_server_authenticated [OF _ sample_client13_run])
    (simp_all add: client13_start_def sample_simps)

section \<open>Handshakes before TLS 1.3\<close>

lemmas client_defs = ossl_statem_client_read_transition_def client_next_def client_after_server_hello_def
  client_after_cert_def client_after_cert_status_def client_after_key_exch_def client_after_cert_req_def
  client_before_server_change_def reject_message_def ossl_statem_client_write_transition_def
  client_write_after_hello_def client_write_after_retry_request_def client_write_after_key_exch_def
  client_write_after_change_def

definition client_hello_states :: "OSSL_HANDSHAKE_STATE set" where
  "client_hello_states = {TLS_ST_BEFORE, TLS_ST_CW_CLNT_HELLO, DTLS_ST_CR_HELLO_VERIFY_REQUEST,
     TLS_ST_EARLY_DATA, TLS_ST_CR_SRVR_HELLO}"

definition client_full_states :: "OSSL_HANDSHAKE_STATE set" where
  "client_full_states = {TLS_ST_CR_CERT, TLS_ST_CR_CERT_STATUS, TLS_ST_CR_KEY_EXCH, TLS_ST_CR_CERT_REQ,
     TLS_ST_CR_SRVR_DONE, TLS_ST_CW_CERT, TLS_ST_CW_KEY_EXCH, TLS_ST_CW_CERT_VRFY, TLS_ST_CW_CHANGE,
     TLS_ST_CW_NEXT_PROTO, TLS_ST_CW_FINISHED}"

text \<open>The states a client of TLS 1.2 or below is in before it has read a Finished message; \<open>ccs\<close> says
  whether a ChangeCipherSpec was read.\<close>

definition client_pending :: "bool \<Rightarrow> SSL \<Rightarrow> bool" where
  "client_pending ccs s \<longleftrightarrow> pre13 s \<and>
     (hs s \<in> client_hello_states \<or> \<not> hit s \<and> hs s \<in> client_full_states
      \<or> hs s = TLS_ST_CR_SESSION_TICKET \<or> hs s = TLS_ST_CR_CHANGE \<and> ccs)"

lemma client_pending_read:
  assumes "client_pending ccs s" "ossl_statem_client_read_transition e s mt = (True, t)"
  shows "client_pending (ccs \<or> mt = SSL3_MT_CHANGE_CIPHER_SPEC) t \<or> ccs \<and> mt = SSL3_MT_FINISHED"
  using assms
  by (cases "hs s") (auto simp: client_pending_def pre13_def client_hello_states_def client_full_states_def client_defs
      split: if_splits option.splits)

lemma client_pending_write:
  assumes "client_pending ccs s" "client_may_write s" "ossl_statem_client_write_transition e s = (WRITE_TRAN_CONTINUE, t)"
  shows "client_pending ccs t"
  using assms
  by (cases "hs s") (auto simp: client_pending_def pre13_def client_hello_states_def client_full_states_def client_defs
      client_may_write_def Let_def split: if_splits option.splits)


text \<open>What the routines outside the transition functions may change: anything but the handshake
  state, the version and the retry and early data states of TLS 1.3; whether a session is resumed is
  decided before the message after the ServerHello.\<close>

definition client_work :: "SSL \<Rightarrow> SSL \<Rightarrow> bool" where
  "client_work s t \<longleftrightarrow> (pre13 s \<longrightarrow> pre13 t) \<and> (hs s \<notin> client_hello_states \<longrightarrow> hit t = hit s)"

definition client_start :: "SSL \<Rightarrow> bool" where
  "client_start s \<longleftrightarrow> pre13 s \<and> hs s = TLS_ST_BEFORE"

interpretation client12: history_invariant client_start "client_flow e client_work"
  "\<lambda>h s. finished_read h \<or> client_pending (ccs_read h) s" for e
proof (unfold_locales, goal_cases)
  case (1 s)
  then show ?case by (simp add: client_start_def client_pending_def client_hello_states_def)
next
  case (2 h s ev t)
  show ?case
  proof (cases "finished_read h")
    case False
    with 2 have p: "client_pending (ccs_read h) s" by simp
    from 2(2) show ?thesis unfolding client_flow_def
    proof (cases rule: flow_step.cases)
      case (flow_read mt)
      then show ?thesis using client_pending_read [OF p] finished_read_snoc(2) [of h]
        by (auto simp: ccs_read_snoc)
    next
      case flow_write
      then show ?thesis using client_pending_write [OF p] by (auto simp: ccs_read_snoc)
    next
      case flow_work
      then show ?thesis using p
        by (auto simp: client_work_def client_pending_def ccs_read_snoc client_hello_states_def client_full_states_def)
    qed
  qed (simp add: finished_read_snoc)
qed

text \<open>
  Before TLS 1.3, in full and in resumed handshakes, over TLS and DTLS: when a
  client that starts in \<^verbatim>\<open>TLS_ST_BEFORE\<close> reaches \<^verbatim>\<open>TLS_ST_OK\<close>, or the state in which it processes
  a Finished message, it has read a ChangeCipherSpec and after it a Finished message.
\<close>

theorem client_finished_before_ok:
  assumes "client_start s" "run (client_flow e client_work) s es t"
    and "hs t = TLS_ST_OK \<or> hs t = TLS_ST_CR_FINISHED"
  shows "subseq [Read SSL3_MT_CHANGE_CIPHER_SPEC, Read SSL3_MT_FINISHED] es"
  using client12.inv_run [OF assms(2,1)] assms(3)
  by (auto simp: finished_read_def client_pending_def client_hello_states_def client_full_states_def)

lemma sample_client_run:
  "run (client_flow sample_env work) (fresh_ssl False 0x0303 TLS_ST_BEFORE)
     [Write TLS_ST_CW_CLNT_HELLO, Read 2, Read 11, Read 12, Read 14, Write TLS_ST_CW_KEY_EXCH, Write TLS_ST_CW_CHANGE,
      Write TLS_ST_CW_FINISHED, Read 0x101, Read 20, Write TLS_ST_OK]
     (fresh_ssl False 0x0303 TLS_ST_OK)"
  unfolding client_flow_def
  by (rule exec_flow_run)
    (simp add: client_defs sample_simps client_may_write_def cert_req_allowed_def key_exchange_expected_def)

theorem client_finished_before_ok_witness:
  "subseq [Read SSL3_MT_CHANGE_CIPHER_SPEC, Read SSL3_MT_FINISHED]
    [Write TLS_ST_CW_CLNT_HELLO, Read 2, Read 11, Read 12, Read 14, Write TLS_ST_CW_KEY_EXCH, Write TLS_ST_CW_CHANGE,
      Write TLS_ST_CW_FINISHED, Read 0x101, Read 20, Write TLS_ST_OK]"
  by (rule client_finished_before_ok [OF _ sample_client_run])
    (simp_all add: client_start_def pre13_def sample_simps)

text \<open>
  C27. A message the client's read transition refuses leaves the handshake state as it was;
  an out-of-order DTLS ChangeCipherSpec is dropped without any other effect on the flow, and every
  other message puts the connection into the error state with an unexpected-message error.
\<close>

theorem client_rejects_unexpected:
  assumes "ossl_statem_client_read_transition e s mt = (False, t)"
  shows "hs t = hs s \<and>
    (if SSL_IS_DTLS s \<and> mt = SSL3_MT_CHANGE_CIPHER_SPEC
     then state (statem t) = state (statem s) \<and> errors t = errors s \<and> init_num t = 0
     else state (statem t) = MSG_FLOW_ERROR \<and> in_init (statem t)
       \<and> SSL_R_UNEXPECTED_MESSAGE \<in> set (errors t))"
proof (cases "SSL_IS_TLS13 s")
  case True
  then have "\<not> SSL_IS_DTLS s" by (simp add: SSL_IS_TLS13_def)
  then show ?thesis using assms True
    by (auto simp: client13_defs Let_def split: if_splits option.splits prod.splits bool.splits)
next
  case False
  then show ?thesis using assms
    by (auto simp: ossl_statem_client_read_transition_def reject_message_def split: if_splits option.splits)
qed

lemma client_read_states:
  assumes "ossl_statem_client_read_transition e s mt = (True, t)"
  shows "hs t \<in> {TLS_ST_CR_SRVR_HELLO, DTLS_ST_CR_HELLO_VERIFY_REQUEST, TLS_ST_CR_CERT, TLS_ST_CR_CERT_VRFY,
    TLS_ST_CR_CERT_STATUS, TLS_ST_CR_KEY_EXCH, TLS_ST_CR_CERT_REQ, TLS_ST_CR_SRVR_DONE, TLS_ST_CR_CHANGE,
    TLS_ST_CR_SESSION_TICKET, TLS_ST_CR_FINISHED, TLS_ST_CR_HELLO_REQ, TLS_ST_CR_ENCRYPTED_EXTENSIONS,
    TLS_ST_CR_KEY_UPDATE}"
proof (cases "SSL_IS_TLS13 s")
  case True
  then show ?thesis using assms
    by (cases "hs s") (auto simp: client13_defs Let_def split: if_splits option.splits prod.splits bool.splits)
next
  case False
  then show ?thesis using assms
    by (cases "hs s") (auto simp: client_defs split: if_splits option.splits)
qed

lemma client_write_states:
  assumes "ossl_statem_client_write_transition e s = (WRITE_TRAN_CONTINUE, t)"
  shows "hs t \<in> {TLS_ST_OK, TLS_ST_EARLY_DATA, TLS_ST_CW_CHANGE, TLS_ST_CW_CLNT_HELLO, TLS_ST_CW_END_OF_EARLY_DATA,
    TLS_ST_PENDING_EARLY_DATA_END, TLS_ST_CW_CERT, TLS_ST_CW_KEY_EXCH, TLS_ST_CW_CERT_VRFY, TLS_ST_CW_NEXT_PROTO,
    TLS_ST_CW_FINISHED, TLS_ST_CW_KEY_UPDATE}"
proof (cases "SSL_IS_TLS13 s")
  case True
  then show ?thesis using assms
    by (cases "hs s") (auto simp: client13_defs split: if_splits)
next
  case False
  then show ?thesis using assms
    by (cases "hs s") (auto simp: client_defs client_write_after_hello_req_def Let_def split: if_splits prod.splits bool.splits)
qed

text \<open>
  The ``shouldn't happen'' cases of the client's tables do not happen: every accepted
  message has a processing routine, and every state the write transition moves to has a message
  constructor, except the two states that end the flow.
\<close>

theorem client_messages_have_handlers:
  "(ossl_statem_client_read_transition e s mt = (True, t) \<longrightarrow>
      (\<exists>f. ossl_statem_client_process_message t = (Some f, t)))
   \<and> (ossl_statem_client_write_transition e s = (WRITE_TRAN_CONTINUE, t) \<longrightarrow>
      hs t = TLS_ST_OK \<or> hs t = TLS_ST_EARLY_DATA
      \<or> (\<exists>f mt. ossl_statem_client_construct_message t = (Some (f, mt), t)))"
  using client_read_states [of e s mt t] client_write_states [of e s t]
  by (auto simp: ossl_statem_client_process_message_def ossl_statem_client_construct_message_def)

theorem client_messages_have_handlers_witness:
  "(\<exists>f. ossl_statem_client_process_message (fresh_ssl False 0x0303 TLS_ST_CR_SRVR_HELLO) = (Some f, fresh_ssl False 0x0303 TLS_ST_CR_SRVR_HELLO))
   \<and> (\<exists>f mt. ossl_statem_client_construct_message (fresh_ssl False 0x0303 TLS_ST_CW_CLNT_HELLO) = (Some (f, mt), fresh_ssl False 0x0303 TLS_ST_CW_CLNT_HELLO))"
  using client_messages_have_handlers [of sample_env "fresh_ssl False 0x0303 TLS_ST_CW_CLNT_HELLO" 2 "fresh_ssl False 0x0303 TLS_ST_CR_SRVR_HELLO"]
    client_messages_have_handlers [of sample_env "fresh_ssl False 0x0303 TLS_ST_BEFORE" 2 "fresh_ssl False 0x0303 TLS_ST_CW_CLNT_HELLO"]
  by (simp add: client_defs sample_simps)

theorem client_rejects_unexpected_witness:
  "hs (snd (ossl_statem_client_read_transition sample_env (fresh_ssl False 0x0303 TLS_ST_CW_CLNT_HELLO) 20)) = TLS_ST_CW_CLNT_HELLO"
  using client_rejects_unexpected [of sample_env "fresh_ssl False 0x0303 TLS_ST_CW_CLNT_HELLO" 20
    "snd (ossl_statem_client_read_transition sample_env (fresh_ssl False 0x0303 TLS_ST_CW_CLNT_HELLO) 20)"]
  by (simp add: client_defs sample_simps)

text \<open>
  The exact condition under which a client accepts a ChangeCipherSpec: never in TLS 1.3,
  and before it only after a ServerHello that resumes a session without a new ticket (or under
  EAP-FAST), after its own Finished when no ticket is expected, or after the ticket.
\<close>

lemma client_ccs_accepted_iff:
  "fst (ossl_statem_client_read_transition e s SSL3_MT_CHANGE_CIPHER_SPEC) \<longleftrightarrow>
     \<not> SSL_IS_TLS13 s \<and>
     (hs s = TLS_ST_CR_SRVR_HELLO \<and>
        (if hit s then \<not> ticket_expected (ext s)
         else TLS1_VERSION \<le> version s \<and> session_secret_cb (ext s) \<and> session_ext_tick s)
      \<or> hs s = TLS_ST_CW_FINISHED \<and> \<not> ticket_expected (ext s)
      \<or> hs s = TLS_ST_CR_SESSION_TICKET)"
proof (cases "SSL_IS_TLS13 s")
  case True
  then show ?thesis
    by (cases "hs s") (auto simp: client13_defs split: if_splits)
next
  case False
  then show ?thesis
    by (cases "hs s") (auto simp: client_defs split: if_splits)
qed

end
