(* ===== verification/Statem_Server.thy ===== *)
theory Statem_Server
  imports Statem_Types
begin

text \<open>
  The server side of the handshake message flow, \<^verbatim>\<open>ssl/statem/statem_srvr.c\<close>, modelled like the
  client side: read and write transitions, whether a ServerKeyExchange or CertificateRequest is
  sent, and the tables of message constructors, maximum lengths and processing routines.
\<close>

section \<open>Reading\<close>

definition server13_after_finished :: "SSL \<Rightarrow> int \<Rightarrow> OSSL_HANDSHAKE_STATE option" where
  "server13_after_finished s mt =
     (if cert_request (s3 s) then (if mt = SSL3_MT_CERTIFICATE then Some TLS_ST_SR_CERT else None)
      else if mt = SSL3_MT_FINISHED then Some TLS_ST_SR_FINISHED else None)"

definition server13_next :: "SSL \<Rightarrow> int \<Rightarrow> OSSL_HANDSHAKE_STATE option" where
  "server13_next s mt =
     (case hs s of
        TLS_ST_EARLY_DATA \<Rightarrow>
          if hello_retry_request s = SSL_HRR_PENDING
          then (if mt = SSL3_MT_CLIENT_HELLO then Some TLS_ST_SR_CLNT_HELLO else None)
          else if early_data (ext s) = SSL_EARLY_DATA_ACCEPTED
          then (if mt = SSL3_MT_END_OF_EARLY_DATA then Some TLS_ST_SR_END_OF_EARLY_DATA else None)
          else server13_after_finished s mt
      | TLS_ST_SR_END_OF_EARLY_DATA \<Rightarrow> server13_after_finished s mt
      | TLS_ST_SW_FINISHED \<Rightarrow> server13_after_finished s mt
      | TLS_ST_SR_CERT \<Rightarrow>
          if \<not> session_peer s then (if mt = SSL3_MT_FINISHED then Some TLS_ST_SR_FINISHED else None)
          else if mt = SSL3_MT_CERTIFICATE_VERIFY then Some TLS_ST_SR_CERT_VRFY else None
      | TLS_ST_SR_CERT_VRFY \<Rightarrow> if mt = SSL3_MT_FINISHED then Some TLS_ST_SR_FINISHED else None
      | TLS_ST_OK \<Rightarrow>
          if early_data_state s = SSL_EARLY_DATA_READING then None
          else if mt = SSL3_MT_CERTIFICATE \<and> post_handshake_auth s = SSL_PHA_REQUESTED
          then Some TLS_ST_SR_CERT
          else if mt = SSL3_MT_KEY_UPDATE then Some TLS_ST_SR_KEY_UPDATE else None
      | _ \<Rightarrow> None)"

definition ossl_statem_server13_read_transition :: "SSL \<Rightarrow> int \<Rightarrow> bool \<times> SSL" where
  "ossl_statem_server13_read_transition s mt =
     (case server13_next s mt of Some h \<Rightarrow> (True, set_hs h s) | None \<Rightarrow> (False, s))"

text \<open>The message after the ServerHelloDone.\<close>

definition server_after_done :: "SSL \<Rightarrow> int \<Rightarrow> bool \<times> SSL" where
  "server_after_done s mt =
     (if mt = SSL3_MT_CLIENT_KEY_EXCHANGE then
        (if cert_request (s3 s) then
           (if version s = SSL3_VERSION then
              (if has_flag (verify_mode s) SSL_VERIFY_PEER
                  \<and> has_flag (verify_mode s) SSL_VERIFY_FAIL_IF_NO_PEER_CERT
               then (False, ossl_statem_fatal s SSL_AD_HANDSHAKE_FAILURE
                              SSL_R_PEER_DID_NOT_RETURN_A_CERTIFICATE)
               else (True, set_hs TLS_ST_SR_KEY_EXCH s))
            else reject_message s mt)
         else (True, set_hs TLS_ST_SR_KEY_EXCH s))
      else if cert_request (s3 s) \<and> mt = SSL3_MT_CERTIFICATE then (True, set_hs TLS_ST_SR_CERT s)
      else reject_message s mt)"

definition server_after_key_exch :: "SSL \<Rightarrow> int \<Rightarrow> OSSL_HANDSHAKE_STATE option" where
  "server_after_key_exch s mt =
     (if \<not> session_peer s \<or> no_cert_verify (statem s)
      then (if mt = SSL3_MT_CHANGE_CIPHER_SPEC then Some TLS_ST_SR_CHANGE else None)
      else if mt = SSL3_MT_CERTIFICATE_VERIFY then Some TLS_ST_SR_CERT_VRFY else None)"

definition server_next :: "SSL \<Rightarrow> int \<Rightarrow> OSSL_HANDSHAKE_STATE option" where
  "server_next s mt =
     (case hs s of
        TLS_ST_BEFORE \<Rightarrow> if mt = SSL3_MT_CLIENT_HELLO then Some TLS_ST_SR_CLNT_HELLO else None
      | TLS_ST_OK \<Rightarrow> if mt = SSL3_MT_CLIENT_HELLO then Some TLS_ST_SR_CLNT_HELLO else None
      | DTLS_ST_SW_HELLO_VERIFY_REQUEST \<Rightarrow>
          if mt = SSL3_MT_CLIENT_HELLO then Some TLS_ST_SR_CLNT_HELLO else None
      | TLS_ST_SR_CERT \<Rightarrow> if mt = SSL3_MT_CLIENT_KEY_EXCHANGE then Some TLS_ST_SR_KEY_EXCH else None
      | TLS_ST_SR_KEY_EXCH \<Rightarrow> server_after_key_exch s mt
      | TLS_ST_SR_CERT_VRFY \<Rightarrow> if mt = SSL3_MT_CHANGE_CIPHER_SPEC then Some TLS_ST_SR_CHANGE else None
      | TLS_ST_SR_CHANGE \<Rightarrow>
          if npn_seen (s3 s) then (if mt = SSL3_MT_NEXT_PROTO then Some TLS_ST_SR_NEXT_PROTO else None)
          else if mt = SSL3_MT_FINISHED then Some TLS_ST_SR_FINISHED else None
      | TLS_ST_SR_NEXT_PROTO \<Rightarrow> if mt = SSL3_MT_FINISHED then Some TLS_ST_SR_FINISHED else None
      | TLS_ST_SW_FINISHED \<Rightarrow> if mt = SSL3_MT_CHANGE_CIPHER_SPEC then Some TLS_ST_SR_CHANGE else None
      | _ \<Rightarrow> None)"

definition ossl_statem_server_read_transition :: "SSL \<Rightarrow> int \<Rightarrow> bool \<times> SSL" where
  "ossl_statem_server_read_transition s mt =
     (if SSL_IS_TLS13 s then
        (case ossl_statem_server13_read_transition s mt of
           (False, s) \<Rightarrow> reject_message s mt
         | (True, s) \<Rightarrow> (True, s))
      else if hs s = TLS_ST_SW_SRVR_DONE then server_after_done s mt
      else case server_next s mt of
        Some h \<Rightarrow> (True, set_hs h s)
      | None \<Rightarrow> reject_message s mt)"

section \<open>Writing\<close>

definition send_server_key_exchange :: "SSL \<Rightarrow> bool" where
  "send_server_key_exchange s =
     (let alg_k = algorithm_mkey (new_cipher (s3 s)) in
      has_flag alg_k (SSL_kDHE OR SSL_kECDHE)
      \<or> has_flag alg_k (SSL_kPSK OR SSL_kRSAPSK) \<and> psk_identity_hint s
      \<or> has_flag alg_k (SSL_PSK AND (SSL_kDHEPSK OR SSL_kECDHEPSK))
      \<or> has_flag alg_k SSL_kSRP)"

definition send_certificate_request :: "SSL \<Rightarrow> bool" where
  "send_certificate_request s \<longleftrightarrow>
     has_flag (verify_mode s) SSL_VERIFY_PEER
     \<and> (\<not> SSL_IS_TLS13 s \<or> \<not> has_flag (verify_mode s) SSL_VERIFY_POST_HANDSHAKE
         \<or> post_handshake_auth s = SSL_PHA_REQUEST_PENDING)
     \<and> (certreqs_sent s < 1 \<or> \<not> has_flag (verify_mode s) SSL_VERIFY_CLIENT_ONCE)
     \<and> (\<not> has_flag (algorithm_auth (new_cipher (s3 s))) SSL_aNULL
         \<or> has_flag (verify_mode s) SSL_VERIFY_FAIL_IF_NO_PEER_CERT)
     \<and> \<not> has_flag (algorithm_auth (new_cipher (s3 s))) SSL_aSRP
     \<and> \<not> has_flag (algorithm_auth (new_cipher (s3 s))) SSL_aPSK"

definition server13_write_ok :: "SSL \<Rightarrow> WRITE_TRAN \<times> SSL" where
  "server13_write_ok s =
     (if key_update s \<noteq> SSL_KEY_UPDATE_NONE then (WRITE_TRAN_CONTINUE, set_hs TLS_ST_SW_KEY_UPDATE s)
      else if post_handshake_auth s = SSL_PHA_REQUEST_PENDING
      then (WRITE_TRAN_CONTINUE, set_hs TLS_ST_SW_CERT_REQ s)
      else (WRITE_TRAN_FINISHED, s))"

definition server13_write_after_finished :: "SSL \<Rightarrow> WRITE_TRAN \<times> SSL" where
  "server13_write_after_finished s =
     (let tickets = (\<lambda>s. set_hs (if num_tickets s > sent_tickets s then TLS_ST_SW_SESSION_TICKET
                                 else TLS_ST_OK) s) in
      if post_handshake_auth s = SSL_PHA_REQUESTED
      then (WRITE_TRAN_CONTINUE, tickets (s\<lparr>post_handshake_auth := SSL_PHA_EXT_RECEIVED\<rparr>))
      else if \<not> ticket_expected (ext s) then (WRITE_TRAN_CONTINUE, set_hs TLS_ST_OK s)
      else (WRITE_TRAN_CONTINUE, tickets s))"

definition ossl_statem_server13_write_transition :: "SSL \<Rightarrow> WRITE_TRAN \<times> SSL" where
  "ossl_statem_server13_write_transition s =
     (case hs s of
        TLS_ST_OK \<Rightarrow> server13_write_ok s
      | TLS_ST_SR_CLNT_HELLO \<Rightarrow> (WRITE_TRAN_CONTINUE, set_hs TLS_ST_SW_SRVR_HELLO s)
      | TLS_ST_SW_SRVR_HELLO \<Rightarrow>
          (WRITE_TRAN_CONTINUE,
           set_hs (if has_flag (options s) SSL_OP_ENABLE_MIDDLEBOX_COMPAT
                      \<and> hello_retry_request s \<noteq> SSL_HRR_COMPLETE then TLS_ST_SW_CHANGE
                   else if hello_retry_request s = SSL_HRR_PENDING then TLS_ST_EARLY_DATA
                   else TLS_ST_SW_ENCRYPTED_EXTENSIONS) s)
      | TLS_ST_SW_CHANGE \<Rightarrow>
          (WRITE_TRAN_CONTINUE,
           set_hs (if hello_retry_request s = SSL_HRR_PENDING then TLS_ST_EARLY_DATA
                   else TLS_ST_SW_ENCRYPTED_EXTENSIONS) s)
      | TLS_ST_SW_ENCRYPTED_EXTENSIONS \<Rightarrow>
          (WRITE_TRAN_CONTINUE,
           set_hs (if hit s then TLS_ST_SW_FINISHED
                   else if send_certificate_request s then TLS_ST_SW_CERT_REQ
                   else TLS_ST_SW_CERT) s)
      | TLS_ST_SW_CERT_REQ \<Rightarrow>
          if post_handshake_auth s = SSL_PHA_REQUEST_PENDING
          then (WRITE_TRAN_CONTINUE, set_hs TLS_ST_OK (s\<lparr>post_handshake_auth := SSL_PHA_REQUESTED\<rparr>))
          else (WRITE_TRAN_CONTINUE, set_hs TLS_ST_SW_CERT s)
      | TLS_ST_SW_CERT \<Rightarrow> (WRITE_TRAN_CONTINUE, set_hs TLS_ST_SW_CERT_VRFY s)
      | TLS_ST_SW_CERT_VRFY \<Rightarrow> (WRITE_TRAN_CONTINUE, set_hs TLS_ST_SW_FINISHED s)
      | TLS_ST_SW_FINISHED \<Rightarrow> (WRITE_TRAN_CONTINUE, set_hs TLS_ST_EARLY_DATA s)
      | TLS_ST_EARLY_DATA \<Rightarrow> (WRITE_TRAN_FINISHED, s)
      | TLS_ST_SR_FINISHED \<Rightarrow> server13_write_after_finished s
      | TLS_ST_SR_KEY_UPDATE \<Rightarrow> (WRITE_TRAN_CONTINUE, set_hs TLS_ST_OK s)
      | TLS_ST_SW_KEY_UPDATE \<Rightarrow> (WRITE_TRAN_CONTINUE, set_hs TLS_ST_OK s)
      | TLS_ST_SW_SESSION_TICKET \<Rightarrow>
          (WRITE_TRAN_CONTINUE,
           if hit s \<or> num_tickets s \<le> sent_tickets s then set_hs TLS_ST_OK s else s)
      | _ \<Rightarrow> (WRITE_TRAN_ERROR, ossl_statem_fatal s SSL_AD_INTERNAL_ERROR ERR_R_INTERNAL_ERROR))"

definition server_write_ok :: "statem_env \<Rightarrow> SSL \<Rightarrow> WRITE_TRAN \<times> SSL" where
  "server_write_ok e s =
     (if request_state (statem s) = TLS_ST_SW_HELLO_REQ
      then (WRITE_TRAN_CONTINUE,
            s\<lparr>statem := (statem s)\<lparr>hand_state := TLS_ST_SW_HELLO_REQ, request_state := TLS_ST_BEFORE\<rparr>\<rparr>)
      else case tls_setup_handshake e s of
        (False, s) \<Rightarrow> (WRITE_TRAN_ERROR, s)
      | (True, s) \<Rightarrow> (WRITE_TRAN_FINISHED, s))"

definition server_write_after_client_hello :: "SSL \<Rightarrow> WRITE_TRAN \<times> SSL" where
  "server_write_after_client_hello s =
     (WRITE_TRAN_CONTINUE,
      set_hs (if SSL_IS_DTLS s \<and> \<not> cookie_verified s \<and> has_flag (options s) SSL_OP_COOKIE_EXCHANGE
              then DTLS_ST_SW_HELLO_VERIFY_REQUEST
              else if \<not> renegotiate s \<and> \<not> SSL_IS_FIRST_HANDSHAKE s then TLS_ST_OK
              else TLS_ST_SW_SRVR_HELLO) s)"

definition server_write_after_key_exch :: "SSL \<Rightarrow> OSSL_HANDSHAKE_STATE" where
  "server_write_after_key_exch s =
     (if send_certificate_request s then TLS_ST_SW_CERT_REQ else TLS_ST_SW_SRVR_DONE)"

definition server_write_after_cert_status :: "SSL \<Rightarrow> OSSL_HANDSHAKE_STATE" where
  "server_write_after_cert_status s =
     (if send_server_key_exchange s then TLS_ST_SW_KEY_EXCH else server_write_after_key_exch s)"

definition server_write_after_server_hello :: "SSL \<Rightarrow> OSSL_HANDSHAKE_STATE" where
  "server_write_after_server_hello s =
     (if hit s then (if ticket_expected (ext s) then TLS_ST_SW_SESSION_TICKET else TLS_ST_SW_CHANGE)
      else if \<not> has_flag (algorithm_auth (new_cipher (s3 s))) (SSL_aNULL OR SSL_aSRP OR SSL_aPSK)
      then TLS_ST_SW_CERT
      else if send_server_key_exchange s then TLS_ST_SW_KEY_EXCH
      else if send_certificate_request s then TLS_ST_SW_CERT_REQ
      else TLS_ST_SW_SRVR_DONE)"

definition ossl_statem_server_write_transition :: "statem_env \<Rightarrow> SSL \<Rightarrow> WRITE_TRAN \<times> SSL" where
  "ossl_statem_server_write_transition e s =
     (if SSL_IS_TLS13 s then ossl_statem_server13_write_transition s
      else case hs s of
        TLS_ST_OK \<Rightarrow> server_write_ok e s
      | TLS_ST_BEFORE \<Rightarrow> (WRITE_TRAN_FINISHED, s)
      | TLS_ST_SW_HELLO_REQ \<Rightarrow> (WRITE_TRAN_CONTINUE, set_hs TLS_ST_OK s)
      | TLS_ST_SR_CLNT_HELLO \<Rightarrow> server_write_after_client_hello s
      | DTLS_ST_SW_HELLO_VERIFY_REQUEST \<Rightarrow> (WRITE_TRAN_FINISHED, s)
      | TLS_ST_SW_SRVR_HELLO \<Rightarrow> (WRITE_TRAN_CONTINUE, set_hs (server_write_after_server_hello s) s)
      | TLS_ST_SW_CERT \<Rightarrow>
          (WRITE_TRAN_CONTINUE,
           set_hs (if status_expected (ext s) then TLS_ST_SW_CERT_STATUS
                   else server_write_after_cert_status s) s)
      | TLS_ST_SW_CERT_STATUS \<Rightarrow> (WRITE_TRAN_CONTINUE, set_hs (server_write_after_cert_status s) s)
      | TLS_ST_SW_KEY_EXCH \<Rightarrow> (WRITE_TRAN_CONTINUE, set_hs (server_write_after_key_exch s) s)
      | TLS_ST_SW_CERT_REQ \<Rightarrow> (WRITE_TRAN_CONTINUE, set_hs TLS_ST_SW_SRVR_DONE s)
      | TLS_ST_SW_SRVR_DONE \<Rightarrow> (WRITE_TRAN_FINISHED, s)
      | TLS_ST_SR_FINISHED \<Rightarrow>
          (WRITE_TRAN_CONTINUE,
           set_hs (if hit s then TLS_ST_OK
                   else if ticket_expected (ext s) then TLS_ST_SW_SESSION_TICKET
                   else TLS_ST_SW_CHANGE) s)
      | TLS_ST_SW_SESSION_TICKET \<Rightarrow> (WRITE_TRAN_CONTINUE, set_hs TLS_ST_SW_CHANGE s)
      | TLS_ST_SW_CHANGE \<Rightarrow> (WRITE_TRAN_CONTINUE, set_hs TLS_ST_SW_FINISHED s)
      | TLS_ST_SW_FINISHED \<Rightarrow>
          if hit s then (WRITE_TRAN_FINISHED, s) else (WRITE_TRAN_CONTINUE, set_hs TLS_ST_OK s)
      | _ \<Rightarrow> (WRITE_TRAN_ERROR, ossl_statem_fatal s SSL_AD_INTERNAL_ERROR ERR_R_INTERNAL_ERROR))"

section \<open>Message construction and processing tables\<close>

definition ossl_statem_server_construct_message :: "SSL \<Rightarrow> (confunc \<times> int) option \<times> SSL" where
  "ossl_statem_server_construct_message s =
     (case hs s of
        TLS_ST_SW_CHANGE \<Rightarrow>
          (Some (if SSL_IS_DTLS s then dtls_construct_change_cipher_spec else tls_construct_change_cipher_spec,
                 SSL3_MT_CHANGE_CIPHER_SPEC), s)
      | DTLS_ST_SW_HELLO_VERIFY_REQUEST \<Rightarrow>
          (Some (dtls_construct_hello_verify_request, DTLS1_MT_HELLO_VERIFY_REQUEST), s)
      | TLS_ST_SW_HELLO_REQ \<Rightarrow> (Some (no_confunc, SSL3_MT_HELLO_REQUEST), s)
      | TLS_ST_SW_SRVR_HELLO \<Rightarrow> (Some (tls_construct_server_hello, SSL3_MT_SERVER_HELLO), s)
      | TLS_ST_SW_CERT \<Rightarrow> (Some (tls_construct_server_certificate, SSL3_MT_CERTIFICATE), s)
      | TLS_ST_SW_CERT_VRFY \<Rightarrow> (Some (tls_construct_cert_verify, SSL3_MT_CERTIFICATE_VERIFY), s)
      | TLS_ST_SW_KEY_EXCH \<Rightarrow> (Some (tls_construct_server_key_exchange, SSL3_MT_SERVER_KEY_EXCHANGE), s)
      | TLS_ST_SW_CERT_REQ \<Rightarrow> (Some (tls_construct_certificate_request, SSL3_MT_CERTIFICATE_REQUEST), s)
      | TLS_ST_SW_SRVR_DONE \<Rightarrow> (Some (tls_construct_server_done, SSL3_MT_SERVER_DONE), s)
      | TLS_ST_SW_SESSION_TICKET \<Rightarrow> (Some (tls_construct_new_session_ticket, SSL3_MT_NEWSESSION_TICKET), s)
      | TLS_ST_SW_CERT_STATUS \<Rightarrow> (Some (tls_construct_cert_status, SSL3_MT_CERTIFICATE_STATUS), s)
      | TLS_ST_SW_FINISHED \<Rightarrow> (Some (tls_construct_finished, SSL3_MT_FINISHED), s)
      | TLS_ST_EARLY_DATA \<Rightarrow> (Some (no_confunc, SSL3_MT_DUMMY), s)
      | TLS_ST_SW_ENCRYPTED_EXTENSIONS \<Rightarrow>
          (Some (tls_construct_encrypted_extensions, SSL3_MT_ENCRYPTED_EXTENSIONS), s)
      | TLS_ST_SW_KEY_UPDATE \<Rightarrow> (Some (tls_construct_key_update, SSL3_MT_KEY_UPDATE), s)
      | _ \<Rightarrow> (None, ossl_statem_fatal s SSL_AD_INTERNAL_ERROR SSL_R_BAD_HANDSHAKE_STATE))"

definition ossl_statem_server_max_message_size :: "SSL \<Rightarrow> nat" where
  "ossl_statem_server_max_message_size s =
     (case hs s of
        TLS_ST_SR_CLNT_HELLO \<Rightarrow> 131396
      | TLS_ST_SR_END_OF_EARLY_DATA \<Rightarrow> 0
      | TLS_ST_SR_CERT \<Rightarrow> max_cert_list s
      | TLS_ST_SR_KEY_EXCH \<Rightarrow> 2048
      | TLS_ST_SR_CERT_VRFY \<Rightarrow> 16384
      | TLS_ST_SR_NEXT_PROTO \<Rightarrow> 514
      | TLS_ST_SR_CHANGE \<Rightarrow> 1
      | TLS_ST_SR_FINISHED \<Rightarrow> 64
      | TLS_ST_SR_KEY_UPDATE \<Rightarrow> 1
      | _ \<Rightarrow> 0)"

definition ossl_statem_server_process_message :: "SSL \<Rightarrow> msg_handler option \<times> SSL" where
  "ossl_statem_server_process_message s =
     (case hs s of
        TLS_ST_SR_CLNT_HELLO \<Rightarrow> (Some tls_process_client_hello, s)
      | TLS_ST_SR_END_OF_EARLY_DATA \<Rightarrow> (Some tls_process_end_of_early_data, s)
      | TLS_ST_SR_CERT \<Rightarrow> (Some tls_process_client_certificate, s)
      | TLS_ST_SR_KEY_EXCH \<Rightarrow> (Some tls_process_client_key_exchange, s)
      | TLS_ST_SR_CERT_VRFY \<Rightarrow> (Some tls_process_cert_verify, s)
      | TLS_ST_SR_NEXT_PROTO \<Rightarrow> (Some tls_process_next_proto, s)
      | TLS_ST_SR_CHANGE \<Rightarrow> (Some tls_process_change_cipher_spec, s)
      | TLS_ST_SR_FINISHED \<Rightarrow> (Some tls_process_finished, s)
      | TLS_ST_SR_KEY_UPDATE \<Rightarrow> (Some tls_process_key_update, s)
      | _ \<Rightarrow> (None, ossl_statem_fatal s SSL_AD_INTERNAL_ERROR ERR_R_INTERNAL_ERROR))"

definition ossl_statem_server_post_process_message :: "SSL \<Rightarrow> msg_handler option \<times> SSL" where
  "ossl_statem_server_post_process_message s =
     (case hs s of
        TLS_ST_SR_CLNT_HELLO \<Rightarrow> (Some tls_post_process_client_hello, s)
      | TLS_ST_SR_KEY_EXCH \<Rightarrow> (Some tls_post_process_client_key_exchange, s)
      | _ \<Rightarrow> (None, ossl_statem_fatal s SSL_AD_INTERNAL_ERROR ERR_R_INTERNAL_ERROR))"

section \<open>Handshakes before TLS 1.3\<close>

lemmas server_defs = ossl_statem_server_read_transition_def server_next_def server_after_done_def
  server_after_key_exch_def reject_message_def ossl_statem_server_write_transition_def
  server_write_after_client_hello_def server_write_after_key_exch_def server_write_after_cert_status_def
  server_write_after_server_hello_def server_write_ok_def

lemmas server13_defs = ossl_statem_server_read_transition_def ossl_statem_server13_read_transition_def
  server13_next_def server13_after_finished_def reject_message_def ossl_statem_server_write_transition_def
  ossl_statem_server13_write_transition_def server13_write_ok_def server13_write_after_finished_def Let_def

lemma first_handshake_set_hs [simp]: "SSL_IS_FIRST_HANDSHAKE (set_hs h s) = SSL_IS_FIRST_HANDSHAKE s"
  by (simp add: SSL_IS_FIRST_HANDSHAKE_def)

definition server_flow :: "statem_env \<Rightarrow> (SSL \<Rightarrow> SSL \<Rightarrow> bool) \<Rightarrow> SSL \<Rightarrow> flow_event \<Rightarrow> SSL \<Rightarrow> bool" where
  "server_flow e work =
     flow_step ossl_statem_server_read_transition (ossl_statem_server_write_transition e) (\<lambda>_. True) work"

definition server_hello_states :: "OSSL_HANDSHAKE_STATE set" where
  "server_hello_states = {TLS_ST_BEFORE, TLS_ST_SR_CLNT_HELLO, DTLS_ST_SW_HELLO_VERIFY_REQUEST, TLS_ST_SW_SRVR_HELLO}"

definition server_full_states :: "OSSL_HANDSHAKE_STATE set" where
  "server_full_states = {TLS_ST_SW_CERT, TLS_ST_SW_CERT_STATUS, TLS_ST_SW_KEY_EXCH, TLS_ST_SW_CERT_REQ,
     TLS_ST_SW_SRVR_DONE, TLS_ST_SR_CERT, TLS_ST_SR_KEY_EXCH, TLS_ST_SR_CERT_VRFY}"

definition server_resumed_states :: "OSSL_HANDSHAKE_STATE set" where
  "server_resumed_states = {TLS_ST_SW_SESSION_TICKET, TLS_ST_SW_CHANGE, TLS_ST_SW_FINISHED}"

text \<open>The states a server of TLS 1.2 or below is in before it has read a Finished message; \<open>ccs\<close> says
  whether a ChangeCipherSpec was read. The server's own Finished, which sets \<^verbatim>\<open>finish_md_len\<close>, comes
  before the client's only in a resumed handshake; until then this is the first handshake.\<close>

definition server_pending :: "bool \<Rightarrow> SSL \<Rightarrow> bool" where
  "server_pending ccs s \<longleftrightarrow> \<not> SSL_IS_TLS13 s \<and>
     (hs s \<notin> {TLS_ST_SW_FINISHED, TLS_ST_SR_CHANGE, TLS_ST_SR_NEXT_PROTO} \<longrightarrow> finish_md_len (s3 s) = 0) \<and>
     (hs s \<in> server_hello_states \<or> \<not> hit s \<and> hs s \<in> server_full_states
      \<or> hit s \<and> hs s \<in> server_resumed_states
      \<or> (hs s = TLS_ST_SR_CHANGE \<or> hs s = TLS_ST_SR_NEXT_PROTO) \<and> ccs)"

lemma server_pending_read:
  assumes "server_pending ccs s" "ossl_statem_server_read_transition s mt = (True, t)"
  shows "server_pending (ccs \<or> mt = SSL3_MT_CHANGE_CIPHER_SPEC) t \<or> ccs \<and> mt = SSL3_MT_FINISHED"
  using assms
  by (cases "hs s") (auto simp: server_pending_def server_hello_states_def server_full_states_def
      server_resumed_states_def server_defs SSL_IS_FIRST_HANDSHAKE_def split: if_splits option.splits)

lemma server_pending_write:
  assumes "server_pending ccs s" "ossl_statem_server_write_transition e s = (WRITE_TRAN_CONTINUE, t)"
  shows "server_pending ccs t"
  using assms
  by (cases "hs s") (auto simp: server_pending_def server_hello_states_def server_full_states_def
      server_resumed_states_def server_defs SSL_IS_FIRST_HANDSHAKE_def split: if_splits option.splits)

text \<open>What the routines outside the transition functions may change: anything but the handshake
  state and the version; whether a session is resumed is decided with the ClientHello, and the length
  of the own verify data, \<^verbatim>\<open>finish_md_len\<close>, is set only by \<^verbatim>\<open>tls_construct_finished\<close> in the states
  that send a Finished. The client's verify data may be recorded at any time: with the body of its
  Finished in TLS, with the header in DTLS.\<close>

definition server_work :: "SSL \<Rightarrow> SSL \<Rightarrow> bool" where
  "server_work s t \<longleftrightarrow> SSL_IS_TLS13 t = SSL_IS_TLS13 s \<and> (hs s \<notin> server_hello_states \<longrightarrow> hit t = hit s)
     \<and> (finish_md_len (s3 s) = 0 \<longrightarrow> finish_md_len (s3 t) = 0
           \<or> hs s \<in> {TLS_ST_SW_FINISHED, TLS_ST_CW_FINISHED})"

definition server_start :: "SSL \<Rightarrow> bool" where
  "server_start s \<longleftrightarrow> \<not> SSL_IS_TLS13 s \<and> finish_md_len (s3 s) = 0 \<and> hs s = TLS_ST_BEFORE"

lemma server_pending_work:
  assumes "server_pending ccs s" "server_work s t" "hs t = hs s"
  shows "server_pending ccs t"
  using assms
  by (auto simp: server_work_def server_pending_def server_hello_states_def server_full_states_def
      server_resumed_states_def)

interpretation server12: history_invariant server_start "server_flow e server_work"
  "\<lambda>h s. finished_read h \<or> server_pending (ccs_read h) s" for e
proof (unfold_locales, goal_cases)
  case (1 s)
  then show ?case by (simp add: server_start_def server_pending_def server_hello_states_def)
next
  case (2 h s ev t)
  show ?case
  proof (cases "finished_read h")
    case False
    with 2 have p: "server_pending (ccs_read h) s" by simp
    from 2(2) show ?thesis unfolding server_flow_def
    proof (cases rule: flow_step.cases)
      case (flow_read mt)
      then show ?thesis using server_pending_read [OF p] finished_read_snoc(2) [of h]
        by (auto simp: ccs_read_snoc)
    next
      case flow_write
      then show ?thesis using server_pending_write [OF p] by (auto simp: ccs_read_snoc)
    next
      case flow_work
      then show ?thesis using server_pending_work [OF p] by (auto simp: ccs_read_snoc)
    qed
  qed (simp add: finished_read_snoc)
qed

text \<open>
  Before TLS 1.3, in full and in resumed handshakes, over TLS and DTLS: when a server that
  starts in \<^verbatim>\<open>TLS_ST_BEFORE\<close> reaches \<^verbatim>\<open>TLS_ST_OK\<close>, or the state in which it processes a Finished
  message, it has read a ChangeCipherSpec and after it a Finished message.
\<close>

theorem server_finished_before_ok:
  assumes "server_start s" "run (server_flow e server_work) s es t"
    and "hs t = TLS_ST_OK \<or> hs t = TLS_ST_SR_FINISHED"
  shows "subseq [Read SSL3_MT_CHANGE_CIPHER_SPEC, Read SSL3_MT_FINISHED] es"
  using server12.inv_run [OF assms(2,1)] assms(3)
  by (auto simp: finished_read_def server_pending_def server_hello_states_def server_full_states_def
      server_resumed_states_def)

lemma sample_server_run:
  "run (server_flow sample_env work) (fresh_ssl True 0x0303 TLS_ST_BEFORE)
     [Read 1, Write TLS_ST_SW_SRVR_HELLO, Write TLS_ST_SW_CERT, Write TLS_ST_SW_KEY_EXCH, Write TLS_ST_SW_SRVR_DONE,
      Read 16, Read 0x101, Read 20, Write TLS_ST_SW_CHANGE, Write TLS_ST_SW_FINISHED, Write TLS_ST_OK]
     (fresh_ssl True 0x0303 TLS_ST_OK)"
  unfolding server_flow_def
  by (rule exec_flow_run)
    (simp add: server_defs sample_simps SSL_IS_FIRST_HANDSHAKE_def send_server_key_exchange_def
      send_certificate_request_def)

theorem server_finished_before_ok_witness:
  "subseq [Read SSL3_MT_CHANGE_CIPHER_SPEC, Read SSL3_MT_FINISHED]
     [Read 1, Write TLS_ST_SW_SRVR_HELLO, Write TLS_ST_SW_CERT, Write TLS_ST_SW_KEY_EXCH, Write TLS_ST_SW_SRVR_DONE,
      Read 16, Read 0x101, Read 20, Write TLS_ST_SW_CHANGE, Write TLS_ST_SW_FINISHED, Write TLS_ST_OK]"
  by (rule server_finished_before_ok [OF _ sample_server_run])
    (simp_all add: server_start_def sample_simps SSL_IS_FIRST_HANDSHAKE_def)

section \<open>TLS 1.3 handshakes\<close>

text \<open>The states of a TLS 1.3 server before the client's Finished message; the application can ask for
  post-handshake authentication only in \<^verbatim>\<open>TLS_ST_OK\<close>.\<close>

definition server13_pending :: "SSL \<Rightarrow> bool" where
  "server13_pending s \<longleftrightarrow> SSL_IS_TLS13 s \<and> post_handshake_auth s \<noteq> SSL_PHA_REQUEST_PENDING \<and>
     hs s \<in> {TLS_ST_SR_CLNT_HELLO, TLS_ST_SW_SRVR_HELLO, TLS_ST_SW_CHANGE, TLS_ST_SW_ENCRYPTED_EXTENSIONS,
       TLS_ST_SW_CERT_REQ, TLS_ST_SW_CERT, TLS_ST_SW_CERT_VRFY, TLS_ST_SW_FINISHED, TLS_ST_EARLY_DATA,
       TLS_ST_SR_END_OF_EARLY_DATA, TLS_ST_SR_CERT, TLS_ST_SR_CERT_VRFY}"

definition server13_work :: "SSL \<Rightarrow> SSL \<Rightarrow> bool" where
  "server13_work s t \<longleftrightarrow> SSL_IS_TLS13 t = SSL_IS_TLS13 s
     \<and> (post_handshake_auth t = SSL_PHA_REQUEST_PENDING \<longrightarrow>
          post_handshake_auth s = SSL_PHA_REQUEST_PENDING \<or> hs s = TLS_ST_OK)"

definition server13_start :: "SSL \<Rightarrow> bool" where
  "server13_start s \<longleftrightarrow> SSL_IS_TLS13 s \<and> post_handshake_auth s \<noteq> SSL_PHA_REQUEST_PENDING \<and> hs s = TLS_ST_SR_CLNT_HELLO"

lemma server13_pending_read:
  assumes "server13_pending s" "ossl_statem_server_read_transition s mt = (True, t)"
  shows "server13_pending t \<or> mt = SSL3_MT_FINISHED"
  using assms
  by (cases "hs s") (auto simp: server13_pending_def server13_defs split: if_splits option.splits)

lemma server13_pending_write:
  assumes "server13_pending s" "ossl_statem_server_write_transition e s = (WRITE_TRAN_CONTINUE, t)"
  shows "server13_pending t"
  using assms
  by (cases "hs s") (auto simp: server13_pending_def server13_defs split: if_splits option.splits)

lemma server13_pending_work:
  assumes "server13_pending s" "server13_work s t" "hs t = hs s"
  shows "server13_pending t"
  using assms by (auto simp: server13_pending_def server13_work_def)

interpretation server13: history_invariant server13_start "server_flow e server13_work"
  "\<lambda>h s. Read SSL3_MT_FINISHED \<in> set h \<or> server13_pending s" for e
proof (unfold_locales, goal_cases)
  case (1 s)
  then show ?case by (simp add: server13_start_def server13_pending_def)
next
  case (2 h s ev t)
  from 2(2) show ?case unfolding server_flow_def
  proof (cases rule: flow_step.cases)
    case (flow_read mt)
    then show ?thesis using 2(1) server13_pending_read [of s mt t] by auto
  next
    case flow_write
    then show ?thesis using 2(1) server13_pending_write [of s e t] by auto
  next
    case flow_work
    then show ?thesis using 2(1) server13_pending_work [of s t] by auto
  qed
qed

text \<open>
  In TLS 1.3, with or without resumption, early data, a HelloRetryRequest or a certificate
  request: a server that has received the ClientHello reaches \<^verbatim>\<open>TLS_ST_OK\<close> only after it has read
  a Finished message.
\<close>

theorem server13_finished_before_ok:
  assumes "server13_start s" "run (server_flow e server13_work) s es t" "hs t = TLS_ST_OK"
  shows "Read SSL3_MT_FINISHED \<in> set es"
  using server13.inv_run [OF assms(2,1)] assms(3) by (auto simp: server13_pending_def)

lemma sample_server13_run:
  "run (server_flow sample_env work) (fresh_ssl True 0x0304 TLS_ST_SR_CLNT_HELLO)
     [Write TLS_ST_SW_SRVR_HELLO, Write TLS_ST_SW_ENCRYPTED_EXTENSIONS, Write TLS_ST_SW_CERT,
      Write TLS_ST_SW_CERT_VRFY, Write TLS_ST_SW_FINISHED, Write TLS_ST_EARLY_DATA, Read 20, Write TLS_ST_OK]
     (fresh_ssl True 0x0304 TLS_ST_OK)"
  unfolding server_flow_def
  by (rule exec_flow_run) (simp add: server13_defs sample_simps send_certificate_request_def)

theorem server13_finished_before_ok_witness:
  "Read SSL3_MT_FINISHED \<in> set
     [Write TLS_ST_SW_SRVR_HELLO, Write TLS_ST_SW_ENCRYPTED_EXTENSIONS, Write TLS_ST_SW_CERT,
      Write TLS_ST_SW_CERT_VRFY, Write TLS_ST_SW_FINISHED, Write TLS_ST_EARLY_DATA, Read 20, Write TLS_ST_OK]"
  by (rule server13_finished_before_ok [OF _ sample_server13_run])
    (simp_all add: server13_start_def sample_simps)

section \<open>Client authentication\<close>

text \<open>The client's certificate was accepted and must be proved: the peer is set and the certificate
  verify message is not waived.\<close>

definition client_cert_given :: "SSL \<Rightarrow> bool" where
  "client_cert_given s \<longleftrightarrow> session_peer s \<and> \<not> no_cert_verify (statem s)"

text \<open>What the routines do to the two flags: the peer's certificate is not dropped while its proof is
  awaited, and the waiver \<^verbatim>\<open>no_cert_verify\<close> is set only while the client's key exchange is processed
  (\<^verbatim>\<open>tls_process_cke_gost\<close>, where the key of the certificate is the one used for the key exchange) and
  never taken back.\<close>

definition cert_work :: "SSL \<Rightarrow> SSL \<Rightarrow> bool" where
  "cert_work s t \<longleftrightarrow> SSL_IS_TLS13 t = SSL_IS_TLS13 s
     \<and> (hs s \<in> {TLS_ST_SR_CERT, TLS_ST_SR_KEY_EXCH} \<and> session_peer s \<longrightarrow> session_peer t)
     \<and> (no_cert_verify (statem s) \<longrightarrow> no_cert_verify (statem t))
     \<and> (no_cert_verify (statem t) \<longrightarrow> no_cert_verify (statem s) \<or> hs s = TLS_ST_SR_KEY_EXCH)"

definition cert_start :: "SSL \<Rightarrow> bool" where
  "cert_start s \<longleftrightarrow> client_cert_given s \<and> hs s = TLS_ST_SR_CERT"

definition cert_unverified :: "flow_event list \<Rightarrow> SSL \<Rightarrow> bool" where
  "cert_unverified h s \<longleftrightarrow> client_cert_given s \<and>
     (hs s = TLS_ST_SR_CERT \<or>
      hs s = TLS_ST_SR_KEY_EXCH \<and> \<not> SSL_IS_TLS13 s \<and> Read SSL3_MT_CLIENT_KEY_EXCHANGE \<in> set h)"

definition cert_waived :: "flow_event list \<Rightarrow> SSL \<Rightarrow> bool" where
  "cert_waived h s \<longleftrightarrow> \<not> SSL_IS_TLS13 s \<and> no_cert_verify (statem s) \<and> Read SSL3_MT_CLIENT_KEY_EXCHANGE \<in> set h"

lemma server_read_keeps:
  assumes "ossl_statem_server_read_transition s mt = (True, t)"
  shows "no_cert_verify (statem t) = no_cert_verify (statem s)" "SSL_IS_TLS13 t = SSL_IS_TLS13 s"
  using assms by (auto simp: server_defs server13_defs split: if_splits option.splits)

lemma server_write_keeps:
  assumes "ossl_statem_server_write_transition e s = (WRITE_TRAN_CONTINUE, t)"
  shows "no_cert_verify (statem t) = no_cert_verify (statem s)" "SSL_IS_TLS13 t = SSL_IS_TLS13 s"
  using assms
  by (cases "SSL_IS_TLS13 s"; cases "hs s"; auto simp: server_defs server13_defs split: if_splits prod.splits bool.splits)+

lemma cert_unverified_read:
  assumes "cert_unverified h s" "ossl_statem_server_read_transition s mt = (True, t)"
  shows "cert_unverified (h @ [Read mt]) t \<or> mt = SSL3_MT_CERTIFICATE_VERIFY"
  using assms
  by (auto simp: cert_unverified_def client_cert_given_def server_defs server13_defs split: if_splits option.splits)

lemma cert_unverified_write:
  assumes "cert_unverified h s" "ossl_statem_server_write_transition e s = (WRITE_TRAN_CONTINUE, t)"
  shows "cert_unverified (h @ [ev]) t"
  using assms
  by (auto simp: cert_unverified_def server_defs server13_defs split: if_splits)

lemma cert_unverified_work:
  assumes "cert_unverified h s" "cert_work s t" "hs t = hs s"
  shows "cert_unverified (h @ [ev]) t \<or> cert_waived (h @ [ev]) t"
  using assms by (auto simp: cert_unverified_def cert_waived_def cert_work_def client_cert_given_def)

lemma cert_waived_step:
  assumes "cert_waived h s" "flow_step ossl_statem_server_read_transition (ossl_statem_server_write_transition e)
    (\<lambda>_. True) cert_work s ev t"
  shows "cert_waived (h @ [ev]) t"
  using assms(2,1)
  by (cases rule: flow_step.cases)
    (auto simp: cert_waived_def cert_work_def server_read_keeps server_write_keeps)

interpretation client_cert: history_invariant cert_start "server_flow e cert_work"
  "\<lambda>h s. Read SSL3_MT_CERTIFICATE_VERIFY \<in> set h \<or> cert_unverified h s \<or> cert_waived h s" for e
proof (unfold_locales, goal_cases)
  case (1 s)
  then show ?case by (simp add: cert_start_def cert_unverified_def)
next
  case (2 h s ev t)
  then have step: "flow_step ossl_statem_server_read_transition (ossl_statem_server_write_transition e)
    (\<lambda>_. True) cert_work s ev t" by (simp add: server_flow_def)
  then show ?case
  proof (cases rule: flow_step.cases)
    case (flow_read mt)
    then show ?thesis using 2(1) cert_unverified_read [of h s mt t] cert_waived_step [OF _ step] by auto
  next
    case flow_write
    then show ?thesis using 2(1) cert_unverified_write [of h s e t] cert_waived_step [OF _ step] by auto
  next
    case flow_work
    then show ?thesis using 2(1) cert_unverified_work [of h s t] cert_waived_step [OF _ step] by auto
  qed
qed

text \<open>
  C26. Proof of possession by clients, in every version: from the moment a server has accepted a
  client's certificate, and as long as the proof has not been waived, it gets past the certificate and
  key exchange states only after it has read a CertificateVerify message, or after the client's key
  exchange, before TLS 1.3, has set the waiver \<^verbatim>\<open>no_cert_verify\<close> (as the processing of a GOST key
  exchange does that uses the key of the certificate). In TLS 1.3 there is no such exception.
\<close>

theorem server_client_cert_verified:
  assumes "cert_start s" "run (server_flow e cert_work) s es t"
    and "hs t \<noteq> TLS_ST_SR_CERT" "hs t \<noteq> TLS_ST_SR_KEY_EXCH"
  shows "Read SSL3_MT_CERTIFICATE_VERIFY \<in> set es \<or>
    \<not> SSL_IS_TLS13 t \<and> no_cert_verify (statem t) \<and> Read SSL3_MT_CLIENT_KEY_EXCHANGE \<in> set es"
  using client_cert.inv_run [OF assms(2,1)] assms(3,4) by (auto simp: cert_unverified_def cert_waived_def)

lemma sample_cert_run:
  "run (server_flow sample_env work) ((fresh_ssl True 0x0303 TLS_ST_SR_CERT)\<lparr>session_peer := True\<rparr>)
     [Read 16, Read 15, Read 0x101] ((fresh_ssl True 0x0303 TLS_ST_SR_CHANGE)\<lparr>session_peer := True\<rparr>)"
  unfolding server_flow_def
  by (rule exec_flow_run) (simp add: server_defs sample_simps)

text \<open>A run in which the key exchange sets the waiver.\<close>

abbreviation waived_ssl :: "OSSL_HANDSHAKE_STATE \<Rightarrow> SSL" where
  "waived_ssl h \<equiv> (fresh_ssl True 0x0303 h)\<lparr>session_peer := True,
     statem := (statem (fresh_ssl True 0x0303 h))\<lparr>no_cert_verify := True\<rparr>\<rparr>"

lemma sample_waived_run:
  "run (server_flow sample_env cert_work) ((fresh_ssl True 0x0303 TLS_ST_SR_CERT)\<lparr>session_peer := True\<rparr>)
     [Read 16, Work, Read 0x101] (waived_ssl TLS_ST_SR_CHANGE)"
  unfolding server_flow_def
proof (intro run_cons flow_read flow_work run_nil)
  show "ossl_statem_server_read_transition ((fresh_ssl True 0x0303 TLS_ST_SR_CERT)\<lparr>session_peer := True\<rparr>) 16 =
      (True, (fresh_ssl True 0x0303 TLS_ST_SR_KEY_EXCH)\<lparr>session_peer := True\<rparr>)"
    by (simp add: server_defs sample_simps)
  show "cert_work ((fresh_ssl True 0x0303 TLS_ST_SR_KEY_EXCH)\<lparr>session_peer := True\<rparr>) (waived_ssl TLS_ST_SR_KEY_EXCH)"
    "hs (waived_ssl TLS_ST_SR_KEY_EXCH) = hs ((fresh_ssl True 0x0303 TLS_ST_SR_KEY_EXCH)\<lparr>session_peer := True\<rparr>)"
    by (simp_all add: cert_work_def sample_simps)
  show "ossl_statem_server_read_transition (waived_ssl TLS_ST_SR_KEY_EXCH) 0x101 = (True, waived_ssl TLS_ST_SR_CHANGE)"
    by (simp add: server_defs sample_simps)
qed (rule run_nil)

theorem server_client_cert_verified_witness:
  "(Read SSL3_MT_CERTIFICATE_VERIFY \<in> set [Read 16, Read 15, Read 0x101] \<or>
     \<not> SSL_IS_TLS13 ((fresh_ssl True 0x0303 TLS_ST_SR_CHANGE)\<lparr>session_peer := True\<rparr>)
     \<and> no_cert_verify (statem ((fresh_ssl True 0x0303 TLS_ST_SR_CHANGE)\<lparr>session_peer := True\<rparr>))
     \<and> Read SSL3_MT_CLIENT_KEY_EXCHANGE \<in> set [Read 16, Read 15, Read 0x101])
   \<and> \<not> SSL_IS_TLS13 (waived_ssl TLS_ST_SR_CHANGE) \<and> no_cert_verify (statem (waived_ssl TLS_ST_SR_CHANGE))"
proof
  have start: "cert_start ((fresh_ssl True 0x0303 TLS_ST_SR_CERT)\<lparr>session_peer := True\<rparr>)"
    by (simp add: cert_start_def client_cert_given_def sample_simps)
  show "Read SSL3_MT_CERTIFICATE_VERIFY \<in> set [Read 16, Read 15, Read 0x101] \<or>
     \<not> SSL_IS_TLS13 ((fresh_ssl True 0x0303 TLS_ST_SR_CHANGE)\<lparr>session_peer := True\<rparr>)
     \<and> no_cert_verify (statem ((fresh_ssl True 0x0303 TLS_ST_SR_CHANGE)\<lparr>session_peer := True\<rparr>))
     \<and> Read SSL3_MT_CLIENT_KEY_EXCHANGE \<in> set [Read 16, Read 15, Read 0x101]"
    by (rule server_client_cert_verified [OF start sample_cert_run]) (simp_all add: sample_simps)
  show "\<not> SSL_IS_TLS13 (waived_ssl TLS_ST_SR_CHANGE) \<and> no_cert_verify (statem (waived_ssl TLS_ST_SR_CHANGE))"
    using server_client_cert_verified [OF start sample_waived_run] by (simp add: sample_simps)
qed

section \<open>Rejection and tables\<close>

text \<open>
  A message the server's read transition refuses leaves the handshake state as it was; an
  out-of-order DTLS ChangeCipherSpec is dropped, every other message puts the connection into the
  error state with an alert-raising error: unexpected message, or the missing certificate of an
  SSL 3 client that must present one.
\<close>

theorem server_rejects_unexpected:
  assumes "ossl_statem_server_read_transition s mt = (False, t)"
  shows "hs t = hs s \<and>
    (if SSL_IS_DTLS s \<and> mt = SSL3_MT_CHANGE_CIPHER_SPEC
     then state (statem t) = state (statem s) \<and> errors t = errors s \<and> init_num t = 0
     else state (statem t) = MSG_FLOW_ERROR \<and> in_init (statem t)
       \<and> last (errors t) \<in> {SSL_R_UNEXPECTED_MESSAGE, SSL_R_PEER_DID_NOT_RETURN_A_CERTIFICATE})"
proof (cases "SSL_IS_TLS13 s")
  case True
  then have "\<not> SSL_IS_DTLS s" by (simp add: SSL_IS_TLS13_def)
  then show ?thesis using assms True
    by (auto simp: ossl_statem_server_read_transition_def ossl_statem_server13_read_transition_def
        reject_message_def split: if_splits option.splits)
next
  case False
  then show ?thesis using assms
    by (auto simp: ossl_statem_server_read_transition_def server_after_done_def reject_message_def
        split: if_splits option.splits)
qed

theorem server_rejects_unexpected_witness:
  "hs (snd (ossl_statem_server_read_transition (fresh_ssl True 0x0303 TLS_ST_BEFORE) 20)) = TLS_ST_BEFORE"
  using server_rejects_unexpected [of "fresh_ssl True 0x0303 TLS_ST_BEFORE" 20
    "snd (ossl_statem_server_read_transition (fresh_ssl True 0x0303 TLS_ST_BEFORE) 20)"]
  by (simp add: server_defs sample_simps)

lemma server_read_states:
  assumes "ossl_statem_server_read_transition s mt = (True, t)"
  shows "hs t \<in> {TLS_ST_SR_CLNT_HELLO, TLS_ST_SR_END_OF_EARLY_DATA, TLS_ST_SR_CERT, TLS_ST_SR_KEY_EXCH,
    TLS_ST_SR_CERT_VRFY, TLS_ST_SR_NEXT_PROTO, TLS_ST_SR_CHANGE, TLS_ST_SR_FINISHED, TLS_ST_SR_KEY_UPDATE}"
proof (cases "SSL_IS_TLS13 s")
  case True
  then show ?thesis using assms
    by (cases "hs s") (auto simp: server13_defs split: if_splits option.splits)
next
  case False
  then show ?thesis using assms
    by (cases "hs s") (auto simp: server_defs split: if_splits option.splits)
qed

lemma server_write_states:
  assumes "ossl_statem_server_write_transition e s = (WRITE_TRAN_CONTINUE, t)"
  shows "hs t \<in> {TLS_ST_OK, TLS_ST_SW_CHANGE, DTLS_ST_SW_HELLO_VERIFY_REQUEST, TLS_ST_SW_HELLO_REQ, TLS_ST_SW_SRVR_HELLO,
    TLS_ST_SW_CERT, TLS_ST_SW_CERT_VRFY, TLS_ST_SW_KEY_EXCH, TLS_ST_SW_CERT_REQ, TLS_ST_SW_SRVR_DONE,
    TLS_ST_SW_SESSION_TICKET, TLS_ST_SW_CERT_STATUS, TLS_ST_SW_FINISHED, TLS_ST_EARLY_DATA,
    TLS_ST_SW_ENCRYPTED_EXTENSIONS, TLS_ST_SW_KEY_UPDATE}"
proof (cases "SSL_IS_TLS13 s")
  case True
  then show ?thesis using assms
    by (cases "hs s") (auto simp: server13_defs split: if_splits)
next
  case False
  then show ?thesis using assms
    by (cases "hs s") (auto simp: server_defs split: if_splits prod.splits bool.splits)
qed

text \<open>
  The ``shouldn't happen'' cases of the server's tables do not happen: every accepted message
  has a processing routine, and every state the write transition moves to has an entry in the
  table of message constructors, except the one that ends the handshake.
\<close>

theorem server_messages_have_handlers:
  "(ossl_statem_server_read_transition s mt = (True, t) \<longrightarrow>
      (\<exists>f. ossl_statem_server_process_message t = (Some f, t)))
   \<and> (ossl_statem_server_write_transition e s = (WRITE_TRAN_CONTINUE, t) \<longrightarrow>
      hs t = TLS_ST_OK \<or> (\<exists>f mt. ossl_statem_server_construct_message t = (Some (f, mt), t)))"
  using server_read_states [of s mt t] server_write_states [of e s t]
  by (auto simp: ossl_statem_server_process_message_def ossl_statem_server_construct_message_def)

theorem server_messages_have_handlers_witness:
  "(\<exists>f. ossl_statem_server_process_message (fresh_ssl True 0x0303 TLS_ST_SR_CLNT_HELLO) = (Some f, fresh_ssl True 0x0303 TLS_ST_SR_CLNT_HELLO))
   \<and> (\<exists>f mt. ossl_statem_server_construct_message (fresh_ssl True 0x0303 TLS_ST_SW_SRVR_HELLO) = (Some (f, mt), fresh_ssl True 0x0303 TLS_ST_SW_SRVR_HELLO))"
  using server_messages_have_handlers [of "fresh_ssl True 0x0303 TLS_ST_BEFORE" 1 "fresh_ssl True 0x0303 TLS_ST_SR_CLNT_HELLO" sample_env]
    server_messages_have_handlers [of "fresh_ssl True 0x0303 TLS_ST_SR_CLNT_HELLO" 1 "fresh_ssl True 0x0303 TLS_ST_SW_SRVR_HELLO" sample_env]
  by (simp add: server_defs sample_simps SSL_IS_FIRST_HANDSHAKE_def)

end
