(* ===== verification/Statem_Loop.thy ===== *)
theory Statem_Loop
  imports Statem_Client Statem_Server
begin

text \<open>
  The loops that drive a handshake, \<^verbatim>\<open>state_machine\<close> and its two sub-state machines in
  \<^verbatim>\<open>ssl/statem/statem.c\<close>, with the work either side does before and after it sends a message
  (\<^verbatim>\<open>statem_clnt.c\<close>, \<^verbatim>\<open>statem_srvr.c\<close>), \<^verbatim>\<open>tls_finish_handshake\<close> of \<^verbatim>\<open>statem_lib.c\<close> and \<^verbatim>\<open>SSL_clear\<close> of
  \<^verbatim>\<open>ssl_lib.c\<close>. The loops call the transition functions of the two sides. Everything else they
  call (I/O, key derivation, timers, the bodies of messages) is a field of the record \<open>routines\<close>: a
  function of the connection and of a world of any type \<open>'w\<close> that it may change. A history variable
  records the messages accepted and the states entered to write, in order; nothing reads it.
\<close>

section \<open>Routines outside the loops\<close>

datatype SUB_STATE_RETURN = SUB_STATE_ERROR | SUB_STATE_FINISHED | SUB_STATE_END_HANDSHAKE

datatype MSG_PROCESS_RETURN =
    MSG_PROCESS_ERROR | MSG_PROCESS_FINISHED_READING | MSG_PROCESS_CONTINUE_PROCESSING
  | MSG_PROCESS_CONTINUE_READING

abbreviation "SSL3_VERSION_MAJOR \<equiv> 3 :: int"
abbreviation "SSL3_RT_MAX_PLAIN_LENGTH \<equiv> 16384 :: nat"
abbreviation "SSL3_HM_HEADER_LENGTH \<equiv> 4 :: nat"
abbreviation "TLS1_FLAGS_STATELESS \<equiv> 0x0800 :: u32"
abbreviation "SSL_SESS_CACHE_CLIENT \<equiv> 1 :: u32"
abbreviation "SSL_SESS_CACHE_SERVER \<equiv> 2 :: u32"
abbreviation "SSL3_CC_WRITE \<equiv> 2 :: u32"
abbreviation "SSL3_CC_EARLY \<equiv> 0x40 :: u32"
abbreviation "SSL3_CC_HANDSHAKE \<equiv> 0x80 :: u32"
abbreviation "SSL3_CC_APPLICATION \<equiv> 0x100 :: u32"
abbreviation "SSL3_CHANGE_CIPHER_CLIENT_WRITE \<equiv> 0x12 :: u32"
abbreviation "SSL3_CHANGE_CIPHER_SERVER_READ \<equiv> 0x21 :: u32"
abbreviation "SSL3_CHANGE_CIPHER_SERVER_WRITE \<equiv> 0x22 :: u32"
abbreviation "SSL_CB_HANDSHAKE_START \<equiv> 0x10 :: int"
abbreviation "SSL_CB_HANDSHAKE_DONE \<equiv> 0x20 :: int"
abbreviation "SSL_CB_CONNECT_LOOP \<equiv> 0x1001 :: int"
abbreviation "SSL_CB_CONNECT_EXIT \<equiv> 0x1002 :: int"
abbreviation "SSL_CB_ACCEPT_LOOP \<equiv> 0x2001 :: int"
abbreviation "SSL_CB_ACCEPT_EXIT \<equiv> 0x2002 :: int"
abbreviation "SSL_ERROR_SYSCALL \<equiv> 5 :: int"

text \<open>The calls whose result is an \<^verbatim>\<open>int\<close>, or that return nothing.\<close>

datatype EXT_CALL =
    ERR_clear_error | clear_sys_error | get_last_sys_error | SSL_get_error
  | ssl_clear_session | clear_ciphers | method_ssl_clear | RECORD_LAYER_clear
  | ssl_security_version | BUF_MEM_new | BUF_MEM_grow nat | BUF_MEM_grow_clean nat
  | ssl3_setup_buffers | ssl_init_wbio_buffer | ssl_free_wbio_buffer
  | dtls1_start_timer | dtls1_stop_timer | dtls1_clear_sent_buffer | dtls1_clear_received_buffer
  | dtls1_reset_seq_numbers u32 | dtls1_do_write_ccs | ssl3_do_write_ccs | ssl_do_write | BIO_flush
  | WPACKET_init | WPACKET_finish | WPACKET_cleanup | ssl_set_handshake_header int
  | construct_message confunc | ssl_close_construct_packet int
  | setup_key_block | change_cipher_state u32 | tls13_change_cipher_state u32 | generate_master_secret
  | tls_client_key_exchange_post_work | tls13_save_handshake_digest_for_pha | tls13_update_key
  | ssl3_cleanup_key_block | ssl_update_cache u32 | SSL_CTX_remove_session

type_synonym ('w, 'a) routine = "SSL \<Rightarrow> 'w \<Rightarrow> 'a \<times> SSL \<times> 'w"

record 'w routines =
  ext_call :: "EXT_CALL \<Rightarrow> ('w, int) routine"
  tls_get_message_header :: "('w, int option) routine"
  tls_get_message_body :: "('w, nat option) routine"
  dtls_get_message :: "('w, (int \<times> nat) option) routine"
  msg_process :: "msg_handler \<Rightarrow> nat \<Rightarrow> ('w, MSG_PROCESS_RETURN) routine"
  msg_post_process :: "msg_handler \<Rightarrow> WORK_STATE \<Rightarrow> ('w, WORK_STATE) routine"
  info_callback :: "int \<Rightarrow> int \<Rightarrow> SSL \<Rightarrow> 'w \<Rightarrow> 'w"

record 'w conn =
  ssl :: SSL
  world :: 'w
  trace :: "flow_event list"

definition invoke :: "('w, 'a) routine \<Rightarrow> 'w conn \<Rightarrow> 'a \<times> 'w conn" where
  "invoke f c = (case f (ssl c) (world c) of (r, s, w) \<Rightarrow> (r, c\<lparr>ssl := s, world := w\<rparr>))"

definition call :: "'w routines \<Rightarrow> EXT_CALL \<Rightarrow> 'w conn \<Rightarrow> int \<times> 'w conn" where
  "call R f c = invoke (ext_call R f) c"

definition on_ssl :: "(SSL \<Rightarrow> SSL) \<Rightarrow> 'w conn \<Rightarrow> 'w conn" where
  "on_ssl f c = c\<lparr>ssl := f (ssl c)\<rparr>"

definition on_statem :: "(OSSL_STATEM \<Rightarrow> OSSL_STATEM) \<Rightarrow> 'w conn \<Rightarrow> 'w conn" where
  "on_statem f = on_ssl (\<lambda>s. s\<lparr>statem := f (statem s)\<rparr>)"

text \<open>The information callback gets the connection as \<^verbatim>\<open>const\<close>; an unset one does nothing.\<close>

definition notify :: "'w routines \<Rightarrow> int \<Rightarrow> int \<Rightarrow> 'w conn \<Rightarrow> 'w conn" where
  "notify R type val c = c\<lparr>world := info_callback R type val (ssl c) (world c)\<rparr>"

definition SSLfatal :: "'w conn \<Rightarrow> ALERT \<Rightarrow> REASON \<Rightarrow> 'w conn" where
  "SSLfatal c al reason = on_ssl (\<lambda>s. ossl_statem_fatal s al reason) c"

section \<open>Work before and after messages\<close>

definition statem_flush :: "'w routines \<Rightarrow> 'w conn \<Rightarrow> bool \<times> 'w conn" where
  "statem_flush R c =
     (let c = on_ssl (\<lambda>s. s\<lparr>rwstate := SSL_WRITING\<rparr>) c;
          (r, c) = call R BIO_flush c
      in if r \<le> 0 then (False, c) else (True, on_ssl (\<lambda>s. s\<lparr>rwstate := SSL_NOTHING\<rparr>) c))"

text \<open>The buffers that \<^verbatim>\<open>tls_finish_handshake\<close> frees, and the end of a handshake that had a Finished
  message.\<close>

definition finish_clear_buffers :: "'w routines \<Rightarrow> 'w conn \<Rightarrow> bool \<times> 'w conn" where
  "finish_clear_buffers R c =
     (let c = (if \<not> SSL_IS_DTLS (ssl c) then on_ssl (\<lambda>s. s\<lparr>init_buf := False\<rparr>) c else c);
          (r, c) = call R ssl_free_wbio_buffer c
      in if r = 0 then (False, SSLfatal c SSL_AD_INTERNAL_ERROR ERR_R_INTERNAL_ERROR)
         else (True, on_ssl (\<lambda>s. s\<lparr>init_num := 0\<rparr>) c))"

definition finish_server :: "'w routines \<Rightarrow> 'w conn \<Rightarrow> 'w conn" where
  "finish_server R c =
     (let c = (if \<not> SSL_IS_TLS13 (ssl c) then snd (call R (ssl_update_cache SSL_SESS_CACHE_SERVER) c) else c)
      in on_ssl (\<lambda>s. s\<lparr>stats := (stats s)\<lparr>sess_accept_good := sess_accept_good (stats s) + 1\<rparr>,
           handshake_func := handshake_accept\<rparr>) c)"

definition finish_client :: "'w routines \<Rightarrow> 'w conn \<Rightarrow> 'w conn" where
  "finish_client R c =
     (let c = (if SSL_IS_TLS13 (ssl c)
               then (if has_flag (session_cache_mode (ssl c)) SSL_SESS_CACHE_CLIENT
                     then snd (call R SSL_CTX_remove_session c) else c)
               else snd (call R (ssl_update_cache SSL_SESS_CACHE_CLIENT) c));
          c = (if hit (ssl c)
               then on_ssl (\<lambda>s. s\<lparr>stats := (stats s)\<lparr>sess_hit := sess_hit (stats s) + 1\<rparr>\<rparr>) c else c)
      in on_ssl (\<lambda>s. s\<lparr>handshake_func := handshake_connect,
           stats := (stats s)\<lparr>sess_connect_good := sess_connect_good (stats s) + 1\<rparr>\<rparr>) c)"

definition finish_cleanup :: "'w routines \<Rightarrow> 'w conn \<Rightarrow> 'w conn" where
  "finish_cleanup R c =
     (let c = on_ssl (\<lambda>s. s\<lparr>renegotiate := False, new_session := False,
            statem := (statem s)\<lparr>cleanuphand := False\<rparr>, ext := (ext s)\<lparr>ticket_expected := False\<rparr>\<rparr>) c;
          c = snd (call R ssl3_cleanup_key_block c);
          c = (if server (ssl c) then finish_server R c else finish_client R c)
      in if SSL_IS_DTLS (ssl c)
         then let c = on_ssl (\<lambda>s. s\<lparr>d1 := \<lparr>handshake_write_seq = 0, next_handshake_write_seq = 0,
                handshake_read_seq = 0\<rparr>\<rparr>) c
              in snd (call R dtls1_clear_received_buffer c)
         else c)"

text \<open>\<open>ch\<close> is the value \<^verbatim>\<open>cleanuphand\<close> had on entry. The callback may expect not to be in initialisation.\<close>

definition finish_init :: "'w routines \<Rightarrow> bool \<Rightarrow> bool \<Rightarrow> 'w conn \<Rightarrow> WORK_STATE \<times> 'w conn" where
  "finish_init R ch stop c =
     (let c = on_ssl (\<lambda>s. ossl_statem_set_in_init s False) c;
          c = (if ch \<or> \<not> SSL_IS_TLS13 (ssl c) \<or> SSL_IS_FIRST_HANDSHAKE (ssl c)
               then notify R SSL_CB_HANDSHAKE_DONE 1 c else c)
      in if \<not> stop then (WORK_FINISHED_CONTINUE, on_ssl (\<lambda>s. ossl_statem_set_in_init s True) c)
         else (WORK_FINISHED_STOP, c))"

definition tls_finish_handshake :: "'w routines \<Rightarrow> bool \<Rightarrow> bool \<Rightarrow> 'w conn \<Rightarrow> WORK_STATE \<times> 'w conn" where
  "tls_finish_handshake R clearbufs stop c =
     (let ch = cleanuphand (statem (ssl c));
          (ok, c) = (if clearbufs then finish_clear_buffers R c else (True, c))
      in if \<not> ok then (WORK_ERROR, c)
      else let
        c = (if SSL_IS_TLS13 (ssl c) \<and> \<not> server (ssl c) \<and> post_handshake_auth (ssl c) = SSL_PHA_REQUESTED
             then on_ssl (\<lambda>s. s\<lparr>post_handshake_auth := SSL_PHA_EXT_SENT\<rparr>) c else c);
        c = (if ch then finish_cleanup R c else c)
      in finish_init R ch stop c)"

text \<open>A call that has already raised the error when it fails, and one whose flush may have to be
  repeated.\<close>

definition or_error :: "'w routines \<Rightarrow> EXT_CALL \<Rightarrow> ('w conn \<Rightarrow> WORK_STATE \<times> 'w conn) \<Rightarrow> 'w conn \<Rightarrow> WORK_STATE \<times> 'w conn" where
  "or_error R f k c = (let (r, c) = call R f c in if r = 0 then (WORK_ERROR, c) else k c)"

definition or_retry :: "'w routines \<Rightarrow> WORK_STATE \<Rightarrow> ('w conn \<Rightarrow> WORK_STATE \<times> 'w conn) \<Rightarrow> 'w conn \<Rightarrow> WORK_STATE \<times> 'w conn" where
  "or_retry R again k c = (let (ok, c) = statem_flush R c in if ok then k c else (again, c))"

definition work_done :: "'w conn \<Rightarrow> WORK_STATE \<times> 'w conn" where
  "work_done c = (WORK_FINISHED_CONTINUE, c)"

definition init_finished_mac :: "statem_env \<Rightarrow> ('w conn \<Rightarrow> WORK_STATE \<times> 'w conn) \<Rightarrow> 'w conn \<Rightarrow> WORK_STATE \<times> 'w conn" where
  "init_finished_mac e k c =
     (let (ok, s) = ssl3_init_finished_mac e (ssl c); c = c\<lparr>ssl := s\<rparr> in if ok then k c else (WORK_ERROR, c))"

definition ossl_statem_client_pre_work :: "statem_env \<Rightarrow> 'w routines \<Rightarrow> WORK_STATE \<Rightarrow> 'w conn \<Rightarrow> WORK_STATE \<times> 'w conn" where
  "ossl_statem_client_pre_work e R wst c =
     (case hs (ssl c) of
        TLS_ST_CW_CLNT_HELLO \<Rightarrow>
          let c = on_ssl (\<lambda>s. s\<lparr>shutdown := 0\<rparr>) c in
          if SSL_IS_DTLS (ssl c) then init_finished_mac e work_done c else work_done c
      | TLS_ST_CW_CHANGE \<Rightarrow>
          work_done (if SSL_IS_DTLS (ssl c) \<and> hit (ssl c) then on_statem (\<lambda>st. st\<lparr>use_timer := False\<rparr>) c else c)
      | TLS_ST_PENDING_EARLY_DATA_END \<Rightarrow>
          if early_data_state (ssl c) = SSL_EARLY_DATA_FINISHED_WRITING
            \<or> early_data_state (ssl c) = SSL_EARLY_DATA_NONE
          then work_done c else tls_finish_handshake R False True c
      | TLS_ST_EARLY_DATA \<Rightarrow> tls_finish_handshake R False True c
      | TLS_ST_OK \<Rightarrow> tls_finish_handshake R True True c
      | _ \<Rightarrow> work_done c)"

definition client_post_hello :: "'w routines \<Rightarrow> 'w conn \<Rightarrow> WORK_STATE \<times> 'w conn" where
  "client_post_hello R c =
     (let next = (\<lambda>c. work_done (if SSL_IS_DTLS (ssl c) then on_ssl (\<lambda>s. s\<lparr>first_packet := True\<rparr>) c else c)) in
      if early_data_state (ssl c) = SSL_EARLY_DATA_CONNECTING \<and> max_early_data (ssl c) > 0
      then (if \<not> has_flag (options (ssl c)) SSL_OP_ENABLE_MIDDLEBOX_COMPAT
            then or_error R (tls13_change_cipher_state (SSL3_CC_EARLY OR SSL3_CHANGE_CIPHER_CLIENT_WRITE)) next c
            else next c)
      else or_retry R WORK_MORE_A next c)"

definition client_post_change :: "'w routines \<Rightarrow> 'w conn \<Rightarrow> WORK_STATE \<times> 'w conn" where
  "client_post_change R c =
     (if SSL_IS_TLS13 (ssl c) \<or> hello_retry_request (ssl c) = SSL_HRR_PENDING then work_done c
      else if early_data_state (ssl c) = SSL_EARLY_DATA_CONNECTING \<and> max_early_data (ssl c) > 0
      then or_error R (tls13_change_cipher_state (SSL3_CC_EARLY OR SSL3_CHANGE_CIPHER_CLIENT_WRITE)) work_done c
      else let c = on_ssl (\<lambda>s. s\<lparr>session_cipher := Some (new_cipher (s3 s)),
             session_compress_meth := (case new_compression (s3 s) of None \<Rightarrow> 0 | Some i \<Rightarrow> i)\<rparr>) c in
        or_error R setup_key_block
          (or_error R (change_cipher_state SSL3_CHANGE_CIPHER_CLIENT_WRITE)
             (\<lambda>c. work_done (if SSL_IS_DTLS (ssl c) then snd (call R (dtls1_reset_seq_numbers SSL3_CC_WRITE) c) else c))) c)"

definition client_post_finished :: "'w routines \<Rightarrow> 'w conn \<Rightarrow> WORK_STATE \<times> 'w conn" where
  "client_post_finished R =
     or_retry R WORK_MORE_B
       (\<lambda>c. if SSL_IS_TLS13 (ssl c)
            then or_error R tls13_save_handshake_digest_for_pha
              (\<lambda>c. if post_handshake_auth (ssl c) \<noteq> SSL_PHA_REQUESTED
                   then or_error R (change_cipher_state (SSL3_CC_APPLICATION OR SSL3_CHANGE_CIPHER_CLIENT_WRITE)) work_done c
                   else work_done c) c
            else work_done c)"

definition ossl_statem_client_post_work :: "'w routines \<Rightarrow> WORK_STATE \<Rightarrow> 'w conn \<Rightarrow> WORK_STATE \<times> 'w conn" where
  "ossl_statem_client_post_work R wst c =
     (let c = on_ssl (\<lambda>s. s\<lparr>init_num := 0\<rparr>) c in
      case hs (ssl c) of
        TLS_ST_CW_CLNT_HELLO \<Rightarrow> client_post_hello R c
      | TLS_ST_CW_END_OF_EARLY_DATA \<Rightarrow> work_done (on_ssl (\<lambda>s. s\<lparr>enc_write_ctx := False\<rparr>) c)
      | TLS_ST_CW_KEY_EXCH \<Rightarrow> or_error R tls_client_key_exchange_post_work work_done c
      | TLS_ST_CW_CHANGE \<Rightarrow> client_post_change R c
      | TLS_ST_CW_FINISHED \<Rightarrow> client_post_finished R c
      | TLS_ST_CW_KEY_UPDATE \<Rightarrow> or_retry R WORK_MORE_A (or_error R tls13_update_key work_done) c
      | _ \<Rightarrow> work_done c)"

text \<open>The source compares the session's cipher with the new one as pointers into the static tables of
  cipher suites, in which every suite has an identifier of its own: here the identifiers are compared.\<close>

definition server_pre_change :: "'w routines \<Rightarrow> 'w conn \<Rightarrow> WORK_STATE \<times> 'w conn" where
  "server_pre_change R c =
     (let next = or_error R setup_key_block
            (\<lambda>c. work_done (if SSL_IS_DTLS (ssl c) then on_statem (\<lambda>st. st\<lparr>use_timer := False\<rparr>) c else c)) in
      if SSL_IS_TLS13 (ssl c) then work_done c
      else case session_cipher (ssl c) of
        None \<Rightarrow> next (on_ssl (\<lambda>s. s\<lparr>session_cipher := Some (new_cipher (s3 s))\<rparr>) c)
      | Some ci \<Rightarrow>
          if cipher_id ci \<noteq> cipher_id (new_cipher (s3 (ssl c)))
          then (WORK_ERROR, SSLfatal c SSL_AD_INTERNAL_ERROR ERR_R_INTERNAL_ERROR)
          else next c)"

definition ossl_statem_server_pre_work :: "statem_env \<Rightarrow> 'w routines \<Rightarrow> WORK_STATE \<Rightarrow> 'w conn \<Rightarrow> WORK_STATE \<times> 'w conn" where
  "ossl_statem_server_pre_work e R wst c =
     (case hs (ssl c) of
        TLS_ST_SW_HELLO_REQ \<Rightarrow>
          let c = on_ssl (\<lambda>s. s\<lparr>shutdown := 0\<rparr>) c in
          work_done (if SSL_IS_DTLS (ssl c) then snd (call R dtls1_clear_sent_buffer c) else c)
      | DTLS_ST_SW_HELLO_VERIFY_REQUEST \<Rightarrow>
          let c = on_ssl (\<lambda>s. s\<lparr>shutdown := 0\<rparr>) c in
          work_done (if SSL_IS_DTLS (ssl c)
            then on_statem (\<lambda>st. st\<lparr>use_timer := False\<rparr>) (snd (call R dtls1_clear_sent_buffer c)) else c)
      | TLS_ST_SW_SRVR_HELLO \<Rightarrow>
          work_done (if SSL_IS_DTLS (ssl c) then on_statem (\<lambda>st. st\<lparr>use_timer := True\<rparr>) c else c)
      | TLS_ST_SW_SESSION_TICKET \<Rightarrow>
          if SSL_IS_TLS13 (ssl c) \<and> sent_tickets (ssl c) = 0 then tls_finish_handshake R False False c
          else work_done (if SSL_IS_DTLS (ssl c) then on_statem (\<lambda>st. st\<lparr>use_timer := False\<rparr>) c else c)
      | TLS_ST_SW_CHANGE \<Rightarrow> server_pre_change R c
      | TLS_ST_EARLY_DATA \<Rightarrow>
          if early_data_state (ssl c) \<noteq> SSL_EARLY_DATA_ACCEPTING
            \<and> \<not> has_flag (flags (s3 (ssl c))) TLS1_FLAGS_STATELESS
          then work_done c else tls_finish_handshake R True True c
      | TLS_ST_OK \<Rightarrow> tls_finish_handshake R True True c
      | _ \<Rightarrow> work_done c)"

definition conn_is_closed :: "int \<Rightarrow> bool" where
  "conn_is_closed err \<longleftrightarrow> err = 32 \<or> err = 104"

definition server_post_change :: "'w routines \<Rightarrow> 'w conn \<Rightarrow> WORK_STATE \<times> 'w conn" where
  "server_post_change R c =
     (if hello_retry_request (ssl c) = SSL_HRR_PENDING then or_retry R WORK_MORE_A work_done c
      else if SSL_IS_TLS13 (ssl c)
      then let allow = (\<lambda>c. work_done (on_statem (\<lambda>st. st\<lparr>enc_read_state := ENC_READ_STATE_ALLOW_PLAIN_ALERTS\<rparr>) c)) in
        or_error R setup_key_block
          (or_error R (change_cipher_state (SSL3_CC_HANDSHAKE OR SSL3_CHANGE_CIPHER_SERVER_WRITE))
             (\<lambda>c. if early_data (ext (ssl c)) \<noteq> SSL_EARLY_DATA_ACCEPTED
                  then or_error R (change_cipher_state (SSL3_CC_HANDSHAKE OR SSL3_CHANGE_CIPHER_SERVER_READ)) allow c
                  else allow c)) c
      else or_error R (change_cipher_state SSL3_CHANGE_CIPHER_SERVER_WRITE)
        (\<lambda>c. work_done (if SSL_IS_DTLS (ssl c) then snd (call R (dtls1_reset_seq_numbers SSL3_CC_WRITE) c) else c)) c)"

definition server_post_hello :: "'w routines \<Rightarrow> 'w conn \<Rightarrow> WORK_STATE \<times> 'w conn" where
  "server_post_hello R c =
     (if SSL_IS_TLS13 (ssl c) \<and> hello_retry_request (ssl c) = SSL_HRR_PENDING
      then (if \<not> has_flag (options (ssl c)) SSL_OP_ENABLE_MIDDLEBOX_COMPAT
            then or_retry R WORK_MORE_A work_done c else work_done c)
      else if \<not> SSL_IS_TLS13 (ssl c)
        \<or> has_flag (options (ssl c)) SSL_OP_ENABLE_MIDDLEBOX_COMPAT \<and> hello_retry_request (ssl c) \<noteq> SSL_HRR_COMPLETE
      then work_done c
      else server_post_change R c)"

definition server_post_ticket :: "'w routines \<Rightarrow> 'w conn \<Rightarrow> WORK_STATE \<times> 'w conn" where
  "server_post_ticket R c =
     (let c = snd (call R clear_sys_error c) in
      if SSL_IS_TLS13 (ssl c)
      then let (ok, c) = statem_flush R c in
        if ok then work_done c
        else let (err, c) = call R SSL_get_error c in
          if err = SSL_ERROR_SYSCALL
          then let (sys, c) = call R get_last_sys_error c in
            if conn_is_closed sys then work_done (on_ssl (\<lambda>s. s\<lparr>rwstate := SSL_NOTHING\<rparr>) c)
            else (WORK_MORE_A, c)
          else (WORK_MORE_A, c)
      else work_done c)"

definition server_post_finished :: "'w routines \<Rightarrow> 'w conn \<Rightarrow> WORK_STATE \<times> 'w conn" where
  "server_post_finished R =
     or_retry R WORK_MORE_A
       (\<lambda>c. if SSL_IS_TLS13 (ssl c)
            then or_error R generate_master_secret
              (or_error R (change_cipher_state (SSL3_CC_APPLICATION OR SSL3_CHANGE_CIPHER_SERVER_WRITE)) work_done) c
            else work_done c)"

definition ossl_statem_server_post_work :: "statem_env \<Rightarrow> 'w routines \<Rightarrow> WORK_STATE \<Rightarrow> 'w conn \<Rightarrow> WORK_STATE \<times> 'w conn" where
  "ossl_statem_server_post_work e R wst c =
     (let c = on_ssl (\<lambda>s. s\<lparr>init_num := 0\<rparr>) c in
      case hs (ssl c) of
        TLS_ST_SW_HELLO_REQ \<Rightarrow> or_retry R WORK_MORE_A (init_finished_mac e work_done) c
      | DTLS_ST_SW_HELLO_VERIFY_REQUEST \<Rightarrow>
          let first = (\<lambda>c. work_done (on_ssl (\<lambda>s. s\<lparr>first_packet := True\<rparr>) c)) in
          or_retry R WORK_MORE_A
            (\<lambda>c. if version (ssl c) \<noteq> DTLS1_BAD_VER then init_finished_mac e first c else first c) c
      | TLS_ST_SW_SRVR_HELLO \<Rightarrow> server_post_hello R c
      | TLS_ST_SW_CHANGE \<Rightarrow> server_post_change R c
      | TLS_ST_SW_SRVR_DONE \<Rightarrow> or_retry R WORK_MORE_A work_done c
      | TLS_ST_SW_FINISHED \<Rightarrow> server_post_finished R c
      | TLS_ST_SW_CERT_REQ \<Rightarrow>
          if post_handshake_auth (ssl c) = SSL_PHA_REQUEST_PENDING
          then or_retry R WORK_MORE_A work_done c else work_done c
      | TLS_ST_SW_KEY_UPDATE \<Rightarrow> or_retry R WORK_MORE_A (or_error R tls13_update_key work_done) c
      | TLS_ST_SW_SESSION_TICKET \<Rightarrow> server_post_ticket R c
      | _ \<Rightarrow> work_done c)"

section \<open>Reading messages\<close>

definition grow_init_buf :: "'w routines \<Rightarrow> nat \<Rightarrow> 'w conn \<Rightarrow> bool \<times> 'w conn" where
  "grow_init_buf R sz c =
     (let msg_offset = init_msg (ssl c);
          (r, c) = call R (BUF_MEM_grow_clean sz) c
      in if r = 0 then (False, c)
         else if sz < msg_offset then (False, c)
         else (True, on_ssl (\<lambda>s. s\<lparr>init_msg := msg_offset\<rparr>) c))"

definition init_read_state_machine :: "'w conn \<Rightarrow> 'w conn" where
  "init_read_state_machine = on_statem (\<lambda>st. st\<lparr>read_state := READ_STATE_HEADER\<rparr>)"

definition read_transition :: "statem_env \<Rightarrow> bool \<Rightarrow> SSL \<Rightarrow> int \<Rightarrow> bool \<times> SSL" where
  "read_transition e srv =
     (if srv then ossl_statem_server_read_transition else ossl_statem_client_read_transition e)"

definition max_message_size :: "bool \<Rightarrow> SSL \<Rightarrow> nat" where
  "max_message_size srv = (if srv then ossl_statem_server_max_message_size else ossl_statem_client_max_message_size)"

text \<open>Reading the whole message in DTLS, its header otherwise: the type of the message and, in DTLS, its
  length.\<close>

definition get_message :: "'w routines \<Rightarrow> 'w conn \<Rightarrow> (int \<times> nat) option \<times> 'w conn" where
  "get_message R c =
     (if SSL_IS_DTLS (ssl c) then invoke (dtls_get_message R) c
      else case invoke (tls_get_message_header R) c of (mt, c) \<Rightarrow> (map_option (\<lambda>mt. (mt, 0)) mt, c))"

definition loop_notify :: "'w routines \<Rightarrow> 'w conn \<Rightarrow> 'w conn" where
  "loop_notify R c = notify R (if server (ssl c) then SSL_CB_ACCEPT_LOOP else SSL_CB_CONNECT_LOOP) 1 c"

text \<open>\<^verbatim>\<open>READ_STATE_HEADER\<close> up to the point where it falls through: the length when the machine goes on.\<close>

definition check_message_size :: "'w routines \<Rightarrow> bool \<Rightarrow> nat \<Rightarrow> 'w conn \<Rightarrow> nat option \<times> 'w conn" where
  "check_message_size R srv len c =
     (if message_size (s3 (ssl c)) > max_message_size srv (ssl c)
      then (None, SSLfatal c SSL_AD_ILLEGAL_PARAMETER SSL_R_EXCESSIVE_MESSAGE_SIZE)
      else let (ok, c) =
          (if \<not> SSL_IS_DTLS (ssl c) \<and> message_size (s3 (ssl c)) > 0
           then grow_init_buf R (message_size (s3 (ssl c)) + SSL3_HM_HEADER_LENGTH) c else (True, c))
      in if \<not> ok then (None, SSLfatal c SSL_AD_INTERNAL_ERROR ERR_R_BUF_LIB)
         else (Some len, on_statem (\<lambda>st. st\<lparr>read_state := READ_STATE_BODY\<rparr>) c))"

definition read_header :: "statem_env \<Rightarrow> 'w routines \<Rightarrow> bool \<Rightarrow> 'w conn \<Rightarrow> nat option \<times> 'w conn" where
  "read_header e R srv c =
     (case get_message R c of
        (None, c) \<Rightarrow> (None, c)
      | (Some (mt, len), c) \<Rightarrow>
          let c = loop_notify R c in
          (case read_transition e srv (ssl c) mt of
             (False, s) \<Rightarrow> (None, c\<lparr>ssl := s\<rparr>)
           | (True, s) \<Rightarrow> check_message_size R srv len (c\<lparr>ssl := s, trace := trace c @ [Read mt]\<rparr>)))"

definition process_table :: "bool \<Rightarrow> SSL \<Rightarrow> msg_handler option \<times> SSL" where
  "process_table srv = (if srv then ossl_statem_server_process_message else ossl_statem_client_process_message)"

definition post_process_table :: "bool \<Rightarrow> SSL \<Rightarrow> msg_handler option \<times> SSL" where
  "post_process_table srv =
     (if srv then ossl_statem_server_post_process_message else ossl_statem_client_post_process_message)"

definition process_message :: "'w routines \<Rightarrow> bool \<Rightarrow> nat \<Rightarrow> 'w conn \<Rightarrow> MSG_PROCESS_RETURN \<times> 'w conn" where
  "process_message R srv len c =
     (case process_table srv (ssl c) of
        (None, s) \<Rightarrow> (MSG_PROCESS_ERROR, c\<lparr>ssl := s\<rparr>)
      | (Some f, s) \<Rightarrow> invoke (msg_process R f len) (c\<lparr>ssl := s\<rparr>))"

definition post_process_message :: "'w routines \<Rightarrow> bool \<Rightarrow> WORK_STATE \<Rightarrow> 'w conn \<Rightarrow> WORK_STATE \<times> 'w conn" where
  "post_process_message R srv wst c =
     (case post_process_table srv (ssl c) of
        (None, s) \<Rightarrow> (WORK_ERROR, c\<lparr>ssl := s\<rparr>)
      | (Some f, s) \<Rightarrow> invoke (msg_post_process R f wst) (c\<lparr>ssl := s\<rparr>))"

definition finish_reading :: "'w routines \<Rightarrow> 'w conn \<Rightarrow> SUB_STATE_RETURN \<times> 'w conn" where
  "finish_reading R c =
     (SUB_STATE_FINISHED, if SSL_IS_DTLS (ssl c) then snd (call R dtls1_stop_timer c) else c)"

text \<open>\<^verbatim>\<open>READ_STATE_BODY\<close>: \<open>len\<close> is the length a DTLS header came with. A length above half of \<^verbatim>\<open>size_t\<close> is
  what \<^verbatim>\<open>PACKET_buf_init\<close> refuses.\<close>

definition read_body :: "'w routines \<Rightarrow> bool \<Rightarrow> nat \<Rightarrow> 'w conn \<Rightarrow> 'w conn + SUB_STATE_RETURN \<times> 'w conn" where
  "read_body R srv len c =
     (let (l, c) = (if \<not> SSL_IS_DTLS (ssl c) then invoke (tls_get_message_body R) c else (Some len, c)) in
      case l of
        None \<Rightarrow> Inr (SUB_STATE_ERROR, c)
      | Some len \<Rightarrow>
          let c = on_ssl (\<lambda>s. s\<lparr>first_packet := False\<rparr>) c in
          if int len > 0x7FFFFFFFFFFFFFFF
          then Inr (SUB_STATE_ERROR, SSLfatal c SSL_AD_INTERNAL_ERROR ERR_R_INTERNAL_ERROR)
          else let (ret, c) = process_message R srv len c;
                   c = on_ssl (\<lambda>s. s\<lparr>init_num := 0\<rparr>) c
          in (case ret of
                MSG_PROCESS_ERROR \<Rightarrow> Inr (SUB_STATE_ERROR, on_ssl check_fatal c)
              | MSG_PROCESS_FINISHED_READING \<Rightarrow> Inr (finish_reading R c)
              | MSG_PROCESS_CONTINUE_PROCESSING \<Rightarrow>
                  Inl (on_statem (\<lambda>st. st\<lparr>read_state := READ_STATE_POST_PROCESS, read_state_work := WORK_MORE_A\<rparr>) c)
              | MSG_PROCESS_CONTINUE_READING \<Rightarrow>
                  Inl (on_statem (\<lambda>st. st\<lparr>read_state := READ_STATE_HEADER\<rparr>) c)))"

definition read_post_process :: "'w routines \<Rightarrow> bool \<Rightarrow> 'w conn \<Rightarrow> 'w conn + SUB_STATE_RETURN \<times> 'w conn" where
  "read_post_process R srv c =
     (let (wst, c) = post_process_message R srv (read_state_work (statem (ssl c))) c;
          c = on_statem (\<lambda>st. st\<lparr>read_state_work := wst\<rparr>) c
      in case wst of
           WORK_ERROR \<Rightarrow> Inr (SUB_STATE_ERROR, on_ssl check_fatal c)
         | WORK_FINISHED_CONTINUE \<Rightarrow> Inl (on_statem (\<lambda>st. st\<lparr>read_state := READ_STATE_HEADER\<rparr>) c)
         | WORK_FINISHED_STOP \<Rightarrow> Inr (finish_reading R c)
         | _ \<Rightarrow> Inr (SUB_STATE_ERROR, c))"

text \<open>One round of the loop. The length read with a DTLS header is a local variable of the machine: a
  DTLS machine that was interrupted after the header resumes with length 0.\<close>

definition read_round :: "statem_env \<Rightarrow> 'w routines \<Rightarrow> bool \<Rightarrow> 'w conn \<Rightarrow> 'w conn + SUB_STATE_RETURN \<times> 'w conn" where
  "read_round e R srv c =
     (case read_state (statem (ssl c)) of
        READ_STATE_HEADER \<Rightarrow>
          (case read_header e R srv c of
             (None, c) \<Rightarrow> Inr (SUB_STATE_ERROR, c)
           | (Some len, c) \<Rightarrow> read_body R srv len c)
      | READ_STATE_BODY \<Rightarrow> read_body R srv 0 c
      | READ_STATE_POST_PROCESS \<Rightarrow> read_post_process R srv c)"

definition read_state_machine :: "statem_env \<Rightarrow> 'w routines \<Rightarrow> 'w conn \<Rightarrow> (SUB_STATE_RETURN \<times> 'w conn) option" where
  "read_state_machine e R c =
     (let srv = server (ssl c);
          c = (if read_state_first_init (statem (ssl c))
               then on_statem (\<lambda>st. st\<lparr>read_state_first_init := False\<rparr>) (on_ssl (\<lambda>s. s\<lparr>first_packet := True\<rparr>) c)
               else c)
      in iterate (\<lambda>c. Some (read_round e R srv c)) c)"

section \<open>Writing messages\<close>

definition statem_do_write :: "'w routines \<Rightarrow> 'w conn \<Rightarrow> int \<times> 'w conn" where
  "statem_do_write R c =
     (if hs (ssl c) = TLS_ST_CW_CHANGE \<or> hs (ssl c) = TLS_ST_SW_CHANGE
      then call R (if SSL_IS_DTLS (ssl c) then dtls1_do_write_ccs else ssl3_do_write_ccs) c
      else call R ssl_do_write c)"

definition init_write_state_machine :: "'w conn \<Rightarrow> 'w conn" where
  "init_write_state_machine = on_statem (\<lambda>st. st\<lparr>write_state := WRITE_STATE_TRANSITION\<rparr>)"

definition write_transition :: "statem_env \<Rightarrow> bool \<Rightarrow> SSL \<Rightarrow> WRITE_TRAN \<times> SSL" where
  "write_transition e srv =
     (if srv then ossl_statem_server_write_transition e else ossl_statem_client_write_transition e)"

definition pre_work :: "statem_env \<Rightarrow> 'w routines \<Rightarrow> bool \<Rightarrow> WORK_STATE \<Rightarrow> 'w conn \<Rightarrow> WORK_STATE \<times> 'w conn" where
  "pre_work e R srv = (if srv then ossl_statem_server_pre_work e R else ossl_statem_client_pre_work e R)"

definition post_work :: "statem_env \<Rightarrow> 'w routines \<Rightarrow> bool \<Rightarrow> WORK_STATE \<Rightarrow> 'w conn \<Rightarrow> WORK_STATE \<times> 'w conn" where
  "post_work e R srv = (if srv then ossl_statem_server_post_work e R else ossl_statem_client_post_work R)"

definition get_construct_message_f :: "bool \<Rightarrow> SSL \<Rightarrow> (confunc \<times> int) option \<times> SSL" where
  "get_construct_message_f srv =
     (if srv then ossl_statem_server_construct_message else ossl_statem_client_construct_message)"

definition to_post_work :: "'w conn \<Rightarrow> 'w conn" where
  "to_post_work = on_statem (\<lambda>st. st\<lparr>write_state := WRITE_STATE_POST_WORK, write_state_work := WORK_MORE_A\<rparr>)"

definition write_post_work ::
  "statem_env \<Rightarrow> 'w routines \<Rightarrow> bool \<Rightarrow> 'w conn \<Rightarrow> 'w conn + SUB_STATE_RETURN \<times> 'w conn" where
  "write_post_work e R srv c =
     (let (wst, c) = post_work e R srv (write_state_work (statem (ssl c))) c;
          c = on_statem (\<lambda>st. st\<lparr>write_state_work := wst\<rparr>) c
      in case wst of
           WORK_ERROR \<Rightarrow> Inr (SUB_STATE_ERROR, on_ssl check_fatal c)
         | WORK_FINISHED_CONTINUE \<Rightarrow> Inl (on_statem (\<lambda>st. st\<lparr>write_state := WRITE_STATE_TRANSITION\<rparr>) c)
         | WORK_FINISHED_STOP \<Rightarrow> Inr (SUB_STATE_END_HANDSHAKE, c)
         | _ \<Rightarrow> Inr (SUB_STATE_ERROR, c))"

definition write_send ::
  "statem_env \<Rightarrow> 'w routines \<Rightarrow> bool \<Rightarrow> 'w conn \<Rightarrow> 'w conn + SUB_STATE_RETURN \<times> 'w conn" where
  "write_send e R srv c =
     (let c = (if SSL_IS_DTLS (ssl c) \<and> use_timer (statem (ssl c)) then snd (call R dtls1_start_timer c) else c);
          (ret, c) = statem_do_write R c
      in if ret \<le> 0 then Inr (SUB_STATE_ERROR, c) else write_post_work e R srv (to_post_work c))"

text \<open>The packet is built: false where the machine stops with an error.\<close>

definition construct_packet :: "'w routines \<Rightarrow> confunc \<Rightarrow> int \<Rightarrow> 'w conn \<Rightarrow> bool \<times> 'w conn" where
  "construct_packet R f mt c =
     (let bad = (\<lambda>c. (False, SSLfatal (snd (call R WPACKET_cleanup c)) SSL_AD_INTERNAL_ERROR ERR_R_INTERNAL_ERROR));
          (r, c) = call R WPACKET_init c
      in if r = 0 then bad c
      else let (r, c) = call R (ssl_set_handshake_header mt) c
      in if r = 0 then bad c
      else let (r, c) = (if f = no_confunc then (1, c) else call R (construct_message f) c)
      in if r = 0 then (False, on_ssl check_fatal (snd (call R WPACKET_cleanup c)))
      else let (r, c) = call R (ssl_close_construct_packet mt) c
      in if r = 0 then bad c
      else let (r, c) = call R WPACKET_finish c
      in if r = 0 then bad c else (True, c))"

definition write_construct ::
  "statem_env \<Rightarrow> 'w routines \<Rightarrow> bool \<Rightarrow> 'w conn \<Rightarrow> 'w conn + SUB_STATE_RETURN \<times> 'w conn" where
  "write_construct e R srv c =
     (case get_construct_message_f srv (ssl c) of
        (None, s) \<Rightarrow> Inr (SUB_STATE_ERROR, c\<lparr>ssl := s\<rparr>)
      | (Some (f, mt), s) \<Rightarrow>
          let c = c\<lparr>ssl := s\<rparr> in
          if mt = SSL3_MT_DUMMY then Inl (to_post_work c)
          else let (ok, c) = construct_packet R f mt c in
            if ok then write_send e R srv c else Inr (SUB_STATE_ERROR, c))"

definition write_pre_work ::
  "statem_env \<Rightarrow> 'w routines \<Rightarrow> bool \<Rightarrow> 'w conn \<Rightarrow> 'w conn + SUB_STATE_RETURN \<times> 'w conn" where
  "write_pre_work e R srv c =
     (let (wst, c) = pre_work e R srv (write_state_work (statem (ssl c))) c;
          c = on_statem (\<lambda>st. st\<lparr>write_state_work := wst\<rparr>) c
      in case wst of
           WORK_ERROR \<Rightarrow> Inr (SUB_STATE_ERROR, on_ssl check_fatal c)
         | WORK_FINISHED_CONTINUE \<Rightarrow>
             write_construct e R srv (on_statem (\<lambda>st. st\<lparr>write_state := WRITE_STATE_SEND\<rparr>) c)
         | WORK_FINISHED_STOP \<Rightarrow> Inr (SUB_STATE_END_HANDSHAKE, c)
         | _ \<Rightarrow> Inr (SUB_STATE_ERROR, c))"

definition write_next ::
  "statem_env \<Rightarrow> 'w routines \<Rightarrow> bool \<Rightarrow> 'w conn \<Rightarrow> 'w conn + SUB_STATE_RETURN \<times> 'w conn" where
  "write_next e R srv c =
     (let c = loop_notify R c;
          (r, s) = write_transition e srv (ssl c);
          c = c\<lparr>ssl := s\<rparr>
      in case r of
           WRITE_TRAN_CONTINUE \<Rightarrow>
             Inl (on_statem (\<lambda>st. st\<lparr>write_state := WRITE_STATE_PRE_WORK, write_state_work := WORK_MORE_A\<rparr>)
                    (c\<lparr>trace := trace c @ [Write (hs s)]\<rparr>))
         | WRITE_TRAN_FINISHED \<Rightarrow> Inr (SUB_STATE_FINISHED, c)
         | WRITE_TRAN_ERROR \<Rightarrow> Inr (SUB_STATE_ERROR, on_ssl check_fatal c))"

definition write_round :: "statem_env \<Rightarrow> 'w routines \<Rightarrow> bool \<Rightarrow> 'w conn \<Rightarrow> 'w conn + SUB_STATE_RETURN \<times> 'w conn" where
  "write_round e R srv c =
     (case write_state (statem (ssl c)) of
        WRITE_STATE_TRANSITION \<Rightarrow> write_next e R srv c
      | WRITE_STATE_PRE_WORK \<Rightarrow> write_pre_work e R srv c
      | WRITE_STATE_SEND \<Rightarrow> write_send e R srv c
      | WRITE_STATE_POST_WORK \<Rightarrow> write_post_work e R srv c)"

definition write_state_machine :: "statem_env \<Rightarrow> 'w routines \<Rightarrow> 'w conn \<Rightarrow> (SUB_STATE_RETURN \<times> 'w conn) option" where
  "write_state_machine e R c = iterate (\<lambda>d. Some (write_round e R (server (ssl c)) d)) c"

section \<open>The message flow state machine\<close>

text \<open>\<^verbatim>\<open>SSL_clear\<close>: \<open>ssl_clear_session\<close> frees the sessions, \<open>method_ssl_clear\<close> clears or replaces the
  state of the method; the method is never \<^verbatim>\<open>NULL\<close>. The fields of DANE, certificate verification and
  signature algorithms that it resets are not represented.\<close>

definition SSL_clear :: "'w routines \<Rightarrow> 'w conn \<Rightarrow> bool \<times> 'w conn" where
  "SSL_clear R c =
     (let c = snd (call R ssl_clear_session c);
          c = on_ssl (\<lambda>s. s\<lparr>hello_retry_request := SSL_HRR_NONE, sent_tickets := 0, hit := False, shutdown := 0\<rparr>) c
      in if renegotiate (ssl c) then (False, on_ssl (\<lambda>s. s\<lparr>errors := errors s @ [ERR_R_INTERNAL_ERROR]\<rparr>) c)
      else let
        c = on_ssl ossl_statem_clear c;
        c = on_ssl (\<lambda>s. s\<lparr>version := method_version s, rwstate := SSL_NOTHING, init_buf := False\<rparr>) c;
        c = snd (call R clear_ciphers c);
        c = on_ssl (\<lambda>s. s\<lparr>first_packet := False, key_update := SSL_KEY_UPDATE_NONE, pha_dgst := None\<rparr>) c;
        (r, c) = call R method_ssl_clear c
      in if r = 0 then (False, c)
         else (True, snd (call R RECORD_LAYER_clear c)))"

definition version_ok :: "bool \<Rightarrow> SSL \<Rightarrow> bool" where
  "version_ok srv s =
     (let major = version s div 256 in
      if SSL_IS_DTLS s
      then \<not> (major mod 256 \<noteq> DTLS1_VERSION div 256 \<and> (srv \<or> major mod 256 \<noteq> DTLS1_BAD_VER div 256))
      else major = SSL3_VERSION_MAJOR)"

text \<open>The initialisation of a handshake. Its errors, \<^verbatim>\<open>tls_setup_handshake\<close>'s apart, send no alert.\<close>

definition start_failed :: "'w conn \<Rightarrow> bool \<times> 'w conn" where
  "start_failed c = (False, SSLfatal c SSL_AD_NO_ALERT ERR_R_INTERNAL_ERROR)"

definition require :: "'w routines \<Rightarrow> EXT_CALL \<Rightarrow> ('w conn \<Rightarrow> bool \<times> 'w conn) \<Rightarrow> 'w conn \<Rightarrow> bool \<times> 'w conn" where
  "require R f k c = (let (r, c) = call R f c in if r = 0 then start_failed c else k c)"

definition setup_init_buf :: "'w routines \<Rightarrow> ('w conn \<Rightarrow> bool \<times> 'w conn) \<Rightarrow> 'w conn \<Rightarrow> bool \<times> 'w conn" where
  "setup_init_buf R k c =
     (if init_buf (ssl c) then k c
      else require R BUF_MEM_new
        (require R (BUF_MEM_grow SSL3_RT_MAX_PLAIN_LENGTH) (\<lambda>c. k (on_ssl (\<lambda>s. s\<lparr>init_buf := True\<rparr>) c))) c)"

definition setup_side :: "'w routines \<Rightarrow> bool \<Rightarrow> 'w conn \<Rightarrow> 'w conn" where
  "setup_side R srv c =
     (let c = (if state (statem (ssl c)) = MSG_FLOW_UNINITED
               then on_statem (\<lambda>st. st\<lparr>hand_state := TLS_ST_BEFORE, request_state := TLS_ST_BEFORE\<rparr>) c else c);
          c = on_ssl (\<lambda>s. s\<lparr>server := srv\<rparr>) c
      in if SSL_IS_FIRST_HANDSHAKE (ssl c) \<or> \<not> SSL_IS_TLS13 (ssl c)
         then notify R SSL_CB_HANDSHAKE_START 1 c else c)"

definition enter_handshake :: "statem_env \<Rightarrow> 'w conn \<Rightarrow> bool \<times> 'w conn" where
  "enter_handshake e c =
     (let go = (\<lambda>c. (True, init_write_state_machine (on_statem (\<lambda>st. st\<lparr>state := MSG_FLOW_WRITING\<rparr>) c))) in
      if SSL_in_before (ssl c) \<or> renegotiate (ssl c)
      then (case tls_setup_handshake e (ssl c) of
              (False, s) \<Rightarrow> (False, c\<lparr>ssl := s\<rparr>)
            | (True, s) \<Rightarrow>
                go (if SSL_IS_FIRST_HANDSHAKE s
                    then on_statem (\<lambda>st. st\<lparr>read_state_first_init := True\<rparr>) (c\<lparr>ssl := s\<rparr>) else c\<lparr>ssl := s\<rparr>))
      else go c)"

definition start_handshake :: "statem_env \<Rightarrow> 'w routines \<Rightarrow> bool \<Rightarrow> 'w conn \<Rightarrow> bool \<times> 'w conn" where
  "start_handshake e R srv c =
     (let c = setup_side R srv c in
      if \<not> version_ok srv (ssl c) then start_failed c
      else require R ssl_security_version
        (setup_init_buf R
          (require R ssl3_setup_buffers
            (\<lambda>c. require R ssl_init_wbio_buffer (enter_handshake e)
              (on_ssl (\<lambda>s. s\<lparr>init_num := 0, s3 := (s3 s)\<lparr>change_cipher_spec := False\<rparr>\<rparr>) c)))) c)"

text \<open>One round of the outer loop.\<close>

definition flow_round :: "statem_env \<Rightarrow> 'w routines \<Rightarrow> 'w conn \<Rightarrow> ('w conn + int \<times> 'w conn) option" where
  "flow_round e R c =
     (case state (statem (ssl c)) of
        MSG_FLOW_FINISHED \<Rightarrow> Some (Inr (1, c))
      | MSG_FLOW_READING \<Rightarrow>
          map_option (\<lambda>(ssret, c).
            if ssret = SUB_STATE_FINISHED
            then Inl (init_write_state_machine (on_statem (\<lambda>st. st\<lparr>state := MSG_FLOW_WRITING\<rparr>) c))
            else Inr (- 1, c)) (read_state_machine e R c)
      | MSG_FLOW_WRITING \<Rightarrow>
          map_option (\<lambda>(ssret, c).
            if ssret = SUB_STATE_FINISHED
            then Inl (init_read_state_machine (on_statem (\<lambda>st. st\<lparr>state := MSG_FLOW_READING\<rparr>) c))
            else if ssret = SUB_STATE_END_HANDSHAKE
            then Inl (on_statem (\<lambda>st. st\<lparr>state := MSG_FLOW_FINISHED\<rparr>) c)
            else Inr (- 1, c)) (write_state_machine e R c)
      | _ \<Rightarrow> Some (Inr (- 1, on_ssl (\<lambda>s. s\<lparr>errors := errors s @ [ERR_R_SHOULD_NOT_HAVE_BEEN_CALLED]\<rparr>)
                  (on_ssl check_fatal c))))"

definition leave_handshake :: "'w routines \<Rightarrow> bool \<Rightarrow> int \<times> 'w conn \<Rightarrow> int \<times> 'w conn" where
  "leave_handshake R srv rc =
     (case rc of (ret, c) \<Rightarrow>
        (ret, notify R (if srv then SSL_CB_ACCEPT_EXIT else SSL_CB_CONNECT_EXIT) ret
                (on_statem (\<lambda>st. st\<lparr>in_handshake := in_handshake st - 1\<rparr>) c)))"

text \<open>The error queues are cleared and the nesting of handshakes is counted.\<close>

definition enter_call :: "'w routines \<Rightarrow> 'w conn \<Rightarrow> 'w conn" where
  "enter_call R c =
     on_statem (\<lambda>st. st\<lparr>in_handshake := in_handshake st + 1\<rparr>)
       (snd (call R clear_sys_error (snd (call R ERR_clear_error c))))"

definition clear_before :: "'w routines \<Rightarrow> 'w conn \<Rightarrow> bool \<times> 'w conn" where
  "clear_before R c =
     (if (\<not> SSL_in_init (ssl c) \<or> SSL_in_before (ssl c)) \<and> \<not> has_flag (flags (s3 (ssl c))) TLS1_FLAGS_STATELESS
      then SSL_clear R c else (True, c))"

definition state_machine :: "statem_env \<Rightarrow> 'w routines \<Rightarrow> bool \<Rightarrow> 'w conn \<Rightarrow> (int \<times> 'w conn) option" where
  "state_machine e R srv c =
     (if state (statem (ssl c)) = MSG_FLOW_ERROR then Some (- 1, c)
      else let (ok, c) = clear_before R (enter_call R c)
      in if \<not> ok then Some (- 1, c)
      else let (ok, c) =
          (if state (statem (ssl c)) = MSG_FLOW_UNINITED \<or> state (statem (ssl c)) = MSG_FLOW_FINISHED
           then start_handshake e R srv c else (True, c))
      in if \<not> ok then Some (leave_handshake R srv (- 1, c))
         else map_option (leave_handshake R srv) (iterate (flow_round e R) c))"

definition ossl_statem_connect :: "statem_env \<Rightarrow> 'w routines \<Rightarrow> 'w conn \<Rightarrow> (int \<times> 'w conn) option" where
  "ossl_statem_connect e R = state_machine e R False"

definition ossl_statem_accept :: "statem_env \<Rightarrow> 'w routines \<Rightarrow> 'w conn \<Rightarrow> (int \<times> 'w conn) option" where
  "ossl_statem_accept e R = state_machine e R True"

end
