(* ===== verification/Statem_Handshake.thy ===== *)
theory Statem_Handshake
  imports Statem_Loop
begin

text \<open>
  What the loops of \<^verbatim>\<open>ssl/statem/statem.c\<close> guarantee, over all routines they may call. The locale \<open>stable\<close> is the
  contract of a property that the work between two transitions does not change, \<open>phase_invariant\<close>,
  \<open>loop_invariant\<close> and \<open>handshake_invariant\<close> add what the processing routines, the transitions of a side
  and the start of a handshake owe to it. They are provided for the control state of the machine and for the
  invariants of client and server below TLS 1.3, so that a successful call has read the peer's Finished. The
  rest is what a successful call leaves behind, how handshakes nest, and that the client's sub-machines return.
\<close>

section \<open>What the loops and the routines leave alone\<close>

text \<open>\<open>routine_step R s t\<close>: some routine, in some world, takes the connection \<open>s\<close> to \<open>t\<close>.\<close>

inductive routine_step :: "'w routines \<Rightarrow> SSL \<Rightarrow> SSL \<Rightarrow> bool" for R where
  step_call: "ext_call R f s w = (r, t, w') \<Longrightarrow> routine_step R s t"
| step_header: "tls_get_message_header R s w = (mt, t, w') \<Longrightarrow> routine_step R s t"
| step_body: "tls_get_message_body R s w = (l, t, w') \<Longrightarrow> routine_step R s t"
| step_dtls: "dtls_get_message R s w = (m, t, w') \<Longrightarrow> routine_step R s t"
| step_process: "msg_process R f len s w = (mr, t, w') \<Longrightarrow> routine_step R s t"
| step_post: "msg_post_process R f wst s w = (ws, t, w') \<Longrightarrow> routine_step R s t"

text \<open>The bookkeeping of the loops, of the work before and after messages and of fatal errors.\<close>

definition frame :: "SSL \<Rightarrow> SSL \<Rightarrow> bool" where
  "frame s t \<longleftrightarrow> hs t = hs s \<and> SSL_IS_TLS13 t = SSL_IS_TLS13 s \<and> hit t = hit s
     \<and> hello_retry_request t = hello_retry_request s \<and> early_data_state t = early_data_state s
     \<and> finish_md_len (s3 t) = finish_md_len (s3 s) \<and> peer_finish_md_len (s3 t) = peer_finish_md_len (s3 s)
     \<and> session_peer t = session_peer s
     \<and> no_cert_verify (statem t) = no_cert_verify (statem s) \<and> server t = server s
     \<and> in_handshake (statem t) = in_handshake (statem s)
     \<and> (in_init (statem s) \<longrightarrow> in_init (statem t))
     \<and> (state (statem t) = state (statem s) \<or> state (statem t) = MSG_FLOW_ERROR)
     \<and> (shutdown t = shutdown s \<or> shutdown t = 0)
     \<and> (post_handshake_auth t = post_handshake_auth s \<or> post_handshake_auth t = SSL_PHA_EXT_SENT)"

lemmas frame_simps = frame_def SSL_IS_TLS13_def SSL_IS_DTLS_def SSL_IS_FIRST_HANDSHAKE_def ossl_statem_set_in_init_def

lemma frame_fatal [intro]: "frame s (ossl_statem_fatal s al r)"
  by (simp add: frame_simps ossl_statem_fatal_def Let_def)

lemma frame_check_fatal [intro]: "frame s (check_fatal s)"
  by (auto simp: check_fatal_def) (simp add: frame_simps)

lemma frame_finished_mac: "ssl3_init_finished_mac e s = (ok, t) \<Longrightarrow> frame s t"
  by (auto simp: ssl3_init_finished_mac_def split: if_splits) (simp add: frame_simps)

lemma frame_updates [simp]:
  "frame s (s\<lparr>shutdown := 0\<rparr>)" "frame s (s\<lparr>init_num := n\<rparr>)" "frame s (s\<lparr>first_packet := b\<rparr>)"
  "frame s (s\<lparr>rwstate := rw\<rparr>)" "frame s (s\<lparr>init_buf := b\<rparr>)" "frame s (s\<lparr>init_msg := n\<rparr>)"
  "frame s (s\<lparr>enc_write_ctx := b\<rparr>)" "frame s (s\<lparr>session_cipher := ci\<rparr>)"
  "frame s (s\<lparr>session_cipher := ci, session_compress_meth := m\<rparr>)"
  "frame s (s\<lparr>post_handshake_auth := SSL_PHA_EXT_SENT\<rparr>)" "frame s (s\<lparr>errors := es\<rparr>)"
  "frame s (s\<lparr>handshake_func := f, stats := st\<rparr>)" "frame s (s\<lparr>stats := st, handshake_func := f\<rparr>)" "frame s (s\<lparr>stats := st\<rparr>)"
  "frame s (s\<lparr>d1 := d\<rparr>)"
  "frame s (s\<lparr>renegotiate := b, new_session := b', statem := (statem s)\<lparr>cleanuphand := b''\<rparr>, ext := x\<rparr>)"
  "frame s (s\<lparr>statem := (statem s)\<lparr>use_timer := b\<rparr>\<rparr>)"
  "frame s (s\<lparr>statem := (statem s)\<lparr>enc_read_state := er\<rparr>\<rparr>)"
  "frame s (s\<lparr>statem := (statem s)\<lparr>read_state := r\<rparr>\<rparr>)"
  "frame s (s\<lparr>statem := (statem s)\<lparr>read_state_work := ws\<rparr>\<rparr>)"
  "frame s (s\<lparr>statem := (statem s)\<lparr>read_state := r, read_state_work := ws\<rparr>\<rparr>)"
  "frame s (s\<lparr>statem := (statem s)\<lparr>read_state_first_init := b\<rparr>\<rparr>)"
  "frame s (s\<lparr>statem := (statem s)\<lparr>write_state := w\<rparr>\<rparr>)"
  "frame s (s\<lparr>statem := (statem s)\<lparr>write_state_work := ws\<rparr>\<rparr>)"
  "frame s (s\<lparr>statem := (statem s)\<lparr>write_state := w, write_state_work := ws\<rparr>\<rparr>)"
  "frame s (s\<lparr>init_num := n, s3 := (s3 s)\<lparr>change_cipher_spec := b\<rparr>\<rparr>)"
  by (simp_all add: frame_simps)

text \<open>The states in which the work before a message ends the handshake.\<close>

definition finish_states :: "OSSL_HANDSHAKE_STATE set" where
  "finish_states = {TLS_ST_OK, TLS_ST_EARLY_DATA, TLS_ST_PENDING_EARLY_DATA_END}"

type_synonym flow_property = "flow_event list \<Rightarrow> SSL \<Rightarrow> bool"

definition holds :: "flow_property \<Rightarrow> 'w conn \<Rightarrow> bool" where
  "holds P c = P (trace c) (ssl c)"

text \<open>
  A property of the history and the connection that neither the routines nor the bookkeeping
  change, and that survives the end of the initialisation. What the loops do between two transitions
  keeps it.
\<close>

locale stable =
  fixes R :: "'w routines" and P :: flow_property
  assumes P_frame: "P h s \<Longrightarrow> frame s t \<Longrightarrow> P h t"
    and P_routine: "P h s \<Longrightarrow> routine_step R s t \<Longrightarrow> P h t"
    and P_finish: "P h s \<Longrightarrow> hs s \<in> finish_states \<Longrightarrow> P h (ossl_statem_set_in_init s False)"
    and R_hs: "routine_step R s t \<Longrightarrow> hs t = hs s"
begin

lemma holds_ssl: "holds P c \<Longrightarrow> frame (ssl c) s \<Longrightarrow> holds P (c\<lparr>ssl := s\<rparr>)"
  by (simp add: holds_def P_frame)

lemma holds_on_ssl [intro!]: "holds P c \<Longrightarrow> frame (ssl c) (f (ssl c)) \<Longrightarrow> holds P (on_ssl f c)"
  by (simp add: on_ssl_def holds_ssl)

lemma holds_notify [intro!]: "holds P c \<Longrightarrow> holds P (notify R ty v c)"
  by (simp add: notify_def holds_def)

lemma holds_fatal [intro!]: "holds P c \<Longrightarrow> holds P (SSLfatal c al r)"
  by (auto simp: SSLfatal_def)

lemma holds_invoke:
  assumes "holds P c" "\<And>s w r t w'. f s w = (r, t, w') \<Longrightarrow> routine_step R s t"
  shows "holds P (snd (invoke f c))"
proof (cases "f (ssl c) (world c)")
  case (fields r t w)
  with assms P_routine show ?thesis by (auto simp: invoke_def holds_def)
qed

lemma holds_call [intro!]: "holds P c \<Longrightarrow> holds P (snd (call R f c))"
  by (auto simp: call_def intro!: holds_invoke intro: step_call)

lemma hs_invoke:
  assumes "\<And>s w r t w'. f s w = (r, t, w') \<Longrightarrow> routine_step R s t"
  shows "hs (ssl (snd (invoke f c))) = hs (ssl c)"
  using assms R_hs by (cases "f (ssl c) (world c)") (auto simp: invoke_def)

lemma hs_call [simp]: "hs (ssl (snd (call R f c))) = hs (ssl c)"
  unfolding call_def by (rule hs_invoke) (rule step_call)

lemma holds_flush [intro!]: "holds P c \<Longrightarrow> holds P (snd (statem_flush R c))"
  by (auto simp: statem_flush_def Let_def case_prod_beta)

lemma holds_or_error [intro!]:
  "holds P c \<Longrightarrow> (\<And>c. holds P c \<Longrightarrow> holds P (snd (k c))) \<Longrightarrow> holds P (snd (or_error R f k c))"
  by (auto simp: or_error_def Let_def case_prod_beta)

lemma holds_or_retry [intro!]:
  "holds P c \<Longrightarrow> (\<And>c. holds P c \<Longrightarrow> holds P (snd (k c))) \<Longrightarrow> holds P (snd (or_retry R w k c))"
  by (auto simp: or_retry_def Let_def case_prod_beta)

lemma holds_done [intro!]: "holds P c \<Longrightarrow> holds P (snd (work_done c))"
  by (simp add: work_done_def)

lemma holds_finished_mac [intro!]:
  assumes "holds P c" "\<And>c. holds P c \<Longrightarrow> holds P (snd (k c))"
  shows "holds P (snd (init_finished_mac e k c))"
  using assms holds_ssl [OF assms(1) frame_finished_mac]
  by (cases "ssl3_init_finished_mac e (ssl c)") (auto simp: init_finished_mac_def Let_def)

lemma holds_clear_buffers [intro!]: "holds P c \<Longrightarrow> holds P (snd (finish_clear_buffers R c))"
  by (auto simp: finish_clear_buffers_def Let_def case_prod_beta)

lemma holds_cleanup [intro!]: "holds P c \<Longrightarrow> holds P (finish_cleanup R c)"
  unfolding finish_cleanup_def finish_server_def finish_client_def Let_def
  by (auto simp:)

lemma hs_on_ssl: "(\<And>s. hs (f s) = hs s) \<Longrightarrow> hs (ssl (on_ssl f c)) = hs (ssl c)"
  by (simp add: on_ssl_def)

lemma hs_clear_buffers [simp]: "hs (ssl (snd (finish_clear_buffers R c))) = hs (ssl c)"
  by (simp add: finish_clear_buffers_def Let_def case_prod_beta SSLfatal_def hs_on_ssl)

lemma hs_cleanup [simp]: "hs (ssl (finish_cleanup R c)) = hs (ssl c)"
  by (simp add: finish_cleanup_def finish_server_def finish_client_def Let_def hs_on_ssl)

lemma holds_finish_init:
  assumes "holds P c" "stop \<longrightarrow> hs (ssl c) \<in> finish_states"
  shows "holds P (snd (finish_init R ch stop c))"
proof (cases stop)
  case True
  with assms have "holds P (on_ssl (\<lambda>s. ossl_statem_set_in_init s False) c)"
    using P_finish by (simp add: holds_def on_ssl_def)
  with True show ?thesis by (auto simp: finish_init_def Let_def)
next
  case False
  have "frame (ssl c) ((ssl c)\<lparr>statem := (statem (ssl c))\<lparr>in_init := True\<rparr>\<rparr>)"
    by (simp add: frame_simps)
  with assms(1) have "P (trace c) ((ssl c)\<lparr>statem := (statem (ssl c))\<lparr>in_init := True\<rparr>\<rparr>)"
    unfolding holds_def by (rule P_frame)
  with False show ?thesis
    by (simp add: finish_init_def Let_def holds_def on_ssl_def notify_def ossl_statem_set_in_init_def)
qed

lemma holds_finish [intro!]:
  assumes "holds P c" "stop \<longrightarrow> hs (ssl c) \<in> finish_states"
  shows "holds P (snd (tls_finish_handshake R cb stop c))"
  unfolding tls_finish_handshake_def Let_def case_prod_beta
  using assms
  by (auto simp: hs_on_ssl intro!: holds_finish_init)

lemma holds_client_pre: "holds P c \<Longrightarrow> holds P (snd (ossl_statem_client_pre_work e R w c))"
  unfolding ossl_statem_client_pre_work_def Let_def on_statem_def
  by (cases "hs (ssl c)") (auto simp: finish_states_def)

lemma holds_client_post: "holds P c \<Longrightarrow> holds P (snd (ossl_statem_client_post_work R w c))"
  unfolding ossl_statem_client_post_work_def client_post_hello_def client_post_change_def client_post_finished_def Let_def
  by (rule holds_on_ssl [THEN rev_mp, of c "\<lambda>s. s\<lparr>init_num := 0\<rparr>"])
    (auto split: OSSL_HANDSHAKE_STATE.split)

lemma holds_server_pre: "holds P c \<Longrightarrow> holds P (snd (ossl_statem_server_pre_work e R w c))"
  unfolding ossl_statem_server_pre_work_def server_pre_change_def Let_def on_statem_def
  by (cases "hs (ssl c)") (auto simp: finish_states_def split: option.split)

lemma holds_post_ticket [intro!]: "holds P c \<Longrightarrow> holds P (snd (server_post_ticket R c))"
  unfolding server_post_ticket_def Let_def case_prod_beta
  by auto

lemma holds_post_change [intro!]: "holds P c \<Longrightarrow> holds P (snd (server_post_change R c))"
  unfolding server_post_change_def Let_def on_statem_def
  by auto

lemma holds_server_post: "holds P c \<Longrightarrow> holds P (snd (ossl_statem_server_post_work e R w c))"
  unfolding ossl_statem_server_post_work_def server_post_hello_def server_post_finished_def Let_def
  by (rule holds_on_ssl [THEN rev_mp, of c "\<lambda>s. s\<lparr>init_num := 0\<rparr>"])
    (auto split: OSSL_HANDSHAKE_STATE.split)

lemma holds_work:
  "holds P c \<Longrightarrow> holds P (snd (pre_work e R srv w c))" "holds P c \<Longrightarrow> holds P (snd (post_work e R srv w c))"
  by (simp_all add: pre_work_def post_work_def holds_client_pre holds_client_post holds_server_pre holds_server_post)

end

lemma frame_tables:
  "process_table srv s = (f, t) \<Longrightarrow> frame s t" "post_process_table srv s = (f, t) \<Longrightarrow> frame s t"
  "get_construct_message_f srv s = (m, t) \<Longrightarrow> frame s t"
proof -
  have "frame s s" by (simp add: frame_def)
  then show "process_table srv s = (f, t) \<Longrightarrow> frame s t" "post_process_table srv s = (f, t) \<Longrightarrow> frame s t"
    "get_construct_message_f srv s = (m, t) \<Longrightarrow> frame s t"
    by (auto simp: process_table_def ossl_statem_server_process_message_def ossl_statem_client_process_message_def
      post_process_table_def ossl_statem_server_post_process_message_def ossl_statem_client_post_process_message_def
      get_construct_message_f_def ossl_statem_server_construct_message_def ossl_statem_client_construct_message_def
      split: if_splits OSSL_HANDSHAKE_STATE.splits)
qed

text \<open>What a round of either loop leaves behind.\<close>

definition read_outcome ::
  "flow_property \<Rightarrow> flow_property \<Rightarrow> 'w conn + SUB_STATE_RETURN \<times> 'w conn \<Rightarrow> bool" where
  "read_outcome Jr Jw x = (case x of Inl d \<Rightarrow> holds Jr d
     | Inr (r, d) \<Rightarrow> holds Jr d \<and> (r = SUB_STATE_FINISHED \<longrightarrow> holds Jw d))"

definition write_outcome :: "flow_property \<Rightarrow> 'w conn + SUB_STATE_RETURN \<times> 'w conn \<Rightarrow> bool" where
  "write_outcome J x = (case x of Inl d \<Rightarrow> holds J d | Inr (r, d) \<Rightarrow> holds J d)"

text \<open>
  Two such properties, one for reading and one for writing: the routines that process messages hand
  over from the first to the second when they end a flight.
\<close>

locale phase_invariant = rd: stable R Jr + wr: stable R Jw
  for R :: "'w routines" and Jr Jw +
  fixes srv :: bool
  assumes J_process: "Jr h s \<Longrightarrow> process_table srv s = (Some f, s) \<Longrightarrow>
      msg_process R f len s w = (MSG_PROCESS_FINISHED_READING, t, w') \<Longrightarrow> Jw h t"
    and J_post_process: "Jr h s \<Longrightarrow> post_process_table srv s = (Some f, s) \<Longrightarrow>
      msg_post_process R f wst s w = (WORK_FINISHED_STOP, t, w') \<Longrightarrow> Jw h t"
begin

lemma get_message: "holds Jr c \<Longrightarrow> holds Jr (snd (get_message R c))"
  by (auto simp: get_message_def case_prod_beta intro!: rd.holds_invoke intro: routine_step.intros)

lemma grow: "holds Jr c \<Longrightarrow> holds Jr (snd (grow_init_buf R n c))"
  by (auto simp: grow_init_buf_def Let_def case_prod_beta)

lemma check_size: "holds Jr c \<Longrightarrow> holds Jr (snd (check_message_size R srv len c))"
  by (auto simp: check_message_size_def Let_def case_prod_beta on_statem_def grow)

lemma loop_notify: "holds J c \<Longrightarrow> holds J (loop_notify R c)"
  by (simp add: loop_notify_def notify_def holds_def)

lemma process_message:
  assumes "holds Jr c" "process_message R srv len c = (r, d)"
  shows "holds Jr d \<and> (r = MSG_PROCESS_FINISHED_READING \<longrightarrow> holds Jw d)"
proof (cases "process_table srv (ssl c)")
  case (Pair f s)
  then have fr: "frame (ssl c) s" by (rule frame_tables)
  show ?thesis
  proof (cases f)
    case None
    with assms Pair fr show ?thesis by (auto simp: process_message_def intro: rd.holds_ssl)
  next
    case (Some g)
    with Pair have s: "s = ssl c"
      by (auto simp: process_table_def ossl_statem_server_process_message_def ossl_statem_client_process_message_def
          split: if_splits OSSL_HANDSHAKE_STATE.splits)
    obtain r' t w where m: "msg_process R g len (ssl c) (world c) = (r', t, w)" by (metis prod_cases3)
    with assms(1) have "Jr (trace c) t" unfolding holds_def by (blast intro: rd.P_routine step_process)
    moreover have "r' = MSG_PROCESS_FINISHED_READING \<Longrightarrow> Jw (trace c) t"
      using J_process [of "trace c" "ssl c" g len "world c" t w] assms(1) m Pair Some s by (simp add: holds_def)
    ultimately show ?thesis using assms(2) Pair Some s m by (auto simp: process_message_def invoke_def holds_def)
  qed
qed

lemma post_process_message:
  assumes "holds Jr c" "post_process_message R srv wst c = (r, d)"
  shows "holds Jr d \<and> (r = WORK_FINISHED_STOP \<longrightarrow> holds Jw d)"
proof (cases "post_process_table srv (ssl c)")
  case (Pair f s)
  then have fr: "frame (ssl c) s" by (rule frame_tables)
  show ?thesis
  proof (cases f)
    case None
    with assms Pair fr show ?thesis by (auto simp: post_process_message_def intro: rd.holds_ssl)
  next
    case (Some g)
    with Pair have s: "s = ssl c"
      by (auto simp: post_process_table_def ossl_statem_server_post_process_message_def
          ossl_statem_client_post_process_message_def split: if_splits OSSL_HANDSHAKE_STATE.splits)
    obtain r' t w where m: "msg_post_process R g wst (ssl c) (world c) = (r', t, w)" by (metis prod_cases3)
    with assms(1) have "Jr (trace c) t" unfolding holds_def by (blast intro: rd.P_routine step_post)
    moreover have "r' = WORK_FINISHED_STOP \<Longrightarrow> Jw (trace c) t"
      using J_post_process [of "trace c" "ssl c" g wst "world c" t w] assms(1) m Pair Some s by (simp add: holds_def)
    ultimately show ?thesis using assms(2) Pair Some s m by (auto simp: post_process_message_def invoke_def holds_def)
  qed
qed

lemma finish_reading: "holds Jr c \<Longrightarrow> holds Jw c \<Longrightarrow> read_outcome Jr Jw (Inr (finish_reading R c))"
  by (auto simp: read_outcome_def finish_reading_def)

lemma read_body:
  assumes "holds Jr c" shows "read_outcome Jr Jw (read_body R srv len c)"
proof -
  obtain l d where ld: "(if \<not> SSL_IS_DTLS (ssl c) then invoke (tls_get_message_body R) c else (Some len, c)) = (l, d)"
    by fastforce
  have d: "holds Jr d"
    using assms ld rd.holds_invoke [OF assms, of "tls_get_message_body R"] step_body [of R]
    by (metis snd_conv)
  show ?thesis
  proof (cases l)
    case None
    then show ?thesis using d ld by (simp add: read_body_def Let_def read_outcome_def)
  next
    case (Some n)
    let ?f = "on_ssl (\<lambda>s. s\<lparr>first_packet := False\<rparr>) d"
    obtain r g where g: "process_message R srv n ?f = (r, g)" by fastforce
    have f: "holds Jr ?f" using d by auto
    note pg = process_message [OF f g]
    let ?h = "on_ssl (\<lambda>s. s\<lparr>init_num := 0\<rparr>) g"
    have h: "holds Jr ?h" "r = MSG_PROCESS_FINISHED_READING \<Longrightarrow> holds Jw ?h" using pg by auto
    have "read_body R srv len c =
      (if int n > 0x7FFFFFFFFFFFFFFF then Inr (SUB_STATE_ERROR, SSLfatal ?f SSL_AD_INTERNAL_ERROR ERR_R_INTERNAL_ERROR)
       else case r of
          MSG_PROCESS_ERROR \<Rightarrow> Inr (SUB_STATE_ERROR, on_ssl check_fatal ?h)
        | MSG_PROCESS_FINISHED_READING \<Rightarrow> Inr (finish_reading R ?h)
        | MSG_PROCESS_CONTINUE_PROCESSING \<Rightarrow>
            Inl (on_statem (\<lambda>st. st\<lparr>read_state := READ_STATE_POST_PROCESS, read_state_work := WORK_MORE_A\<rparr>) ?h)
        | MSG_PROCESS_CONTINUE_READING \<Rightarrow> Inl (on_statem (\<lambda>st. st\<lparr>read_state := READ_STATE_HEADER\<rparr>) ?h))"
      using ld Some g by (simp add: read_body_def Let_def)
    then show ?thesis using f h finish_reading [OF h(1)]
      by (auto simp: read_outcome_def on_statem_def split: MSG_PROCESS_RETURN.split)
  qed
qed

lemma read_post_process:
  assumes "holds Jr c" shows "read_outcome Jr Jw (read_post_process R srv c)"
proof -
  obtain r g where g: "post_process_message R srv (read_state_work (statem (ssl c))) c = (r, g)" by fastforce
  note pg = post_process_message [OF assms g]
  let ?h = "on_statem (\<lambda>st. st\<lparr>read_state_work := r\<rparr>) g"
  have h: "holds Jr ?h" "r = WORK_FINISHED_STOP \<Longrightarrow> holds Jw ?h" using pg by (auto simp: on_statem_def)
  then show ?thesis using g finish_reading [OF h(1)]
    by (auto simp: read_post_process_def Let_def read_outcome_def split: WORK_STATE.split)
      (auto simp: on_statem_def)
qed

lemma post_work_round: "holds Jw c \<Longrightarrow> write_outcome Jw (write_post_work e R srv c)"
  using wr.holds_work(2) [of c e srv "write_state_work (statem (ssl c))"]
  by (auto simp: write_post_work_def Let_def case_prod_beta write_outcome_def on_statem_def split: WORK_STATE.split)

lemma do_write: "holds Jw c \<Longrightarrow> holds Jw (snd (statem_do_write R c))"
  by (auto simp: statem_do_write_def)

lemma send_round:
  assumes "holds Jw c" shows "write_outcome Jw (write_send e R srv c)"
proof -
  define d where "d = (if SSL_IS_DTLS (ssl c) \<and> use_timer (statem (ssl c)) then snd (call R dtls1_start_timer c) else c)"
  obtain r f where f: "statem_do_write R d = (r, f)" by fastforce
  have "holds Jw d" using assms by (auto simp: d_def)
  then have "holds Jw f" using do_write [of d] f by simp
  moreover from this have "holds Jw (to_post_work f)" by (auto simp: to_post_work_def on_statem_def)
  ultimately show ?thesis using post_work_round f
    by (simp add: write_send_def Let_def d_def [symmetric]) (simp add: write_outcome_def)
qed

lemma construct: "holds Jw c \<Longrightarrow> holds Jw (snd (construct_packet R f mt c))"
  unfolding construct_packet_def Let_def case_prod_beta by auto

lemma construct_round:
  assumes "holds Jw c" shows "write_outcome Jw (write_construct e R srv c)"
proof (cases "get_construct_message_f srv (ssl c)")
  case (Pair m s)
  then have s: "holds Jw (c\<lparr>ssl := s\<rparr>)" using assms by (blast intro: wr.holds_ssl frame_tables)
  then have "holds Jw (to_post_work (c\<lparr>ssl := s\<rparr>))" by (auto simp: to_post_work_def on_statem_def)
  with Pair s construct [OF s] send_round show ?thesis
    by (auto simp: write_construct_def Let_def write_outcome_def [of _ "Inl _"] write_outcome_def [of _ "Inr _"]
        case_prod_beta split: option.split)
qed

lemma pre_work_round:
  assumes "holds Jw c" shows "write_outcome Jw (write_pre_work e R srv c)"
proof -
  obtain wst d where d: "pre_work e R srv (write_state_work (statem (ssl c))) c = (wst, d)" by fastforce
  have "holds Jw d" using wr.holds_work(1) [OF assms] d by (metis snd_conv)
  then have "holds Jw (on_statem (\<lambda>st. st\<lparr>write_state_work := wst\<rparr>) d)" by (auto simp: on_statem_def)
  moreover from this have "holds Jw (on_statem (\<lambda>st. st\<lparr>write_state := WRITE_STATE_SEND\<rparr>)
      (on_statem (\<lambda>st. st\<lparr>write_state_work := wst\<rparr>) d))" by (auto simp: on_statem_def)
  ultimately show ?thesis using d construct_round
    by (auto simp: write_pre_work_def Let_def write_outcome_def [of _ "Inr _"] split: WORK_STATE.split)
qed

end

text \<open>The transitions of the side carry the properties on to the longer history.\<close>

locale loop_invariant = phase_invariant R Jr Jw srv
  for R :: "'w routines" and Jr Jw srv +
  fixes e :: statem_env
  assumes J_read: "Jr h s \<Longrightarrow> read_transition e srv s mt = (ok, t) \<Longrightarrow> Jr (if ok then h @ [Read mt] else h) t"
    and J_write: "Jw h s \<Longrightarrow> write_transition e srv s = (r, t) \<Longrightarrow>
      Jw (if r = WRITE_TRAN_CONTINUE then h @ [Write (hs t)] else h) t"
begin

lemma read_header:
  assumes "holds Jr c" shows "holds Jr (snd (read_header e R srv c))"
proof (cases "get_message R c")
  case (Pair m d)
  with get_message [OF assms] have d: "holds Jr (loop_notify R d)" by (simp add: loop_notify)
  show ?thesis
  proof (cases m)
    case None
    with Pair get_message [OF assms] show ?thesis by (simp add: read_header_def)
  next
    case (Some a)
    obtain mt len where a: "a = (mt, len)" by (cases a)
    obtain ok s where t: "read_transition e srv (ssl (loop_notify R d)) mt = (ok, s)" by fastforce
    note J_read [OF _ t, of "trace (loop_notify R d)"]
    with d have "Jr (if ok then trace (loop_notify R d) @ [Read mt] else trace (loop_notify R d)) s"
      by (simp add: holds_def)
    then show ?thesis using Pair Some a t
      by (cases ok) (auto simp: read_header_def Let_def holds_def intro!: check_size [unfolded holds_def])
  qed
qed

lemma read_round: "holds Jr c \<Longrightarrow> read_outcome Jr Jw (read_round e R srv c)"
  using read_header [of c] read_body read_post_process [of c]
  by (auto simp: read_round_def read_outcome_def split: READ_STATE.split option.split prod.split)

lemma read_machine:
  assumes "holds Jr c" "server (ssl c) = srv" "read_state_machine e R c = Some (r, d)"
  shows "holds Jr d \<and> (r = SUB_STATE_FINISHED \<longrightarrow> holds Jw d)"
proof -
  define b where "b = (if read_state_first_init (statem (ssl c))
    then on_statem (\<lambda>st. st\<lparr>read_state_first_init := False\<rparr>) (on_ssl (\<lambda>s. s\<lparr>first_packet := True\<rparr>) c) else c)"
  have b: "holds Jr b" "iterate (\<lambda>c. Some (read_round e R srv c)) b = Some (r, d)"
    using assms by (auto simp: b_def read_state_machine_def Let_def on_statem_def)
  have "read_outcome Jr Jw (Inr (r, d))"
    by (rule iterate_invariant [OF b(2), of "holds Jr" "\<lambda>x. read_outcome Jr Jw (Inr x)"])
      (use b(1) in \<open>auto simp: read_outcome_def dest: read_round\<close>)
  then show ?thesis by (simp add: read_outcome_def)
qed

lemma next_round:
  assumes "holds Jw c" shows "write_outcome Jw (write_next e R srv c)"
proof -
  obtain r s where t: "write_transition e srv (ssl (loop_notify R c)) = (r, s)" by fastforce
  note J_write [OF _ t, of "trace (loop_notify R c)"]
  with loop_notify [OF assms] have J: "Jw (if r = WRITE_TRAN_CONTINUE then trace (loop_notify R c) @ [Write (hs s)] else trace (loop_notify R c)) s"
    by (simp add: holds_def)
  show ?thesis
  proof (cases r)
    case WRITE_TRAN_CONTINUE
    with J have "holds Jw ((loop_notify R c)\<lparr>ssl := s, trace := trace (loop_notify R c) @ [Write (hs s)]\<rparr>)"
      by (simp add: holds_def)
    with t WRITE_TRAN_CONTINUE show ?thesis
      by (auto simp: write_next_def Let_def write_outcome_def on_statem_def)
  qed (use t J in \<open>auto simp: write_next_def Let_def write_outcome_def holds_def
        intro!: wr.holds_on_ssl [unfolded holds_def]\<close>)
qed

lemma write_round: "holds Jw c \<Longrightarrow> write_outcome Jw (write_round e R srv c)"
  by (auto simp: write_round_def next_round pre_work_round send_round post_work_round split: WRITE_STATE.split)

lemma write_machine:
  assumes "holds Jw c" "server (ssl c) = srv" "write_state_machine e R c = Some (r, d)"
  shows "holds Jw d"
proof -
  have it: "iterate (\<lambda>d. Some (write_round e R srv d)) c = Some (r, d)"
    using assms by (simp add: write_state_machine_def)
  have "write_outcome Jw (Inr (r, d))"
    by (rule iterate_invariant [OF it, of "holds Jw" "\<lambda>x. write_outcome Jw (Inr x)"])
      (use assms(1) in \<open>auto simp: write_outcome_def dest: write_round\<close>)
  then show ?thesis by (simp add: write_outcome_def)
qed

end

section \<open>The outer loop\<close>

text \<open>What no routine touches: the side of the connection, the nesting of handshakes, the state of the
  message flow except for errors. Initialisation is not ended by a routine.\<close>

definition steady :: "SSL \<Rightarrow> SSL \<Rightarrow> bool" where
  "steady s t \<longleftrightarrow> server t = server s \<and> in_handshake (statem t) = in_handshake (statem s)
     \<and> (in_init (statem s) \<longrightarrow> in_init (statem t))
     \<and> (state (statem t) = state (statem s) \<or> state (statem t) = MSG_FLOW_ERROR)"

definition orderly :: "'w routines \<Rightarrow> bool" where
  "orderly R \<longleftrightarrow> (\<forall>s t. routine_step R s t \<longrightarrow> steady s t \<and> hs t = hs s)"

lemma frame_steady: "frame s t \<Longrightarrow> steady s t"
  by (simp add: frame_def steady_def)

lemma frame_hs: "frame s t \<Longrightarrow> hs t = hs s"
  by (simp add: frame_def)

lemma steady_trans: "steady s t \<Longrightarrow> steady t u \<Longrightarrow> steady s u"
  by (auto simp: steady_def)

lemma steady_refl [simp]: "steady s s"
  by (simp add: steady_def)

lemma steady_fatal [simp]: "steady s (ossl_statem_fatal s al r)"
  by (intro frame_steady frame_fatal)

lemma steady_set_hs [simp]: "steady s (set_hs h s)"
  by (simp add: steady_def set_hs_def)

lemma steady_setup: "tls_setup_handshake e s = (ok, t) \<Longrightarrow> steady s t"
  by (auto simp: tls_setup_handshake_def ssl3_init_finished_mac_def Let_def steady_def ossl_statem_fatal_def
      split: if_splits option.splits prod.splits)

lemma steady_reject: "reject_message s mt = (ok, t) \<Longrightarrow> steady s t"
  by (auto simp: reject_message_def split: if_splits) (simp add: steady_def)

lemma steady_client_next: "client_next s mt = Some t \<Longrightarrow> steady s t"
  unfolding client_next_def
  by (cases "hs s")
    (auto simp: client_after_server_hello_def client_after_cert_def client_after_cert_status_def client_after_key_exch_def
      client_after_cert_req_def client_before_server_change_def split: if_splits, simp add: steady_def set_hs_def)

lemma steady_client13_read: "ossl_statem_client13_read_transition e s mt = (ok, t) \<Longrightarrow> steady s t"
  by (auto simp: ossl_statem_client13_read_transition_def client13_read_ok_def tls13_restore_handshake_digest_for_pha_def
      Let_def steady_def set_hs_def ossl_statem_fatal_def split: if_splits option.splits prod.splits bool.splits)

lemma steady_read: assumes "read_transition e srv s mt = (ok, t)" shows "steady s t"
proof (cases srv)
  case True
  then show ?thesis using assms
    by (auto simp: read_transition_def ossl_statem_server_read_transition_def ossl_statem_server13_read_transition_def
      server_after_done_def split: if_splits option.splits prod.splits bool.splits dest: steady_reject)
next
  case False
  then show ?thesis using assms
    by (auto simp: read_transition_def ossl_statem_client_read_transition_def
        split: if_splits option.splits prod.splits bool.splits
        dest: steady_reject steady_client_next steady_client13_read intro: steady_trans)
qed

lemma steady_renegotiate_check: "ssl3_renegotiate_check s b = (ok, t) \<Longrightarrow> steady s t"
  by (auto simp: ssl3_renegotiate_check_def steady_def ossl_statem_set_renegotiate_def split: if_splits)

lemma steady_client_write: "ossl_statem_client_write_transition e s = (r, t) \<Longrightarrow> steady s t"
  unfolding ossl_statem_client_write_transition_def ossl_statem_client13_write_transition_def client_write_after_hello_req_def
  by (cases "hs s")
    (auto simp: client13_after_cert_req_def client_write_after_hello_def client_write_after_retry_request_def
      client_write_after_key_exch_def client_write_after_change_def Let_def split: if_splits prod.splits bool.splits
      dest!: steady_renegotiate_check steady_setup intro: steady_trans steady_set_hs)

lemma steady_server_write: "ossl_statem_server_write_transition e s = (r, t) \<Longrightarrow> steady s t"
  unfolding ossl_statem_server_write_transition_def ossl_statem_server13_write_transition_def server_write_ok_def
  by (cases "hs s")
    (auto simp: server13_write_ok_def server13_write_after_finished_def server_write_after_client_hello_def
      Let_def split: if_splits prod.splits bool.splits dest!: steady_setup,
     auto simp: steady_def set_hs_def)

lemma steady_write: "write_transition e srv s = (r, t) \<Longrightarrow> steady s t"
  by (auto simp: write_transition_def split: if_splits dest: steady_client_write steady_server_write)

text \<open>The control of the loops is itself such an invariant.\<close>

definition control :: "MSG_FLOW_STATE \<Rightarrow> bool \<Rightarrow> int \<Rightarrow> flow_property" where
  "control x srv n h s \<longleftrightarrow> state (statem s) \<in> {x, MSG_FLOW_ERROR} \<and> server s = srv \<and> in_handshake (statem s) = n"

lemma control_steady: "control x srv n h s \<Longrightarrow> steady s t \<Longrightarrow> control x srv n h' t"
  by (auto simp: control_def steady_def)

lemma control_in_init [simp]: "control x srv n h (ossl_statem_set_in_init s b) = control x srv n h s"
  by (simp add: control_def ossl_statem_set_in_init_def)

locale orderly_routines =
  fixes R :: "'w routines"
  assumes R_orderly: "orderly R"
begin

lemma R_steady: "routine_step R s t \<Longrightarrow> steady s t" and R_keeps_hs: "routine_step R s t \<Longrightarrow> hs t = hs s"
  using R_orderly by (auto simp: orderly_def)

end

sublocale orderly_routines \<subseteq> ctl: loop_invariant R "control x srv n" "control x srv n" srv e for x srv n e
  by unfold_locales
    (auto intro: control_steady frame_steady R_steady R_keeps_hs steady_read steady_write routine_step.intros)

section \<open>Invariants of a connection\<close>

text \<open>
  An invariant of the message flow as it is between two calls of the state machine, and what starting a
  handshake does to it. Out of initialisation it says nothing of the connection any more, only of the history;
  an uninitialised message flow is in \<^verbatim>\<open>TLS_ST_BEFORE\<close> unless the history alone settles the invariant.
\<close>

definition set_control :: "MSG_FLOW_STATE \<Rightarrow> int \<Rightarrow> bool \<Rightarrow> SSL \<Rightarrow> SSL" where
  "set_control x n b s = s\<lparr>server := b, statem := (statem s)\<lparr>state := x, in_handshake := n\<rparr>\<rparr>"

definition before_start :: "flow_property \<Rightarrow> flow_property" where
  "before_start J h s \<longleftrightarrow> (state (statem s) = MSG_FLOW_UNINITED \<longrightarrow> hs s = TLS_ST_BEFORE \<or> (\<forall>t. J h t))"

definition between_calls ::
  "flow_property \<Rightarrow> flow_property \<Rightarrow> bool \<Rightarrow> flow_property" where
  "between_calls Jr Jw srv h s \<longleftrightarrow> Jr h s
     \<and> (state (statem s) \<in> {MSG_FLOW_WRITING, MSG_FLOW_FINISHED} \<longrightarrow> Jw h s)
     \<and> (state (statem s) \<in> {MSG_FLOW_READING, MSG_FLOW_WRITING} \<longrightarrow> server s = srv)
     \<and> before_start Jw h s"

lemma before_start_steady: "before_start J h s \<Longrightarrow> steady s t \<Longrightarrow> hs t = hs s \<Longrightarrow> before_start J h t"
  by (auto simp: before_start_def steady_def)

lemma before_start_flow [simp]: "state (statem s) \<noteq> MSG_FLOW_UNINITED \<Longrightarrow> before_start J h s"
  by (simp add: before_start_def)

locale handshake_invariant = loop_invariant R Jr Jw srv e + orderly_routines R
  for R :: "'w routines" and Jr Jw srv e +
  assumes Jw_Jr: "Jw h s \<Longrightarrow> Jr h s"
    and J_control: "Jr h s \<Longrightarrow> Jr h (set_control x n b s)" "Jw h s \<Longrightarrow> Jw h (set_control x n b s)"
    and J_idle: "Jr h s \<Longrightarrow> \<not> in_init (statem s) \<Longrightarrow> Jw h t"
    and J_restart: "Jr h s \<Longrightarrow> hs s = TLS_ST_BEFORE \<Longrightarrow> Jw h (s\<lparr>statem := (statem s)\<lparr>hand_state := TLS_ST_BEFORE, request_state := TLS_ST_BEFORE\<rparr>\<rparr>)"
    and J_setup: "Jw h s \<Longrightarrow> server s = srv \<Longrightarrow> tls_setup_handshake e s = (ok, t) \<Longrightarrow> Jw h t"
    and J_before: "Jr h s \<Longrightarrow> hs s = TLS_ST_BEFORE \<Longrightarrow>
      Jr h (s\<lparr>hello_retry_request := SSL_HRR_NONE, sent_tickets := 0, hit := False, shutdown := 0\<rparr>)"
    and J_clear: "Jr h s \<Longrightarrow> hs s = TLS_ST_BEFORE \<Longrightarrow> Jr h (ossl_statem_clear s)"
begin

lemma K_steady:
  assumes "between_calls Jr Jw srv h s" "steady s t" "hs t = hs s" "Jr h s \<Longrightarrow> Jr h t" "Jw h s \<Longrightarrow> Jw h t"
  shows "between_calls Jr Jw srv h t"
  using assms before_start_steady [of Jw h s t] by (auto simp: between_calls_def steady_def)

end

sublocale handshake_invariant \<subseteq> K: stable R "between_calls Jr Jw srv"
proof (unfold_locales, goal_cases)
  case (1 h s t)
  then show ?case using rd.P_frame wr.P_frame K_steady [of h s t] frame_steady [of s t] frame_hs [of s t] by blast
next
  case (2 h s t)
  then show ?case using rd.P_routine wr.P_routine using R_steady R_keeps_hs by (blast intro: K_steady)
next
  case (3 h s)
  then show ?case using rd.P_finish [of h s] wr.P_finish [of h s]
    by (auto simp: between_calls_def before_start_def ossl_statem_set_in_init_def)
next
  case (4 s t)
  then show ?case by (rule R_keeps_hs)
qed

lemma trace_simps [simp]:
  "trace (on_ssl f c) = trace c" "trace (on_statem g c) = trace c" "trace (snd (call R x c)) = trace c"
  "trace (notify R ty v c) = trace c" "ssl (notify R ty v c) = ssl c" "trace (SSLfatal c al r) = trace c"
  by (auto simp: on_ssl_def on_statem_def call_def invoke_def notify_def SSLfatal_def split: prod.split)

lemma ssl_on [simp]:
  "ssl (on_ssl f c) = f (ssl c)" "ssl (on_statem g c) = (ssl c)\<lparr>statem := g (statem (ssl c))\<rparr>"
  by (simp_all add: on_ssl_def on_statem_def)

lemma trace_SSL_clear [simp]: "trace (snd (SSL_clear R c)) = trace c"
  by (simp add: SSL_clear_def Let_def case_prod_beta)

lemma setup_hs: "tls_setup_handshake e s = (ok, t) \<Longrightarrow> hs t = hs s"
  by (auto simp: tls_setup_handshake_def ssl3_init_finished_mac_def ossl_statem_fatal_def Let_def
      split: if_splits option.splits prod.splits)

context orderly_routines
begin

lemma steady_call [simp]: "steady (ssl c) (ssl (snd (call R f c)))"
  by (cases "ext_call R f (ssl c) (world c)") (auto simp: call_def invoke_def intro: R_steady step_call)

lemma state_call: "state (statem (ssl c)) \<in> A \<Longrightarrow> MSG_FLOW_ERROR \<in> A \<Longrightarrow> state (statem (ssl (snd (call R f c)))) \<in> A"
  using steady_call [of c f] by (auto simp: steady_def)

lemma state_SSL_clear:
  "state (statem (ssl c)) \<in> A \<Longrightarrow> MSG_FLOW_UNINITED \<in> A \<Longrightarrow> MSG_FLOW_ERROR \<in> A \<Longrightarrow>
    state (statem (ssl (snd (SSL_clear R c)))) \<in> A"
  unfolding SSL_clear_def Let_def case_prod_beta
  by (auto simp: ossl_statem_clear_def intro!: state_call)

lemma side_SSL_clear:
  "server (ssl (snd (SSL_clear R c))) = server (ssl c)"
  "in_handshake (statem (ssl (snd (SSL_clear R c)))) = in_handshake (statem (ssl c))"
proof -
  have "server (ssl (snd (call R f d))) = server (ssl d)"
    "in_handshake (statem (ssl (snd (call R f d)))) = in_handshake (statem (ssl d))" for f d
    using steady_call [of d f] by (auto simp: steady_def)
  then show "server (ssl (snd (SSL_clear R c))) = server (ssl c)"
    "in_handshake (statem (ssl (snd (SSL_clear R c)))) = in_handshake (statem (ssl c))"
    by (simp_all add: SSL_clear_def Let_def case_prod_beta ossl_statem_clear_def)
qed

lemma hs_SSL_clear: "hs (ssl (snd (SSL_clear R c))) \<in> {hs (ssl c), TLS_ST_BEFORE}"
proof -
  have "hs (ssl (snd (call R f d))) = hs (ssl d)" for f d
    by (cases "ext_call R f (ssl d) (world d)") (auto simp: call_def invoke_def intro: R_keeps_hs step_call)
  then show ?thesis by (simp add: SSL_clear_def Let_def case_prod_beta ossl_statem_clear_def)
qed

end

context handshake_invariant
begin

lemma hold_SSL_clear:
  assumes "holds Jr c" "\<not> in_init (statem (ssl c)) \<or> hs (ssl c) = TLS_ST_BEFORE"
  shows "holds Jr (snd (SSL_clear R c))"
proof (cases "in_init (statem (ssl c))")
  case False
  then show ?thesis using assms(1) J_idle Jw_Jr by (auto simp: holds_def)
next
  case True
  let ?c = "snd (call R ssl_clear_session c)"
  have "holds Jr ?c" "hs (ssl ?c) = TLS_ST_BEFORE" using assms True rd.hs_call by auto
  then have a: "holds Jr (on_ssl (\<lambda>s. s\<lparr>hello_retry_request := SSL_HRR_NONE, sent_tickets := 0, hit := False, shutdown := 0\<rparr>) ?c)"
    using J_before by (simp add: holds_def)
  have b: "holds Jr d \<Longrightarrow> hs (ssl d) = TLS_ST_BEFORE \<Longrightarrow> holds Jr (on_ssl ossl_statem_clear d)" for d
    using J_clear by (simp add: holds_def)
  have fr: "frame s (s\<lparr>version := method_version s, rwstate := SSL_NOTHING, init_buf := False\<rparr>)"
    "frame s (s\<lparr>first_packet := False, key_update := SSL_KEY_UPDATE_NONE, pha_dgst := None\<rparr>)" for s
    by (simp_all add: frame_simps)
  show ?thesis
    unfolding SSL_clear_def Let_def case_prod_beta using a \<open>hs (ssl ?c) = TLS_ST_BEFORE\<close> by (auto simp: fr intro!: b)
qed

lemma K_clear_before:
  assumes "holds (between_calls Jr Jw srv) c"
  shows "holds (between_calls Jr Jw srv) (snd (clear_before R c))"
proof (cases "(\<not> SSL_in_init (ssl c) \<or> SSL_in_before (ssl c)) \<and> \<not> has_flag (flags (s3 (ssl c))) TLS1_FLAGS_STATELESS")
  case True
  let ?d = "snd (SSL_clear R c)"
  have cl: "\<not> in_init (statem (ssl c)) \<or> SSL_in_before (ssl c)" using True by (simp add: SSL_in_init_def)
  have st: "state (statem (ssl ?d)) \<in> {state (statem (ssl c)), MSG_FLOW_UNINITED, MSG_FLOW_ERROR}"
    by (rule state_SSL_clear) simp_all
  have J: "holds Jr c" using assms by (simp add: holds_def between_calls_def)
  have "holds Jr ?d" using hold_SSL_clear [OF J] cl by (auto simp: SSL_in_before_def)
  moreover have "\<not> in_init (statem (ssl c)) \<Longrightarrow> holds Jw ?d" using J J_idle by (auto simp: holds_def)
  moreover have "server (ssl ?d) = srv" if "state (statem (ssl ?d)) \<in> {MSG_FLOW_READING, MSG_FLOW_WRITING}"
    using that st side_SSL_clear [of c] assms by (auto simp: holds_def between_calls_def)
  moreover have "\<not> in_init (statem (ssl c))" if "state (statem (ssl ?d)) \<in> {MSG_FLOW_WRITING, MSG_FLOW_FINISHED}"
    using that st cl by (auto simp: SSL_in_before_def)
  moreover have "before_start Jw (trace ?d) (ssl ?d)"
    using cl hs_SSL_clear [of c] J J_idle by (auto simp: before_start_def holds_def SSL_in_before_def)
  ultimately have "holds (between_calls Jr Jw srv) ?d" unfolding holds_def between_calls_def by blast
  then show ?thesis unfolding clear_before_def if_P [OF True] .
next
  case False
  show ?thesis unfolding clear_before_def if_not_P [OF False] using assms by simp
qed

end

text \<open>Between the choice of the side and the first transition.\<close>

definition starting :: "flow_property \<Rightarrow> bool \<Rightarrow> flow_property" where
  "starting J srv h s \<longleftrightarrow> J h s \<and> server s = srv \<and> before_start J h s
     \<and> state (statem s) \<in> {MSG_FLOW_UNINITED, MSG_FLOW_FINISHED, MSG_FLOW_ERROR}"

definition started ::
  "flow_property \<Rightarrow> flow_property \<Rightarrow> bool \<Rightarrow> bool \<times> 'w conn \<Rightarrow> bool" where
  "started Jr Jw srv x \<longleftrightarrow>
     (if fst x then holds Jw (snd x) \<and> state (statem (ssl (snd x))) = MSG_FLOW_WRITING \<and> server (ssl (snd x)) = srv
      else holds (between_calls Jr Jw srv) (snd x))"

lemma starting_steady:
  "starting J srv h s \<Longrightarrow> steady s t \<Longrightarrow> hs t = hs s \<Longrightarrow> (J h s \<Longrightarrow> J h t) \<Longrightarrow> starting J srv h t"
  using before_start_steady [of J h s t] by (auto simp: starting_def steady_def)

sublocale handshake_invariant \<subseteq> start: stable R "starting Jw srv"
proof (unfold_locales, goal_cases)
  case (1 h s t)
  then show ?case using wr.P_frame starting_steady [of Jw srv h s t] frame_steady [of s t] frame_hs [of s t] by blast
next
  case (2 h s t)
  then show ?case using wr.P_routine R_steady R_keeps_hs by (blast intro: starting_steady)
next
  case (3 h s)
  then show ?case using wr.P_finish [of h s] by (auto simp: starting_def before_start_def ossl_statem_set_in_init_def)
next
  case (4 s t)
  then show ?case by (rule R_keeps_hs)
qed

context handshake_invariant
begin

lemma starting_K: "holds (starting Jw srv) c \<Longrightarrow> holds (between_calls Jr Jw srv) c"
  using Jw_Jr by (auto simp: holds_def starting_def between_calls_def)

lemma state_J: "Jr h s \<Longrightarrow> Jr h (s\<lparr>statem := (statem s)\<lparr>state := x\<rparr>\<rparr>)" "Jw h s \<Longrightarrow> Jw h (s\<lparr>statem := (statem s)\<lparr>state := x\<rparr>\<rparr>)"
  using J_control [of h s x "in_handshake (statem s)" "server s"] by (simp_all add: set_control_def)

lemma side_J: "Jw h s \<Longrightarrow> Jw h (s\<lparr>server := b\<rparr>)"
  using J_control(2) [of h s "state (statem s)" "in_handshake (statem s)" b] by (simp add: set_control_def)

lemma nesting_J:
  "between_calls Jr Jw srv h s \<Longrightarrow> between_calls Jr Jw srv h (s\<lparr>statem := (statem s)\<lparr>in_handshake := n\<rparr>\<rparr>)"
  using J_control [of h s "state (statem s)" n "server s"]
  by (auto simp: set_control_def between_calls_def before_start_def)

lemma hold_setup_side:
  assumes "holds (between_calls Jr Jw srv) c" "state (statem (ssl c)) \<in> {MSG_FLOW_UNINITED, MSG_FLOW_FINISHED}"
  shows "holds (starting Jw srv) (setup_side R srv c)"
proof -
  define d where "d = (if state (statem (ssl c)) = MSG_FLOW_UNINITED
    then on_statem (\<lambda>st. st\<lparr>hand_state := TLS_ST_BEFORE, request_state := TLS_ST_BEFORE\<rparr>) c else c)"
  have "holds Jw d" "state (statem (ssl d)) = state (statem (ssl c))"
    and "state (statem (ssl d)) = MSG_FLOW_UNINITED \<Longrightarrow> hs (ssl d) = TLS_ST_BEFORE"
    using assms J_restart by (auto simp: d_def holds_def between_calls_def before_start_def)
  then have "holds (starting Jw srv) (on_ssl (\<lambda>s. s\<lparr>server := srv\<rparr>) d)"
    using assms(2) side_J by (auto simp: holds_def starting_def before_start_def)
  then show ?thesis by (auto simp: setup_side_def Let_def d_def [symmetric])
qed

lemma start_failed: "holds (starting Jw srv) c \<Longrightarrow> started Jr Jw srv (start_failed c)"
  by (auto simp: started_def start_failed_def intro: starting_K)

lemma require:
  "holds (starting Jw srv) c \<Longrightarrow> (\<And>c. holds (starting Jw srv) c \<Longrightarrow> started Jr Jw srv (k c)) \<Longrightarrow> started Jr Jw srv (require R f k c)"
  by (auto simp: require_def Let_def case_prod_beta intro!: start_failed)

lemma hold_state:
  "holds Jr c \<Longrightarrow> holds Jr (on_statem (\<lambda>st. st\<lparr>state := x\<rparr>) c)" "holds Jw c \<Longrightarrow> holds Jw (on_statem (\<lambda>st. st\<lparr>state := x\<rparr>) c)"
  using state_J by (simp_all add: holds_def)

lemma hold_init_machines:
  "holds Jw c \<Longrightarrow> holds Jw (init_write_state_machine c)" "holds Jr c \<Longrightarrow> holds Jr (init_read_state_machine c)"
  by (auto simp: init_write_state_machine_def init_read_state_machine_def on_statem_def)

lemma init_machines_sel [simp]:
  "state (statem (ssl (init_write_state_machine c))) = state (statem (ssl c))"
  "state (statem (ssl (init_read_state_machine c))) = state (statem (ssl c))"
  "server (ssl (init_write_state_machine c)) = server (ssl c)" "server (ssl (init_read_state_machine c)) = server (ssl c)"
  by (simp_all add: init_write_state_machine_def init_read_state_machine_def)

lemma go:
  assumes "holds (starting Jw srv) c"
  shows "started Jr Jw srv (True, init_write_state_machine (on_statem (\<lambda>st. st\<lparr>state := MSG_FLOW_WRITING\<rparr>) c))"
proof -
  have "holds Jw c" "server (ssl c) = srv" using assms by (simp_all add: holds_def starting_def)
  then show ?thesis by (simp add: started_def hold_init_machines hold_state)
qed

lemma enter: assumes "holds (starting Jw srv) c" shows "started Jr Jw srv (enter_handshake e c)"
proof (cases "tls_setup_handshake e (ssl c)")
  case (Pair ok s)
  have J: "Jw (trace c) (ssl c)" "server (ssl c) = srv" using assms by (simp_all add: holds_def starting_def)
  have st: "holds (starting Jw srv) (c\<lparr>ssl := s\<rparr>)"
    using assms J_setup [OF J Pair] steady_setup [OF Pair] setup_hs [OF Pair] by (auto simp: holds_def intro: starting_steady)
  moreover from this have "holds (starting Jw srv) (on_statem (\<lambda>st. st\<lparr>read_state_first_init := True\<rparr>) (c\<lparr>ssl := s\<rparr>))"
    by (auto simp: on_statem_def)
  moreover have "started Jr Jw srv (False, c\<lparr>ssl := s\<rparr>)" using starting_K [OF st] by (simp add: started_def)
  ultimately show ?thesis using go assms Pair
    by (auto simp: enter_handshake_def Let_def split: bool.split)
qed

lemma hold_start:
  assumes "holds (between_calls Jr Jw srv) c" "state (statem (ssl c)) \<in> {MSG_FLOW_UNINITED, MSG_FLOW_FINISHED}"
  shows "started Jr Jw srv (start_handshake e R srv c)"
  using hold_setup_side [OF assms]
  by (auto simp: start_handshake_def Let_def setup_init_buf_def intro!: start_failed require enter)

lemma holds_K:
  "holds (between_calls Jr Jw srv) c \<longleftrightarrow> holds Jr c
     \<and> (state (statem (ssl c)) \<in> {MSG_FLOW_WRITING, MSG_FLOW_FINISHED} \<longrightarrow> holds Jw c)
     \<and> (state (statem (ssl c)) \<in> {MSG_FLOW_READING, MSG_FLOW_WRITING} \<longrightarrow> server (ssl c) = srv)
     \<and> before_start Jw (trace c) (ssl c)"
  by (simp add: holds_def between_calls_def)

lemma holds_control:
  "holds (control x srv n) c \<longleftrightarrow>
     state (statem (ssl c)) \<in> {x, MSG_FLOW_ERROR} \<and> server (ssl c) = srv \<and> in_handshake (statem (ssl c)) = n"
  by (simp add: holds_def control_def)

lemma K_read:
  assumes "holds (between_calls Jr Jw srv) c" "state (statem (ssl c)) = MSG_FLOW_READING"
    and m: "read_state_machine e R c = Some (r, d)"
  shows "holds (between_calls Jr Jw srv) d"
    and "r = SUB_STATE_FINISHED \<Longrightarrow>
      holds (between_calls Jr Jw srv) (init_write_state_machine (on_statem (\<lambda>st. st\<lparr>state := MSG_FLOW_WRITING\<rparr>) d))"
proof -
  have c: "holds Jr c" "server (ssl c) = srv" using assms by (auto simp: holds_K)
  note J = read_machine [OF c m]
  have "holds (control MSG_FLOW_READING srv (in_handshake (statem (ssl c)))) c" using assms(2) c by (simp add: holds_control)
  with m c(2) have "holds (control MSG_FLOW_READING srv (in_handshake (statem (ssl c)))) d"
    using ctl.read_machine by blast
  then have d: "state (statem (ssl d)) \<in> {MSG_FLOW_READING, MSG_FLOW_ERROR}" "server (ssl d) = srv"
    by (simp_all add: holds_control)
  show "holds (between_calls Jr Jw srv) d" using J d by (auto simp: holds_K)
  show "r = SUB_STATE_FINISHED \<Longrightarrow>
      holds (between_calls Jr Jw srv) (init_write_state_machine (on_statem (\<lambda>st. st\<lparr>state := MSG_FLOW_WRITING\<rparr>) d))"
    using J d Jw_Jr hold_init_machines(1) [OF hold_state(2)] by (auto simp: holds_K) (auto simp: holds_def)
qed

lemma K_write:
  assumes "holds (between_calls Jr Jw srv) c" "state (statem (ssl c)) = MSG_FLOW_WRITING"
    and m: "write_state_machine e R c = Some (r, d)"
  shows "holds (between_calls Jr Jw srv) d"
    and "holds (between_calls Jr Jw srv) (init_read_state_machine (on_statem (\<lambda>st. st\<lparr>state := MSG_FLOW_READING\<rparr>) d))"
    and "holds (between_calls Jr Jw srv) (on_statem (\<lambda>st. st\<lparr>state := MSG_FLOW_FINISHED\<rparr>) d)"
proof -
  have c: "holds Jw c" "server (ssl c) = srv" using assms by (auto simp: holds_K)
  note J = write_machine [OF c m]
  then have Jr: "holds Jr d" using Jw_Jr by (simp add: holds_def)
  have "holds (control MSG_FLOW_WRITING srv (in_handshake (statem (ssl c)))) c" using assms(2) c by (simp add: holds_control)
  with m c(2) have "holds (control MSG_FLOW_WRITING srv (in_handshake (statem (ssl c)))) d"
    using ctl.write_machine by blast
  then have d: "state (statem (ssl d)) \<in> {MSG_FLOW_WRITING, MSG_FLOW_ERROR}" "server (ssl d) = srv"
    by (simp_all add: holds_control)
  show "holds (between_calls Jr Jw srv) d" using J Jr d by (auto simp: holds_K)
  show "holds (between_calls Jr Jw srv) (init_read_state_machine (on_statem (\<lambda>st. st\<lparr>state := MSG_FLOW_READING\<rparr>) d))"
    using Jr d hold_init_machines(2) [OF hold_state(1)] by (simp add: holds_K)
  show "holds (between_calls Jr Jw srv) (on_statem (\<lambda>st. st\<lparr>state := MSG_FLOW_FINISHED\<rparr>) d)"
    using J Jr by (simp add: holds_K hold_state)
qed

lemma K_flow_round:
  assumes "holds (between_calls Jr Jw srv) c" "flow_round e R c = Some x"
  shows "case x of Inl d \<Rightarrow> holds (between_calls Jr Jw srv) d | Inr (r, d) \<Rightarrow> holds (between_calls Jr Jw srv) d"
proof (cases "state (statem (ssl c))")
  case MSG_FLOW_READING
  then show ?thesis using assms K_read [OF assms(1) MSG_FLOW_READING] by (auto simp: flow_round_def)
next
  case MSG_FLOW_WRITING
  then show ?thesis using assms K_write [OF assms(1) MSG_FLOW_WRITING] by (auto simp: flow_round_def)
qed (use assms in \<open>auto simp: flow_round_def\<close>)

lemma K_state_machine:
  assumes "holds (between_calls Jr Jw srv) c" "state_machine e R srv c = Some (r, d)"
  shows "holds (between_calls Jr Jw srv) d"
proof -
  let ?K = "holds (between_calls Jr Jw srv)"
  have leave: "?K (snd (leave_handshake R srv x))" if "?K (snd x)" for x
    using that nesting_J by (auto simp: leave_handshake_def holds_def split: prod.split)
  define b where "b = enter_call R c"
  have "?K (snd (call R clear_sys_error (snd (call R ERR_clear_error c))))" by (intro K.holds_call assms(1))
  then have "?K b" using nesting_J by (simp add: b_def enter_call_def holds_def)
  obtain ok f where f: "clear_before R b = (ok, f)" by fastforce
  have Kf: "?K f" using K_clear_before [OF \<open>?K b\<close>] f by simp
  obtain ok' g where g: "(if state (statem (ssl f)) = MSG_FLOW_UNINITED \<or> state (statem (ssl f)) = MSG_FLOW_FINISHED
      then start_handshake e R srv f else (True, f)) = (ok', g)" by fastforce
  have Kg: "?K g" using hold_start [OF Kf] g Kf Jw_Jr
    by (auto simp: started_def holds_K split: if_splits) (auto simp: holds_def)
  have it: "?K (snd x)" if "iterate (flow_round e R) g = Some x" for x
    by (rule iterate_invariant [OF that, of ?K "\<lambda>x. ?K (snd x)"])
      (use Kg in \<open>auto dest: K_flow_round\<close>)
  show ?thesis using assms f g Kf Kg leave [of "(- 1, g)"] leave it
    by (auto simp: state_machine_def Let_def b_def [symmetric] split: if_splits)
      (metis snd_conv)+
qed

end

section \<open>When a handshake ends\<close>

context orderly_routines
begin

lemma finish_stop:
  assumes "tls_finish_handshake R cb stop c = (WORK_FINISHED_STOP, d)"
  shows "\<not> in_init (statem (ssl d)) \<and> hs (ssl d) = hs (ssl c)"
  using assms unfolding tls_finish_handshake_def finish_init_def Let_def case_prod_beta
  by (auto simp: ossl_statem_set_in_init_def ctl.rd.hs_clear_buffers ctl.rd.hs_cleanup split: if_splits)

lemma fst_work [simp]:
  "fst (work_done c) \<noteq> WORK_FINISHED_STOP"
  "(\<And>c. fst (k c) \<noteq> WORK_FINISHED_STOP) \<Longrightarrow> fst (or_error R f k c) \<noteq> WORK_FINISHED_STOP"
  "(\<And>c. fst (k c) \<noteq> WORK_FINISHED_STOP) \<Longrightarrow> w \<noteq> WORK_FINISHED_STOP \<Longrightarrow> fst (or_retry R w k c) \<noteq> WORK_FINISHED_STOP"
  "(\<And>c. fst (k c) \<noteq> WORK_FINISHED_STOP) \<Longrightarrow> fst (init_finished_mac e k c) \<noteq> WORK_FINISHED_STOP"
  by (auto simp: work_done_def or_error_def or_retry_def init_finished_mac_def Let_def case_prod_beta)

lemma pre_change_never_stops: "fst (server_pre_change R c) \<noteq> WORK_FINISHED_STOP"
  unfolding server_pre_change_def Let_def by (auto split: option.split)

lemma finish_goes_on: "fst (tls_finish_handshake R cb False c) \<noteq> WORK_FINISHED_STOP"
  by (simp add: tls_finish_handshake_def finish_init_def Let_def case_prod_beta)

lemma finish_stop_pair:
  "fst (tls_finish_handshake R cb stop c) = WORK_FINISHED_STOP \<Longrightarrow>
    \<not> in_init (statem (ssl (snd (tls_finish_handshake R cb stop c)))) \<and> hs (ssl (snd (tls_finish_handshake R cb stop c))) = hs (ssl c)"
  using finish_stop by (metis prod.collapse)

lemma pre_work_stop:
  assumes "fst (pre_work e R srv w c) = WORK_FINISHED_STOP"
  shows "\<not> in_init (statem (ssl (snd (pre_work e R srv w c)))) \<and> hs (ssl (snd (pre_work e R srv w c))) \<in> finish_states"
proof (cases srv)
  case True
  then show ?thesis using assms
    by (cases "hs (ssl c)") (auto simp: pre_work_def ossl_statem_server_pre_work_def Let_def
      pre_change_never_stops finish_goes_on finish_stop_pair finish_states_def split: if_splits)
next
  case False
  then show ?thesis using assms
    by (cases "hs (ssl c)") (simp_all add: pre_work_def ossl_statem_client_pre_work_def Let_def
      finish_goes_on finish_stop_pair finish_states_def split: if_splits)
qed

lemma post_parts_never_stop:
  "fst (client_post_hello R c) \<noteq> WORK_FINISHED_STOP" "fst (client_post_change R c) \<noteq> WORK_FINISHED_STOP"
  "fst (client_post_finished R c) \<noteq> WORK_FINISHED_STOP" "fst (server_post_change R c) \<noteq> WORK_FINISHED_STOP"
  "fst (server_post_finished R c) \<noteq> WORK_FINISHED_STOP" "fst (server_post_ticket R c) \<noteq> WORK_FINISHED_STOP"
  by (simp_all add: client_post_hello_def client_post_change_def client_post_finished_def server_post_change_def
      server_post_finished_def server_post_ticket_def Let_def case_prod_beta)

lemma post_hello_never_stops: "fst (server_post_hello R c) \<noteq> WORK_FINISHED_STOP"
  by (simp add: server_post_hello_def post_parts_never_stop)

lemma post_work_never_stops: "fst (post_work e R srv w c) \<noteq> WORK_FINISHED_STOP"
  by (cases srv; cases "hs (ssl c)")
    (simp_all add: post_work_def ossl_statem_server_post_work_def ossl_statem_client_post_work_def
      post_parts_never_stop post_hello_never_stops Let_def)

lemma write_round_ends:
  assumes "write_round e R srv c = Inr (SUB_STATE_END_HANDSHAKE, d)"
  shows "\<not> in_init (statem (ssl d)) \<and> hs (ssl d) \<in> finish_states"
proof -
  have post: "write_post_work e R srv c \<noteq> Inr (SUB_STATE_END_HANDSHAKE, d)" for c
    using post_work_never_stops [of e srv "write_state_work (statem (ssl c))" c]
    by (auto simp: write_post_work_def Let_def case_prod_beta split: WORK_STATE.splits)
  then have send: "write_send e R srv c \<noteq> Inr (SUB_STATE_END_HANDSHAKE, d)" for c
    by (simp add: write_send_def Let_def case_prod_beta)
  then have construct: "write_construct e R srv c \<noteq> Inr (SUB_STATE_END_HANDSHAKE, d)" for c
    by (auto simp: write_construct_def Let_def case_prod_beta split: option.splits)
  have nxt: "write_next e R srv c \<noteq> Inr (SUB_STATE_END_HANDSHAKE, d)"
    by (auto simp: write_next_def Let_def case_prod_beta split: WRITE_TRAN.splits)
  from assms post send nxt have "write_pre_work e R srv c = Inr (SUB_STATE_END_HANDSHAKE, d)"
    by (auto simp: write_round_def split: WRITE_STATE.splits)
  then show ?thesis using construct pre_work_stop [of e srv "write_state_work (statem (ssl c))" c]
    by (auto simp: write_pre_work_def Let_def case_prod_beta split: WORK_STATE.splits)
qed

lemma write_machine_ends:
  assumes "write_state_machine e R c = Some (SUB_STATE_END_HANDSHAKE, d)"
  shows "\<not> in_init (statem (ssl d)) \<and> hs (ssl d) \<in> finish_states"
proof -
  have "case (SUB_STATE_END_HANDSHAKE, d) of (r, d) \<Rightarrow> r = SUB_STATE_END_HANDSHAKE \<longrightarrow>
      \<not> in_init (statem (ssl d)) \<and> hs (ssl d) \<in> finish_states"
    by (rule iterate_invariant [OF assms [unfolded write_state_machine_def], of "\<lambda>_. True"
      "\<lambda>x. case x of (r, d) \<Rightarrow> r = SUB_STATE_END_HANDSHAKE \<longrightarrow> \<not> in_init (statem (ssl d)) \<and> hs (ssl d) \<in> finish_states"])
      (auto dest: write_round_ends)
  then show ?thesis by simp
qed

lemma flow_loop_ends:
  assumes "iterate (flow_round e R) c = Some (1, d)" "state (statem (ssl c)) \<noteq> MSG_FLOW_FINISHED"
  shows "state (statem (ssl d)) = MSG_FLOW_FINISHED \<and> \<not> in_init (statem (ssl d)) \<and> hs (ssl d) \<in> finish_states"
proof -
  define Q where "Q = (\<lambda>c :: 'w conn. state (statem (ssl c)) = MSG_FLOW_FINISHED \<longrightarrow>
     \<not> in_init (statem (ssl c)) \<and> hs (ssl c) \<in> finish_states)"
  have step: "Q d'" if "flow_round e R c' = Some (Inl d')" for c' d'
  proof (cases "state (statem (ssl c'))")
    case MSG_FLOW_READING
    with that show ?thesis by (auto simp: flow_round_def Q_def init_write_state_machine_def split: if_splits)
  next
    case MSG_FLOW_WRITING
    with that show ?thesis
      by (auto simp: flow_round_def Q_def init_read_state_machine_def split: if_splits dest: write_machine_ends)
  qed (use that in \<open>auto simp: flow_round_def\<close>)
  have exit: "state (statem (ssl d')) = MSG_FLOW_FINISHED \<and> Q d'" if "Q c'" "flow_round e R c' = Some (Inr (1, d'))" for c' d'
    using that by (auto simp: flow_round_def split: MSG_FLOW_STATE.splits if_splits)
  have Qc: "Q c" using assms(2) by (simp add: Q_def)
  have "case (1 :: int, d) of (r, d) \<Rightarrow> r = 1 \<longrightarrow> state (statem (ssl d)) = MSG_FLOW_FINISHED \<and> Q d"
    by (rule iterate_invariant [OF assms(1), of Q "\<lambda>x. case x of (r, d) \<Rightarrow> r = 1 \<longrightarrow> state (statem (ssl d)) = MSG_FLOW_FINISHED \<and> Q d"])
      (use Qc step exit in auto)
  then show ?thesis by (simp add: Q_def)
qed

lemma require_goes_on: "require R f k c = (True, d) \<Longrightarrow> \<exists>c'. k c' = (True, d)"
  by (auto simp: require_def Let_def case_prod_beta start_failed_def split: if_splits)

lemma enter_writing: "enter_handshake e c = (True, d) \<Longrightarrow> state (statem (ssl d)) = MSG_FLOW_WRITING"
  by (auto simp: enter_handshake_def Let_def init_write_state_machine_def split: if_splits prod.splits bool.splits)

lemma started_writing: "start_handshake e R srv c = (True, d) \<Longrightarrow> state (statem (ssl d)) = MSG_FLOW_WRITING"
  unfolding start_handshake_def setup_init_buf_def Let_def
  by (auto simp: start_failed_def split: if_splits dest!: require_goes_on dest: enter_writing)

lemma state_machine_ends:
  assumes "state_machine e R srv c = Some (1, d)"
  shows "state (statem (ssl d)) = MSG_FLOW_FINISHED \<and> \<not> in_init (statem (ssl d)) \<and> hs (ssl d) \<in> finish_states"
proof -
  define b where "b = enter_call R c"
  obtain ok f where f: "clear_before R b = (ok, f)" by fastforce
  obtain ok' g where g: "(if state (statem (ssl f)) = MSG_FLOW_UNINITED \<or> state (statem (ssl f)) = MSG_FLOW_FINISHED
      then start_handshake e R srv f else (True, f)) = (ok', g)" by fastforce
  from assms f g obtain x where x: "iterate (flow_round e R) g = Some x" "leave_handshake R srv x = (1, d)" and ok': "ok'"
    by (auto simp: state_machine_def Let_def b_def [symmetric] leave_handshake_def split: if_splits)
  then obtain d' where d': "x = (1, d')" "ssl d = (ssl d')\<lparr>statem := (statem (ssl d'))\<lparr>in_handshake := in_handshake (statem (ssl d')) - 1\<rparr>\<rparr>"
    by (cases x) (auto simp: leave_handshake_def)
  have "state (statem (ssl g)) \<noteq> MSG_FLOW_FINISHED"
    using g ok' started_writing [of e srv f g] by (auto split: if_splits)
  with flow_loop_ends x d' show ?thesis by auto
qed

end

section \<open>Connections before TLS 1.3\<close>

text \<open>One call of the state machine by the application, in whatever world it happens.\<close>

definition calls :: "statem_env \<Rightarrow> 'w routines \<Rightarrow> bool \<Rightarrow> 'w conn \<Rightarrow> 'w conn \<Rightarrow> bool" where
  "calls e R srv c d \<longleftrightarrow> (\<exists>w r. state_machine e R srv (c\<lparr>world := w\<rparr>) = Some (r, d))"

context handshake_invariant
begin

lemma K_calls: "(calls e R srv)\<^sup>*\<^sup>* c d \<Longrightarrow> holds (between_calls Jr Jw srv) c \<Longrightarrow> holds (between_calls Jr Jw srv) d"
proof (induction rule: rtranclp_induct)
  case (step b d)
  then obtain w r where m: "state_machine e R srv (b\<lparr>world := w\<rparr>) = Some (r, d)" by (auto simp: calls_def)
  have "holds (between_calls Jr Jw srv) (b\<lparr>world := w\<rparr>)" using step by (simp add: holds_def)
  then show ?case using m by (rule K_state_machine)
qed

lemma calls_finished:
  assumes "holds (between_calls Jr Jw srv) c" "(calls e R srv)\<^sup>*\<^sup>* c b" "state_machine e R srv b = Some (1, d)"
  shows "holds Jw d \<and> \<not> in_init (statem (ssl d)) \<and> hs (ssl d) \<in> finish_states"
  using K_state_machine [OF K_calls [OF assms(2,1)] assms(3)] state_machine_ends [OF assms(3)] by (auto simp: holds_K)

end

lemma frame_reject: "reject_message s mt = (ok, t) \<Longrightarrow> frame s t"
  by (auto simp: reject_message_def split: if_splits) (simp add: frame_simps)

lemma setup_core:
  assumes "tls_setup_handshake e s = (ok, t)"
  shows "hs t = hs s \<and> method_version t = method_version s \<and> enc_flags t = enc_flags s
    \<and> hello_retry_request t = hello_retry_request s \<and> early_data_state t = early_data_state s
    \<and> finish_md_len (s3 t) = finish_md_len (s3 s) \<and> peer_finish_md_len (s3 t) = peer_finish_md_len (s3 s)
    \<and> (if server s then hit t = hit s else hit t = hit s \<or> \<not> hit t)"
  using assms
  by (auto simp: tls_setup_handshake_def ssl3_init_finished_mac_def ossl_statem_fatal_def Let_def
      split: if_splits option.splits prod.splits)

lemma setup_keeps:
  assumes "tls_setup_handshake e s = (ok, t)"
  shows "hs t = hs s" "SSL_IS_TLS13 t = SSL_IS_TLS13 s" "SSL_IS_FIRST_HANDSHAKE t = SSL_IS_FIRST_HANDSHAKE s"
    "hello_retry_request t = hello_retry_request s" "early_data_state t = early_data_state s"
    "if server s then hit t = hit s else hit t = hit s \<or> \<not> hit t"
  using setup_core [OF assms] by (simp_all add: SSL_IS_TLS13_def SSL_IS_DTLS_def SSL_IS_FIRST_HANDSHAKE_def)

text \<open>What is asked of a client's routines: the connection does not become one of TLS 1.3, resumption is decided
  before the message after the ServerHello, and reading ends at a ServerHello only when it is a
  HelloRetryRequest.\<close>

definition client_routines :: "'w routines \<Rightarrow> bool" where
  "client_routines R \<longleftrightarrow> orderly R \<and> (\<forall>s t. routine_step R s t \<longrightarrow> client_work s t)
     \<and> (\<forall>len s w t w'. msg_process R tls_process_server_hello len s w = (MSG_PROCESS_FINISHED_READING, t, w')
          \<longrightarrow> hello_retry_request t = SSL_HRR_PENDING)"

definition client_reading :: flow_property where
  "client_reading h s \<longleftrightarrow> finished_read h
     \<or> client_pending (ccs_read h) s \<and> in_init (statem s) \<and> hs s \<noteq> TLS_ST_EARLY_DATA"

definition client_writing :: flow_property where
  "client_writing h s \<longleftrightarrow> finished_read h
     \<or> client_pending (ccs_read h) s \<and> in_init (statem s) \<and> hs s \<notin> {TLS_ST_EARLY_DATA, TLS_ST_CR_SRVR_HELLO}"

lemma client_pending_keeps:
  assumes "client_pending ccs s" "hs t = hs s" "pre13 s \<Longrightarrow> pre13 t" "hs s \<notin> client_hello_states \<Longrightarrow> hit t = hit s \<or> \<not> hit t"
  shows "client_pending ccs t"
  using assms by (auto simp: client_pending_def)

lemma frame_pre13: "frame s t \<Longrightarrow> pre13 s \<Longrightarrow> pre13 t"
  by (simp add: frame_def pre13_def)

lemma client_J_keeps:
  assumes "hs t = hs s" "pre13 s \<Longrightarrow> pre13 t" "hs s \<notin> client_hello_states \<Longrightarrow> hit t = hit s \<or> \<not> hit t"
    and "in_init (statem s) \<Longrightarrow> in_init (statem t)"
  shows "client_reading h s \<Longrightarrow> client_reading h t" "client_writing h s \<Longrightarrow> client_writing h t"
  using assms client_pending_keeps [of "ccs_read h" s t] by (auto simp: client_reading_def client_writing_def)

lemma client_J_frame:
  assumes "frame s t" shows "client_reading h s \<Longrightarrow> client_reading h t" "client_writing h s \<Longrightarrow> client_writing h t"
  using client_J_keeps [of t s h] frame_pre13 [OF assms] assms by (auto simp: frame_def)

lemma client_J_finish:
  assumes "hs s \<in> finish_states"
  shows "client_reading h s \<Longrightarrow> client_reading h t" "client_writing h s \<Longrightarrow> client_writing h t"
  using assms by (auto simp: client_reading_def client_writing_def client_pending_def client_hello_states_def
      client_full_states_def finish_states_def)

lemma client_J_read:
  assumes "client_reading h s" "read_transition e False s mt = (ok, t)"
  shows "client_reading (if ok then h @ [Read mt] else h) t"
proof (cases "finished_read h")
  case True
  then show ?thesis by (simp add: client_reading_def finished_read_snoc)
next
  case False
  with assms(1) have p: "client_pending (ccs_read h) s" "in_init (statem s)" by (simp_all add: client_reading_def)
  have r: "ossl_statem_client_read_transition e s mt = (ok, t)" using assms(2) by (simp add: read_transition_def)
  have i: "in_init (statem t)" using steady_read [OF assms(2)] p(2) by (simp add: steady_def)
  show ?thesis
  proof (cases ok)
    case True
    with client_pending_read [OF p(1)] client_read_states r i show ?thesis
      by (fastforce simp: client_reading_def ccs_read_snoc finished_read_snoc)
  next
    case False
    have "\<not> SSL_IS_TLS13 s" using p(1) by (simp add: client_pending_def pre13_def)
    with r False have "reject_message s mt = (ok, t)"
      by (auto simp: ossl_statem_client_read_transition_def split: option.splits)
    then show ?thesis using client_J_frame(1) [OF frame_reject] assms(1) False by simp
  qed
qed

lemma client_write_target:
  assumes "pre13 s" "ossl_statem_client_write_transition e s = (WRITE_TRAN_CONTINUE, t)"
  shows "hs t \<noteq> TLS_ST_EARLY_DATA" "hs t \<noteq> TLS_ST_CR_SRVR_HELLO"
  using assms client_write_states [OF assms(2)]
  by (cases "hs s"; auto simp: pre13_def client_defs client_write_after_hello_req_def Let_def
      split: if_splits prod.splits bool.splits)+

lemma client_write_stays:
  assumes "client_pending ccs s" "ossl_statem_client_write_transition e s = (r, t)" "r \<noteq> WRITE_TRAN_CONTINUE"
  shows "frame s t"
proof -
  have "frame s s" by (simp add: frame_def)
  with assms show ?thesis
    by (cases "hs s") (auto simp: client_pending_def pre13_def client_hello_states_def client_full_states_def client_defs
        Let_def split: if_splits)
qed

lemma client_J_write:
  assumes "client_writing h s" "write_transition e False s = (r, t)"
  shows "client_writing (if r = WRITE_TRAN_CONTINUE then h @ [Write (hs t)] else h) t"
proof (cases "finished_read h")
  case True
  then show ?thesis by (simp add: client_writing_def finished_read_snoc)
next
  case False
  with assms(1) have p: "client_pending (ccs_read h) s" "in_init (statem s)" "hs s \<noteq> TLS_ST_CR_SRVR_HELLO"
    by (simp_all add: client_writing_def)
  have w: "ossl_statem_client_write_transition e s = (r, t)" using assms(2) by (simp add: write_transition_def)
  have i: "in_init (statem t)" using steady_write [OF assms(2)] p(2) by (simp add: steady_def)
  show ?thesis
  proof (cases "r = WRITE_TRAN_CONTINUE")
    case True
    with w have w': "ossl_statem_client_write_transition e s = (WRITE_TRAN_CONTINUE, t)" by simp
    have "client_may_write s" using p(3) by (simp add: client_may_write_def)
    with p(1) w' have "client_pending (ccs_read h) t" by (blast intro: client_pending_write)
    moreover have "pre13 s" using p(1) by (simp add: client_pending_def)
    ultimately show ?thesis using client_write_target [OF _ w'] i True
      by (simp add: client_writing_def ccs_read_snoc)
  next
    case False
    then show ?thesis using client_J_frame(2) [OF client_write_stays [OF p(1) w]] assms(1) by simp
  qed
qed

locale client_connection =
  fixes R :: "'w routines"
  assumes client_routines: "client_routines R"
begin

lemma client_stable: "stable R client_reading" "stable R client_writing"
proof -
  have o: "routine_step R s t \<Longrightarrow> hs t = hs s" and i: "routine_step R s t \<Longrightarrow> steady s t"
    and w: "routine_step R s t \<Longrightarrow> client_work s t" for s t
    using client_routines by (auto simp: client_routines_def orderly_def)
  have "(client_reading h s \<longrightarrow> client_reading h t) \<and> (client_writing h s \<longrightarrow> client_writing h t)" if "routine_step R s t" for h s t
    using o [OF that] i [OF that] w [OF that] client_J_keeps [of t s h] by (auto simp: client_work_def steady_def)
  then show "stable R client_reading" "stable R client_writing"
    by (unfold_locales, auto intro: client_J_frame client_J_finish o)
qed

lemma client_hand_over:
  assumes "client_reading h s" "routine_step R s t"
    and "hs s = TLS_ST_CR_SRVR_HELLO \<Longrightarrow> hello_retry_request t = SSL_HRR_PENDING"
  shows "client_writing h t"
proof -
  have "hs t = hs s" using client_routines assms(2) by (auto simp: client_routines_def orderly_def)
  moreover have "client_reading h t" using stable.P_routine [OF client_stable(1)] assms(1,2) .
  ultimately show ?thesis using assms(3)
    by (auto simp: client_reading_def client_writing_def client_pending_def pre13_def)
qed

lemma client_phase: "phase_invariant R client_reading client_writing False"
proof (intro phase_invariant.intro phase_invariant_axioms.intro client_stable, goal_cases)
  case (1 h s f len w t w')
  have "f = tls_process_server_hello" if "hs s = TLS_ST_CR_SRVR_HELLO"
    using 1(2) that by (simp add: process_table_def ossl_statem_client_process_message_def)
  then show ?case using 1(3) client_routines unfolding client_routines_def
    by (intro client_hand_over [OF 1(1) step_process [OF 1(3)]]) blast
next
  case (2 h s f wst w t w')
  have "hs s \<noteq> TLS_ST_CR_SRVR_HELLO"
    using 2(2) by (auto simp: post_process_table_def ossl_statem_client_post_process_message_def)
  then show ?case by (intro client_hand_over [OF 2(1) step_post [OF 2(3)]]) auto
qed

lemma client_handshake: "handshake_invariant R client_reading client_writing False e"
proof (intro handshake_invariant.intro loop_invariant.intro loop_invariant_axioms.intro orderly_routines.intro
    handshake_invariant_axioms.intro client_phase, goal_cases)
  case (1 h s mt ok t)
  then show ?case by (rule client_J_read)
next
  case (2 h s r t)
  then show ?case by (rule client_J_write)
next
  case 3
  then show ?case using client_routines by (simp add: client_routines_def)
next
  case (4 h s)
  then show ?case by (auto simp: client_reading_def client_writing_def)
next
  case (5 h s x n b)
  then show ?case by (rule client_J_keeps(1) [rotated -1]) (simp_all add: set_control_def pre13_def SSL_IS_TLS13_def SSL_IS_DTLS_def)
next
  case (6 h s x n b)
  then show ?case by (rule client_J_keeps(2) [rotated -1]) (simp_all add: set_control_def pre13_def SSL_IS_TLS13_def SSL_IS_DTLS_def)
next
  case (7 h s t)
  then show ?case by (simp add: client_reading_def client_writing_def)
next
  case (8 h s)
  then show ?case
    by (auto simp: client_reading_def client_writing_def client_pending_def client_hello_states_def pre13_def)
next
  case (9 h s ok t)
  show ?case
    by (rule client_J_keeps(2) [OF _ _ _ _ 9(1)])
      (use setup_keeps [OF 9(3)] steady_setup [OF 9(3)] in \<open>auto simp: pre13_def steady_def split: if_splits\<close>)
next
  case (10 h s)
  then show ?case
    by (auto simp: client_reading_def client_pending_def client_hello_states_def pre13_def SSL_IS_TLS13_def SSL_IS_DTLS_def)
next
  case (11 h s)
  then show ?case
    by (auto simp: client_reading_def client_pending_def client_hello_states_def pre13_def ossl_statem_clear_def)
qed

end

sublocale client_connection \<subseteq> handshake_invariant R client_reading client_writing False e for e
  by (rule client_handshake)

context client_connection
begin

lemma connect_finished:
  assumes "pre13 (ssl c)" "SSL_in_before (ssl c)" "SSL_in_init (ssl c)"
    and "(calls e R False)\<^sup>*\<^sup>* c b" "ossl_statem_connect e R b = Some (1, d)"
  shows "\<not> in_init (statem (ssl d)) \<and> hs (ssl d) \<in> finish_states \<and> finished_read (trace d)"
proof -
  have "holds (between_calls client_reading client_writing False) c"
    using assms(1-3) by (simp add: holds_def between_calls_def before_start_def client_reading_def client_pending_def
      client_hello_states_def SSL_in_before_def SSL_in_init_def)
  from calls_finished [OF this assms(4)] assms(5)
  have "holds client_writing d" "\<not> in_init (statem (ssl d))" "hs (ssl d) \<in> finish_states"
    by (auto simp: ossl_statem_connect_def)
  then show ?thesis by (auto simp: holds_def client_writing_def)
qed

end

text \<open>The same of a server's routines: they keep the version, resumption is decided with the ClientHello,
  and the length of the server's verify data is set in the states that send a Finished only.\<close>

definition server_routines :: "'w routines \<Rightarrow> bool" where
  "server_routines R \<longleftrightarrow> orderly R \<and> (\<forall>s t. routine_step R s t \<longrightarrow> server_work s t)"

definition server_waiting :: flow_property where
  "server_waiting h s \<longleftrightarrow> finished_read h \<or> server_pending (ccs_read h) s \<and> in_init (statem s)"

lemma server_J_keeps:
  assumes "server_waiting h s" "hs t = hs s" "server_work s t" "in_init (statem s) \<Longrightarrow> in_init (statem t)"
  shows "server_waiting h t"
  using assms server_pending_work [of "ccs_read h" s t] by (auto simp: server_waiting_def)

lemma server_J_frame: "server_waiting h s \<Longrightarrow> frame s t \<Longrightarrow> server_waiting h t"
  by (erule server_J_keeps) (auto simp: frame_def server_work_def)

lemma server_J_finish: "server_waiting h s \<Longrightarrow> hs s \<in> finish_states \<Longrightarrow> server_waiting h t"
proof -
  have "\<not> server_pending ccs s" if "hs s = x" "x \<in> finish_states" for ccs x
    using that by (cases x) (simp_all add: server_pending_def server_hello_states_def server_full_states_def
      server_resumed_states_def finish_states_def)
  then show "server_waiting h s \<Longrightarrow> hs s \<in> finish_states \<Longrightarrow> server_waiting h t"
    by (auto simp: server_waiting_def)
qed

lemma server_J_read:
  assumes "server_waiting h s" "read_transition e True s mt = (ok, t)"
  shows "server_waiting (if ok then h @ [Read mt] else h) t"
proof (cases "finished_read h")
  case True
  then show ?thesis by (simp add: server_waiting_def finished_read_snoc)
next
  case False
  with assms(1) have p: "server_pending (ccs_read h) s" "in_init (statem s)" by (simp_all add: server_waiting_def)
  have r: "ossl_statem_server_read_transition s mt = (ok, t)" using assms(2) by (simp add: read_transition_def)
  have i: "in_init (statem t)" using steady_read [OF assms(2)] p(2) by (simp add: steady_def)
  show ?thesis
  proof (cases ok)
    case True
    with server_pending_read [OF p(1)] r i show ?thesis
      by (fastforce simp: server_waiting_def ccs_read_snoc finished_read_snoc)
  next
    case False
    have "\<not> SSL_IS_TLS13 s" using p(1) by (simp add: server_pending_def)
    with r False have "frame s t"
      by (auto simp: ossl_statem_server_read_transition_def server_after_done_def split: if_splits option.splits
          intro: frame_reject)
    then show ?thesis using server_J_frame assms(1) False by simp
  qed
qed

lemma server_write_stays:
  assumes "server_pending ccs s" "ossl_statem_server_write_transition e s = (r, t)" "r \<noteq> WRITE_TRAN_CONTINUE"
  shows "frame s t"
proof -
  have "frame s s" by (simp add: frame_def)
  with assms show ?thesis
    by (cases "hs s") (auto simp: server_pending_def server_hello_states_def server_full_states_def
        server_resumed_states_def server_defs split: if_splits)
qed

lemma server_J_write:
  assumes "server_waiting h s" "write_transition e True s = (r, t)"
  shows "server_waiting (if r = WRITE_TRAN_CONTINUE then h @ [Write (hs t)] else h) t"
proof (cases "finished_read h")
  case True
  then show ?thesis by (simp add: server_waiting_def finished_read_snoc)
next
  case False
  with assms(1) have p: "server_pending (ccs_read h) s" "in_init (statem s)" by (simp_all add: server_waiting_def)
  have w: "ossl_statem_server_write_transition e s = (r, t)" using assms(2) by (simp add: write_transition_def)
  have i: "in_init (statem t)" using steady_write [OF assms(2)] p(2) by (simp add: steady_def)
  show ?thesis
  proof (cases "r = WRITE_TRAN_CONTINUE")
    case True
    with w p(1) have "server_pending (ccs_read h) t" by (blast intro: server_pending_write)
    then show ?thesis using i True by (simp add: server_waiting_def ccs_read_snoc)
  next
    case False
    then show ?thesis using server_J_frame [OF assms(1) server_write_stays [OF p(1) w]] by simp
  qed
qed

locale server_connection =
  fixes R :: "'w routines"
  assumes server_routines: "server_routines R"
begin

lemma server_step: "routine_step R s t \<Longrightarrow> hs t = hs s \<and> steady s t \<and> server_work s t"
  using server_routines by (auto simp: server_routines_def orderly_def)

lemma server_J_step: "server_waiting h s \<Longrightarrow> routine_step R s t \<Longrightarrow> server_waiting h t"
  using server_step [of s t] server_J_keeps [of h s t] by (auto simp: steady_def)

lemma server_stable: "stable R server_waiting"
  by unfold_locales (auto intro: server_J_frame server_J_finish server_J_step simp: server_step)

lemma server_handshake: "handshake_invariant R server_waiting server_waiting True e"
proof (intro handshake_invariant.intro loop_invariant.intro loop_invariant_axioms.intro orderly_routines.intro
    handshake_invariant_axioms.intro phase_invariant.intro phase_invariant_axioms.intro server_stable, goal_cases)
  case (1 h s f len w t w')
  then show ?case by (blast intro: server_J_step step_process)
next
  case (2 h s f wst w t w')
  then show ?case by (blast intro: server_J_step step_post)
next
  case (3 h s mt ok t)
  then show ?case by (rule server_J_read)
next
  case (4 h s r t)
  then show ?case by (rule server_J_write)
next
  case 5
  then show ?case using server_routines by (simp add: server_routines_def)
next
  case (6 h s)
  then show ?case .
next
  case (7 h s x n b)
  then show ?case
    by (rule server_J_keeps) (simp_all add: set_control_def server_work_def SSL_IS_TLS13_def SSL_IS_DTLS_def)
next
  case (8 h s x n b)
  then show ?case
    by (rule server_J_keeps) (simp_all add: set_control_def server_work_def SSL_IS_TLS13_def SSL_IS_DTLS_def)
next
  case (9 h s t)
  then show ?case by (simp add: server_waiting_def)
next
  case (10 h s)
  then show ?case
    by (auto simp: server_waiting_def server_pending_def server_hello_states_def SSL_IS_FIRST_HANDSHAKE_def)
next
  case (11 h s ok t)
  show ?case
    by (rule server_J_keeps [OF 11(1)])
      (use 11(2) setup_keeps [OF 11(3)] setup_core [OF 11(3)] steady_setup [OF 11(3)] in \<open>auto simp: server_work_def steady_def\<close>)
next
  case (12 h s)
  then show ?case
    by (auto simp: server_waiting_def server_pending_def server_hello_states_def SSL_IS_FIRST_HANDSHAKE_def
        SSL_IS_TLS13_def SSL_IS_DTLS_def)
next
  case (13 h s)
  then show ?case
    by (auto simp: server_waiting_def server_pending_def server_hello_states_def SSL_IS_FIRST_HANDSHAKE_def ossl_statem_clear_def)
qed

end

sublocale server_connection \<subseteq> handshake_invariant R server_waiting server_waiting True e for e
  by (rule server_handshake)

context server_connection
begin

lemma accept_finished:
  assumes "\<not> SSL_IS_TLS13 (ssl c)" "finish_md_len (s3 (ssl c)) = 0" "SSL_in_before (ssl c)" "SSL_in_init (ssl c)"
    and "(calls e R True)\<^sup>*\<^sup>* c b" "ossl_statem_accept e R b = Some (1, d)"
  shows "\<not> in_init (statem (ssl d)) \<and> hs (ssl d) \<in> finish_states \<and> finished_read (trace d)"
proof -
  have "holds (between_calls server_waiting server_waiting True) c"
    using assms(1-4) by (simp add: holds_def between_calls_def before_start_def server_waiting_def server_pending_def
      server_hello_states_def SSL_in_before_def SSL_in_init_def)
  from calls_finished [OF this assms(5)] assms(6)
  have "holds server_waiting d" "\<not> in_init (statem (ssl d))" "hs (ssl d) \<in> finish_states"
    by (auto simp: ossl_statem_accept_def)
  then show ?thesis by (auto simp: holds_def server_waiting_def)
qed

end

section \<open>Nesting of handshakes\<close>

abbreviation nesting :: "'w conn \<Rightarrow> int" where
  "nesting c \<equiv> in_handshake (statem (ssl c))"

context orderly_routines
begin

lemma nesting_call [simp]: "nesting (snd (call R f c)) = nesting c"
  using steady_call [of c f] by (simp add: steady_def)

lemma nesting_fatal [simp]: "nesting (SSLfatal c al r) = nesting c"
  by (simp add: SSLfatal_def ossl_statem_fatal_def Let_def)

lemma nesting_require: "(\<And>c. nesting (snd (k c)) = nesting c) \<Longrightarrow> nesting (snd (require R f k c)) = nesting c"
  by (simp add: require_def start_failed_def Let_def case_prod_beta)

lemma nesting_enter: "nesting (snd (enter_handshake e c)) = nesting c"
  using steady_setup [of e "ssl c"]
  by (cases "tls_setup_handshake e (ssl c)")
    (auto simp: enter_handshake_def init_write_state_machine_def Let_def steady_def split: bool.split)

lemma nesting_start: "nesting (snd (start_handshake e R srv c)) = nesting c"
proof -
  have side: "nesting (setup_side R srv c) = nesting c" by (simp add: setup_side_def Let_def)
  show ?thesis
    by (auto simp: start_handshake_def setup_init_buf_def Let_def start_failed_def side nesting_enter intro!: nesting_require [THEN trans])
qed

lemma nesting_machines:
  "read_state_machine e R c = Some (r, d) \<Longrightarrow> nesting d = nesting c"
  "write_state_machine e R c = Some (r, d) \<Longrightarrow> nesting d = nesting c"
proof -
  have c: "holds (control (state (statem (ssl c))) (server (ssl c)) (nesting c)) c"
    by (simp add: holds_def control_def)
  show "read_state_machine e R c = Some (r, d) \<Longrightarrow> nesting d = nesting c"
    using ctl.read_machine [OF c] by (simp add: holds_def control_def)
  show "write_state_machine e R c = Some (r, d) \<Longrightarrow> nesting d = nesting c"
    using ctl.write_machine [OF c] by (simp add: holds_def control_def)
qed

lemma nesting_flow_round:
  "flow_round e R c = Some (Inl d) \<Longrightarrow> nesting d = nesting c"
  "flow_round e R c = Some (Inr (r, d)) \<Longrightarrow> nesting d = nesting c"
  by (cases "state (statem (ssl c))";
      auto simp: flow_round_def init_write_state_machine_def init_read_state_machine_def check_fatal_def
        ossl_statem_fatal_def Let_def split: if_splits dest!: nesting_machines)+

lemma nesting_flow:
  assumes "iterate (flow_round e R) c = Some x" shows "nesting (snd x) = nesting c"
  by (rule iterate_invariant [OF assms, of "\<lambda>d. nesting d = nesting c" "\<lambda>x. nesting (snd x) = nesting c"])
    (auto dest: nesting_flow_round)

lemma nesting_state_machine:
  assumes "state_machine e R srv c = Some (r, d)"
  shows "nesting d = (if state (statem (ssl c)) \<noteq> MSG_FLOW_ERROR \<and> \<not> fst (clear_before R (enter_call R c))
    then nesting c + 1 else nesting c)"
proof -
  define b where "b = enter_call R c"
  have nb: "nesting b = nesting c + 1" by (simp add: b_def enter_call_def)
  obtain ok f where f: "clear_before R b = (ok, f)" by fastforce
  then have nf: "nesting f = nesting b"
    using side_SSL_clear(2) [of b] by (auto simp: clear_before_def split: if_splits)
  obtain ok' g where g: "(if state (statem (ssl f)) = MSG_FLOW_UNINITED \<or> state (statem (ssl f)) = MSG_FLOW_FINISHED
      then start_handshake e R srv f else (True, f)) = (ok', g)" by fastforce
  then have ng: "nesting g = nesting f" using nesting_start [of e srv f] by (auto split: if_splits)
  show ?thesis using assms f g nb nf ng nesting_flow [of e g]
    by (auto simp: state_machine_def Let_def b_def [symmetric] leave_handshake_def split: if_splits)
qed

end

section \<open>The client's sub-machines return\<close>

text \<open>The version is chosen with the ServerHello and not changed afterwards, nor is the flag for a
  HelloRetryRequest. Of the state of early data it only matters that no routine of the handshake sets it to
  \<^verbatim>\<open>SSL_EARLY_DATA_CONNECTING\<close>, which \<^verbatim>\<open>SSL_write_early_data\<close> does before it calls the state machine;
  \<^verbatim>\<open>tls_construct_end_of_early_data\<close> moves it on.\<close>

definition flow_flags :: "SSL \<Rightarrow> bool \<times> SSL_HRR \<times> bool" where
  "flow_flags s = (SSL_IS_TLS13 s, hello_retry_request s, early_data_state s = SSL_EARLY_DATA_CONNECTING)"

definition flags_within :: "bool \<times> SSL_HRR \<times> bool \<Rightarrow> SSL \<Rightarrow> bool" where
  "flags_within F s \<longleftrightarrow> SSL_IS_TLS13 s = fst F \<and> hello_retry_request s = fst (snd F)
     \<and> (early_data_state s = SSL_EARLY_DATA_CONNECTING \<longrightarrow> snd (snd F))"

lemma flags_within_refl: "flags_within (flow_flags s) s"
  by (simp add: flags_within_def flow_flags_def)

lemma flags_within_trans: "flags_within F s \<Longrightarrow> flags_within (flow_flags s) t \<Longrightarrow> flags_within F t"
  by (auto simp: flags_within_def flow_flags_def)

definition open_states :: "OSSL_HANDSHAKE_STATE set" where
  "open_states = {TLS_ST_BEFORE, TLS_ST_CR_SRVR_HELLO}"

definition settled :: "'w routines \<Rightarrow> bool" where
  "settled R \<longleftrightarrow> orderly R \<and>
     (\<forall>s t. routine_step R s t \<longrightarrow> hs s \<notin> open_states \<longrightarrow> flags_within (flow_flags s) t)"

definition at_state :: "OSSL_HANDSHAKE_STATE \<Rightarrow> bool \<times> SSL_HRR \<times> bool \<Rightarrow> flow_property" where
  "at_state x F h s \<longleftrightarrow> hs s = x \<and> (x \<notin> open_states \<longrightarrow> flags_within F s)"

lemma at_state_here: "at_state (hs s) (flow_flags s) h s"
  by (simp add: at_state_def flags_within_refl)

text \<open>How many messages can still be read, and how many states entered to write, before the loop has to
  return.\<close>

definition client_read_rank :: "bool \<Rightarrow> OSSL_HANDSHAKE_STATE \<Rightarrow> nat" where
  "client_read_rank v13 x =
     (case x of
        TLS_ST_CW_CLNT_HELLO \<Rightarrow> 16 | TLS_ST_EARLY_DATA \<Rightarrow> 16 | TLS_ST_CR_SRVR_HELLO \<Rightarrow> 15
      | TLS_ST_OK \<Rightarrow> 11 | TLS_ST_CR_ENCRYPTED_EXTENSIONS \<Rightarrow> 10
      | TLS_ST_CR_CERT_REQ \<Rightarrow> if v13 then 9 else 5
      | TLS_ST_CR_CERT \<Rightarrow> 8 | TLS_ST_CR_CERT_VRFY \<Rightarrow> 7 | TLS_ST_CR_CERT_STATUS \<Rightarrow> 7 | TLS_ST_CR_KEY_EXCH \<Rightarrow> 6
      | TLS_ST_CW_FINISHED \<Rightarrow> 4 | TLS_ST_CR_SESSION_TICKET \<Rightarrow> 3 | TLS_ST_CR_CHANGE \<Rightarrow> 2
      | _ \<Rightarrow> 0)"

definition client_write_rank :: "bool \<times> SSL_HRR \<times> bool \<Rightarrow> OSSL_HANDSHAKE_STATE \<Rightarrow> nat" where
  "client_write_rank F x =
     (case x of
        TLS_ST_CR_HELLO_REQ \<Rightarrow> 31 | TLS_ST_OK \<Rightarrow> 30 | TLS_ST_BEFORE \<Rightarrow> 29 | DTLS_ST_CR_HELLO_VERIFY_REQUEST \<Rightarrow> 29
      | TLS_ST_CR_SRVR_HELLO \<Rightarrow> 28 | TLS_ST_CR_CERT_REQ \<Rightarrow> 28 | TLS_ST_CR_KEY_UPDATE \<Rightarrow> 28 | TLS_ST_CR_SESSION_TICKET \<Rightarrow> 28
      | TLS_ST_CR_SRVR_DONE \<Rightarrow> 27
      | TLS_ST_CW_CERT \<Rightarrow> if fst F then 15 else 26
      | TLS_ST_CW_KEY_EXCH \<Rightarrow> 25
      | TLS_ST_CW_CERT_VRFY \<Rightarrow> if fst F then 14 else 24
      | TLS_ST_CR_FINISHED \<Rightarrow> 22
      | TLS_ST_CW_CLNT_HELLO \<Rightarrow> if fst (snd F) = SSL_HRR_PENDING then 5 else 21
      | TLS_ST_PENDING_EARLY_DATA_END \<Rightarrow> 21 | TLS_ST_CW_CHANGE \<Rightarrow> 20 | TLS_ST_CW_END_OF_EARLY_DATA \<Rightarrow> 19
      | TLS_ST_CW_NEXT_PROTO \<Rightarrow> 10
      | _ \<Rightarrow> 1)"

lemma client_read_descends:
  assumes "ossl_statem_client_read_transition e s mt = (True, t)"
  shows "client_read_rank (SSL_IS_TLS13 t) (hs t) < client_read_rank (SSL_IS_TLS13 s) (hs s)"
proof (cases "SSL_IS_TLS13 s")
  case True
  then show ?thesis using assms
    by (cases "hs s") (auto simp: client13_defs client_read_rank_def Let_def split: if_splits option.splits prod.splits bool.splits)
next
  case False
  then show ?thesis using assms
    by (cases "hs s") (auto simp: client_defs client_read_rank_def split: if_splits option.splits)
qed

lemma flow_set_hs: "flow_flags (set_hs x s) = flow_flags s"
  by (simp add: flow_flags_def)

lemma client_write_descends:
  assumes "ossl_statem_client_write_transition e s = (WRITE_TRAN_CONTINUE, t)"
    and "\<not> (hello_retry_request s = SSL_HRR_PENDING \<and> early_data_state s = SSL_EARLY_DATA_CONNECTING)"
  shows "flow_flags t = flow_flags s
    \<and> (hs t = TLS_ST_OK \<or> client_write_rank (flow_flags t) (hs t) < client_write_rank (flow_flags s) (hs s))"
proof (cases "SSL_IS_TLS13 s")
  case True
  then show ?thesis using assms
    by (cases "hs s") (auto simp: client13_defs client_write_rank_def flow_flags_def split: if_splits)
next
  case False
  have ren: "flow_flags u = flow_flags s" if "ssl3_renegotiate_check s True = (b, u)" for b u
    using that by (auto simp: ssl3_renegotiate_check_def ossl_statem_set_renegotiate_def flow_flags_def split: if_splits)
  have set: "flow_flags v = flow_flags u" if "tls_setup_handshake e u = (b, v)" for b u v
    using setup_keeps [OF that] by (simp add: flow_flags_def)
  have req: "flow_flags t = flow_flags s \<and> hs t \<in> {TLS_ST_OK, TLS_ST_CW_CLNT_HELLO}" if "hs s = TLS_ST_CR_HELLO_REQ"
    using that False assms(1)
    by (auto simp: ossl_statem_client_write_transition_def client_write_after_hello_req_def flow_set_hs
        split: prod.splits bool.splits dest!: ren set)
  have other: ?thesis if "hs s \<noteq> TLS_ST_CR_HELLO_REQ"
    using that False assms
    by (cases "hs s") (auto simp: client_defs client_write_rank_def flow_flags_def Let_def split: if_splits)
  show ?thesis
  proof (cases "hs s = TLS_ST_CR_HELLO_REQ")
    case True
    then show ?thesis using req by (auto simp: client_write_rank_def)
  qed (rule other)
qed

context orderly_routines
begin

lemma at_stable:
  assumes "settled R" shows "stable R (at_state x F)"
proof (unfold_locales, goal_cases)
  case (1 h s t)
  then show ?case by (auto simp: at_state_def frame_def flags_within_def)
next
  case (2 h s t)
  then show ?case using assms R_keeps_hs [of s t] flags_within_trans [of F s t] by (auto simp: at_state_def settled_def)
next
  case (3 h s)
  then show ?case by (auto simp: at_state_def ossl_statem_set_in_init_def flags_within_def SSL_IS_TLS13_def SSL_IS_DTLS_def)
next
  case (4 s t)
  then show ?case by (rule R_keeps_hs)
qed

lemma at_phase: "settled R \<Longrightarrow> phase_invariant R (at_state x F) (at_state x F) srv"
  by (intro phase_invariant.intro phase_invariant_axioms.intro at_stable)
    (auto intro: stable.P_routine [OF at_stable] step_process step_post)

end

definition read_phase :: "READ_STATE \<Rightarrow> nat" where
  "read_phase r = (case r of READ_STATE_HEADER \<Rightarrow> 0 | READ_STATE_POST_PROCESS \<Rightarrow> 1 | READ_STATE_BODY \<Rightarrow> 2)"

definition read_measure :: "'w conn \<Rightarrow> nat" where
  "read_measure c = 3 * client_read_rank (SSL_IS_TLS13 (ssl c)) (hs (ssl c)) + read_phase (read_state (statem (ssl c)))"

lemma at_rank:
  assumes "holds (at_state (hs s) (flow_flags s)) d"
  shows "client_read_rank (SSL_IS_TLS13 (ssl d)) (hs (ssl d)) = client_read_rank (SSL_IS_TLS13 s) (hs s)"
  using assms by (auto simp: holds_def at_state_def flags_within_def flow_flags_def open_states_def client_read_rank_def)

lemma read_body_phase: "read_body R srv len c = Inl d \<Longrightarrow> read_phase (read_state (statem (ssl d))) \<le> 1"
  by (auto simp: read_body_def Let_def case_prod_beta read_phase_def split: option.splits if_splits MSG_PROCESS_RETURN.splits)

lemma read_post_phase: "read_post_process R srv c = Inl d \<Longrightarrow> read_phase (read_state (statem (ssl d))) = 0"
  by (auto simp: read_post_process_def Let_def case_prod_beta read_phase_def split: WORK_STATE.splits)

context orderly_routines
begin

lemma body_at:
  assumes "settled R" shows "read_body R srv len c = Inl d \<Longrightarrow> holds (at_state (hs (ssl c)) (flow_flags (ssl c))) d"
    and "read_post_process R srv c = Inl d \<Longrightarrow> holds (at_state (hs (ssl c)) (flow_flags (ssl c))) d"
proof -
  have c: "holds (at_state (hs (ssl c)) (flow_flags (ssl c))) c" by (simp add: holds_def at_state_here)
  note ph = at_phase [OF assms, of "hs (ssl c)" "flow_flags (ssl c)" srv]
  show "read_body R srv len c = Inl d \<Longrightarrow> holds (at_state (hs (ssl c)) (flow_flags (ssl c))) d"
    using phase_invariant.read_body [OF ph c, of len] by (simp add: read_outcome_def)
  show "read_post_process R srv c = Inl d \<Longrightarrow> holds (at_state (hs (ssl c)) (flow_flags (ssl c))) d"
    using phase_invariant.read_post_process [OF ph c] by (simp add: read_outcome_def)
qed

lemma header_descends:
  assumes R: "settled R" and h: "read_header e R False c = (Some len, d)"
  shows "client_read_rank (SSL_IS_TLS13 (ssl d)) (hs (ssl d)) < client_read_rank (SSL_IS_TLS13 (ssl c)) (hs (ssl c))"
proof -
  obtain mt l b where g: "get_message R c = (Some (mt, l), b)"
    using h by (auto simp: read_header_def split: prod.splits option.splits)
  let ?b = "loop_notify R b"
  obtain t where t: "read_transition e False (ssl ?b) mt = (True, t)"
    using h g by (auto simp: read_header_def Let_def split: prod.splits bool.splits)
  then have t': "ossl_statem_client_read_transition e (ssl b) mt = (True, t)"
    by (simp add: read_transition_def loop_notify_def)
  let ?c = "?b\<lparr>ssl := t, trace := trace ?b @ [Read mt]\<rparr>"
  have d: "check_message_size R False l ?c = (Some len, d)" using h g t by (simp add: read_header_def Let_def)
  have "holds (at_state (hs (ssl c)) (flow_flags (ssl c))) c" by (simp add: holds_def at_state_here)
  from phase_invariant.get_message [OF at_phase [OF R] this] g
  have "holds (at_state (hs (ssl c)) (flow_flags (ssl c))) b" by simp
  from at_rank [OF this] have 1: "client_read_rank (SSL_IS_TLS13 (ssl b)) (hs (ssl b)) = client_read_rank (SSL_IS_TLS13 (ssl c)) (hs (ssl c))" .
  have "holds (at_state (hs t) (flow_flags t)) ?c" by (simp add: holds_def at_state_here)
  from phase_invariant.check_size [OF at_phase [OF R] this, of False l] d
  have "holds (at_state (hs t) (flow_flags t)) d" by simp
  from at_rank [OF this] have 2: "client_read_rank (SSL_IS_TLS13 (ssl d)) (hs (ssl d)) = client_read_rank (SSL_IS_TLS13 t) (hs t)" .
  show ?thesis using client_read_descends [OF t'] 1 2 by simp
qed

lemma read_round_descends:
  assumes R: "settled R" and r: "read_round e R False c = Inl d"
  shows "read_measure d < read_measure c"
proof (cases "read_state (statem (ssl c))")
  case READ_STATE_HEADER
  with r obtain len b where b: "read_header e R False c = (Some len, b)" "read_body R False len b = Inl d"
    by (auto simp: read_round_def split: prod.splits option.splits)
  show ?thesis
    using header_descends [OF R b(1)] at_rank [OF body_at(1) [OF R b(2)]] read_body_phase [OF b(2)]
    by (simp add: read_measure_def)
next
  case READ_STATE_BODY
  with r have b: "read_body R False 0 c = Inl d" by (simp add: read_round_def)
  show ?thesis using READ_STATE_BODY at_rank [OF body_at(1) [OF R b]] read_body_phase [OF b]
    by (simp add: read_measure_def read_phase_def [of READ_STATE_BODY])
next
  case READ_STATE_POST_PROCESS
  with r have b: "read_post_process R False c = Inl d" by (simp add: read_round_def)
  show ?thesis using READ_STATE_POST_PROCESS at_rank [OF body_at(2) [OF R b]] read_post_phase [OF b]
    by (simp add: read_measure_def read_phase_def [of READ_STATE_POST_PROCESS])
qed

lemma client_read_returns:
  assumes "settled R" "\<not> server (ssl c)" shows "\<exists>r d. read_state_machine e R c = Some (r, d)"
proof -
  have "\<exists>x. iterate (\<lambda>c. Some (read_round e R False c)) b = Some x" for b
    by (rule iterate_returns [where P = "\<lambda>_. True" and m = read_measure]) (simp_all add: read_round_descends [OF assms(1)])
  then show ?thesis using assms(2) by (simp add: read_state_machine_def Let_def)
qed

end

definition write_phase :: "WRITE_STATE \<Rightarrow> nat" where
  "write_phase w = (case w of WRITE_STATE_TRANSITION \<Rightarrow> 0 | WRITE_STATE_POST_WORK \<Rightarrow> 1 | WRITE_STATE_SEND \<Rightarrow> 2
     | WRITE_STATE_PRE_WORK \<Rightarrow> 3)"

definition write_measure :: "'w conn \<Rightarrow> nat" where
  "write_measure c =
     (if write_state (statem (ssl c)) = WRITE_STATE_PRE_WORK \<and> hs (ssl c) = TLS_ST_OK then 0
      else 4 * client_write_rank (flow_flags (ssl c)) (hs (ssl c)) + write_phase (write_state (statem (ssl c))))"

text \<open>No HelloRetryRequest is answered while early data are being announced; outside the states that leave
  the version open, or at a transition.\<close>

definition write_ready :: "'w conn \<Rightarrow> bool" where
  "write_ready c \<longleftrightarrow>
     \<not> (hello_retry_request (ssl c) = SSL_HRR_PENDING \<and> early_data_state (ssl c) = SSL_EARLY_DATA_CONNECTING)
     \<and> (hs (ssl c) \<in> open_states \<longrightarrow> write_state (statem (ssl c)) = WRITE_STATE_TRANSITION)"

lemma write_post_phase: "write_post_work e R srv c = Inl d \<Longrightarrow> write_state (statem (ssl d)) = WRITE_STATE_TRANSITION"
  by (auto simp: write_post_work_def Let_def case_prod_beta split: WORK_STATE.splits)

lemma write_send_phase: "write_send e R srv c = Inl d \<Longrightarrow> write_state (statem (ssl d)) = WRITE_STATE_TRANSITION"
  by (auto simp: write_send_def Let_def case_prod_beta split: if_splits dest: write_post_phase)

lemma write_construct_phase:
  "write_construct e R srv c = Inl d \<Longrightarrow> write_state (statem (ssl d)) \<in> {WRITE_STATE_TRANSITION, WRITE_STATE_POST_WORK}"
  by (auto simp: write_construct_def to_post_work_def Let_def case_prod_beta split: if_splits option.splits dest: write_send_phase)

lemma finish_returns: "fst (tls_finish_handshake R cb True c) \<noteq> WORK_FINISHED_CONTINUE"
  by (simp add: tls_finish_handshake_def finish_init_def Let_def case_prod_beta)

lemma write_pre_phase:
  assumes "write_pre_work e R False c = Inl d"
  shows "write_state (statem (ssl d)) \<in> {WRITE_STATE_TRANSITION, WRITE_STATE_POST_WORK}" "hs (ssl c) \<noteq> TLS_ST_OK"
  using assms finish_returns [of R True c]
  by (auto simp: write_pre_work_def pre_work_def ossl_statem_client_pre_work_def Let_def case_prod_beta
      split: WORK_STATE.splits dest: write_construct_phase)

context orderly_routines
begin

lemma write_at:
  assumes "settled R"
  shows "write_pre_work e R srv c = Inl d \<Longrightarrow> holds (at_state (hs (ssl c)) (flow_flags (ssl c))) d"
    and "write_send e R srv c = Inl d \<Longrightarrow> holds (at_state (hs (ssl c)) (flow_flags (ssl c))) d"
    and "write_post_work e R srv c = Inl d \<Longrightarrow> holds (at_state (hs (ssl c)) (flow_flags (ssl c))) d"
proof -
  have c: "holds (at_state (hs (ssl c)) (flow_flags (ssl c))) c" by (simp add: holds_def at_state_here)
  note ph = at_phase [OF assms, of "hs (ssl c)" "flow_flags (ssl c)" srv]
  show "write_pre_work e R srv c = Inl d \<Longrightarrow> holds (at_state (hs (ssl c)) (flow_flags (ssl c))) d"
    using phase_invariant.pre_work_round [OF ph c, of e] by (simp add: write_outcome_def)
  show "write_send e R srv c = Inl d \<Longrightarrow> holds (at_state (hs (ssl c)) (flow_flags (ssl c))) d"
    using phase_invariant.send_round [OF ph c, of e] by (simp add: write_outcome_def)
  show "write_post_work e R srv c = Inl d \<Longrightarrow> holds (at_state (hs (ssl c)) (flow_flags (ssl c))) d"
    using phase_invariant.post_work_round [OF ph c, of e] by (simp add: write_outcome_def)
qed

lemma write_at_descends:
  assumes "write_ready c" "hs (ssl c) \<notin> open_states" "holds (at_state (hs (ssl c)) (flow_flags (ssl c))) d"
    and "write_phase (write_state (statem (ssl d))) < write_phase (write_state (statem (ssl c)))"
    and "write_state (statem (ssl d)) \<noteq> WRITE_STATE_PRE_WORK"
    and "write_state (statem (ssl c)) = WRITE_STATE_PRE_WORK \<Longrightarrow> hs (ssl c) \<noteq> TLS_ST_OK"
  shows "write_ready d \<and> write_measure d < write_measure c"
  using assms by (auto simp: holds_def at_state_def write_ready_def write_measure_def flags_within_def flow_flags_def
      client_write_rank_def)

lemma write_next_descends:
  assumes "write_ready c" "write_state (statem (ssl c)) = WRITE_STATE_TRANSITION" "write_next e R False c = Inl d"
  shows "write_ready d \<and> write_measure d < write_measure c"
proof -
  obtain t where t: "ossl_statem_client_write_transition e (ssl c) = (WRITE_TRAN_CONTINUE, t)"
    and d: "ssl d = t\<lparr>statem := (statem t)\<lparr>write_state := WRITE_STATE_PRE_WORK, write_state_work := WORK_MORE_A\<rparr>\<rparr>"
    using assms(3) by (auto simp: write_next_def write_transition_def loop_notify_def Let_def case_prod_beta
      split: WRITE_TRAN.splits) (metis prod.collapse)
  have fl: "flow_flags (ssl d) = flow_flags t" by (simp add: d flow_flags_def)
  have f: "flow_flags t = flow_flags (ssl c)"
    and r: "hs t = TLS_ST_OK \<or> client_write_rank (flow_flags t) (hs t) < client_write_rank (flow_flags (ssl c)) (hs (ssl c))"
    using client_write_descends [OF t] assms(1) by (auto simp: write_ready_def)
  have pos: "0 < client_write_rank (flow_flags (ssl c)) (hs (ssl c))"
    by (auto simp: client_write_rank_def split: OSSL_HANDSHAKE_STATE.split)
  have "hs t \<notin> open_states" using client_write_states [OF t] by (auto simp: open_states_def)
  with assms(1) f have "write_ready d" by (auto simp: write_ready_def d flow_flags_def)
  moreover have "write_measure d < write_measure c"
    using r pos assms(2) fl by (auto simp: write_measure_def d write_phase_def)
  ultimately show ?thesis ..
qed

lemma write_round_descends:
  assumes R: "settled R" and c: "write_ready c" and w: "write_round e R False c = Inl d"
  shows "write_ready d \<and> write_measure d < write_measure c"
proof (cases "write_state (statem (ssl c))")
  case WRITE_STATE_TRANSITION
  then show ?thesis using c w write_next_descends by (simp add: write_round_def)
next
  case WRITE_STATE_PRE_WORK
  with w have p: "write_pre_work e R False c = Inl d" by (simp add: write_round_def)
  show ?thesis using c WRITE_STATE_PRE_WORK write_pre_phase [OF p] write_at(1) [OF R p]
    by (intro write_at_descends) (auto simp: write_phase_def write_ready_def)
next
  case WRITE_STATE_SEND
  with w have p: "write_send e R False c = Inl d" by (simp add: write_round_def)
  show ?thesis using c WRITE_STATE_SEND write_send_phase [OF p] write_at(2) [OF R p]
    by (intro write_at_descends) (auto simp: write_phase_def write_ready_def)
next
  case WRITE_STATE_POST_WORK
  with w have p: "write_post_work e R False c = Inl d" by (simp add: write_round_def)
  show ?thesis using c WRITE_STATE_POST_WORK write_post_phase [OF p] write_at(3) [OF R p]
    by (intro write_at_descends) (auto simp: write_phase_def write_ready_def)
qed

lemma client_write_returns:
  assumes "settled R" "\<not> server (ssl c)" "write_ready c" shows "\<exists>r d. write_state_machine e R c = Some (r, d)"
proof -
  have "\<exists>x. iterate (\<lambda>c. Some (write_round e R False c)) c = Some x"
    by (rule iterate_returns [where P = write_ready and m = write_measure, OF assms(3)])
      (simp_all add: write_round_descends [OF assms(1)])
  then show ?thesis using assms(2) by (simp add: write_state_machine_def)
qed

end

section \<open>A world to run handshakes in\<close>

text \<open>A peer whose messages are given as the list of their types, and routines that accept all of them. As
  the routines of the source do, they record the length of the own verify data while a Finished is constructed and
  of the peer's while one is read, and move the state of early data on with EndOfEarlyData.\<close>

definition sample_effect :: "EXT_CALL \<Rightarrow> SSL \<Rightarrow> SSL" where
  "sample_effect f s =
     (if f = construct_message tls_construct_finished \<and> hs s \<in> {TLS_ST_SW_FINISHED, TLS_ST_CW_FINISHED}
      then s\<lparr>s3 := (s3 s)\<lparr>finish_md_len := 12\<rparr>\<rparr>
      else if f = construct_message tls_construct_end_of_early_data \<and> hs s = TLS_ST_CW_END_OF_EARLY_DATA
      then s\<lparr>early_data_state := SSL_EARLY_DATA_FINISHED_WRITING\<rparr>
      else s)"

definition sample_take_mac :: "SSL \<Rightarrow> SSL" where
  "sample_take_mac s =
     (if hs s \<in> {TLS_ST_SR_FINISHED, TLS_ST_CR_FINISHED} then s\<lparr>s3 := (s3 s)\<lparr>peer_finish_md_len := 12\<rparr>\<rparr> else s)"

definition sample_process :: "msg_handler \<Rightarrow> MSG_PROCESS_RETURN" where
  "sample_process f =
     (case f of
        tls_process_server_done \<Rightarrow> MSG_PROCESS_FINISHED_READING
      | tls_process_finished \<Rightarrow> MSG_PROCESS_FINISHED_READING
      | tls_process_client_hello \<Rightarrow> MSG_PROCESS_CONTINUE_PROCESSING
      | tls_process_client_key_exchange \<Rightarrow> MSG_PROCESS_CONTINUE_PROCESSING
      | _ \<Rightarrow> MSG_PROCESS_CONTINUE_READING)"

definition sample_header :: "SSL \<Rightarrow> int list \<Rightarrow> int option \<times> SSL \<times> int list" where
  "sample_header s w = (case w of [] \<Rightarrow> (None, s, []) | m # ms \<Rightarrow> (Some m, s, ms))"

definition sample_routines :: "int list routines" where
  "sample_routines = \<lparr>ext_call = (\<lambda>f s w. (1, sample_effect f s, w)), tls_get_message_header = sample_header,
     tls_get_message_body = (\<lambda>s w. (Some 0, sample_take_mac s, w)), dtls_get_message = (\<lambda>s w. (None, s, w)),
     msg_process = (\<lambda>f len s w. (sample_process f, s, w)),
     msg_post_process = (\<lambda>f wst s w. (if f = tls_post_process_client_hello then WORK_FINISHED_STOP else WORK_FINISHED_CONTINUE, s, w)),
     info_callback = (\<lambda>ty v s w. w)\<rparr>"

lemma sample_step: "routine_step sample_routines s t \<Longrightarrow> (\<exists>f. t = sample_effect f s) \<or> t = sample_take_mac s \<or> t = s"
  by (erule routine_step.cases) (auto simp: sample_routines_def sample_header_def split: list.splits)

lemma sample_effect_keeps:
  "hs (sample_effect f s) = hs s" "steady s (sample_effect f s)" "SSL_IS_TLS13 (sample_effect f s) = SSL_IS_TLS13 s"
  "hit (sample_effect f s) = hit s" "pre13 s \<Longrightarrow> pre13 (sample_effect f s)"
  "flags_within (flow_flags s) (sample_effect f s)"
  "finish_md_len (s3 (sample_effect f s)) = finish_md_len (s3 s) \<or> hs s \<in> {TLS_ST_SW_FINISHED, TLS_ST_CW_FINISHED}"
  by (auto simp: sample_effect_def steady_def pre13_def flags_within_def flow_flags_def SSL_IS_TLS13_def SSL_IS_DTLS_def)

lemma sample_take_mac_keeps:
  "hs (sample_take_mac s) = hs s" "steady s (sample_take_mac s)" "SSL_IS_TLS13 (sample_take_mac s) = SSL_IS_TLS13 s"
  "hit (sample_take_mac s) = hit s" "pre13 s \<Longrightarrow> pre13 (sample_take_mac s)"
  "flags_within (flow_flags s) (sample_take_mac s)" "finish_md_len (s3 (sample_take_mac s)) = finish_md_len (s3 s)"
  by (auto simp: sample_take_mac_def steady_def pre13_def flags_within_def flow_flags_def SSL_IS_TLS13_def SSL_IS_DTLS_def)

definition client_sample :: "int list conn" where
  "client_sample = \<lparr>ssl = fresh_ssl False 0x0303 TLS_ST_BEFORE, world = [2, 11, 12, 14, 0x101, 20], trace = []\<rparr>"

definition server_sample :: "int list conn" where
  "server_sample = \<lparr>ssl = (fresh_ssl True 0x0303 TLS_ST_BEFORE)\<lparr>ciphers := [new_cipher (s3 (fresh_ssl True 0x0303 TLS_ST_BEFORE))]\<rparr>,
     world = [1, 16, 0x101, 20], trace = []\<rparr>"

definition server_env :: statem_env where
  "server_env = \<lparr>bio_new_ok = True, md_ctx_copy_ok = True, min_max_version = Some (0x0301, 0x0303)\<rparr>"

lemma sample_simps_loop [simp]:
  "call sample_routines x c = (1, c\<lparr>ssl := sample_effect x (ssl c)\<rparr>)" "notify sample_routines ty v c = c" "loop_notify sample_routines c = c"
  "invoke (tls_get_message_header sample_routines) c =
     (case world c of [] \<Rightarrow> (None, c\<lparr>world := []\<rparr>) | m # ms \<Rightarrow> (Some m, c\<lparr>world := ms\<rparr>))"
  "invoke (tls_get_message_body sample_routines) c = (Some 0, c\<lparr>ssl := sample_take_mac (ssl c)\<rparr>)"
  "invoke (msg_process sample_routines f len) c = (sample_process f, c)"
  "invoke (msg_post_process sample_routines f wst) c =
     (if f = tls_post_process_client_hello then WORK_FINISHED_STOP else WORK_FINISHED_CONTINUE, c)"
  by (simp_all add: call_def invoke_def notify_def loop_notify_def sample_routines_def sample_header_def split: list.split)

lemmas loop_defs = ossl_statem_connect_def ossl_statem_accept_def state_machine_def enter_call_def clear_before_def SSL_clear_def
  start_handshake_def setup_side_def version_ok_def require_def setup_init_buf_def start_failed_def enter_handshake_def
  init_write_state_machine_def init_read_state_machine_def flow_round_def leave_handshake_def
  read_state_machine_def write_state_machine_def read_round_def write_round_def read_header_def get_message_def
  check_message_size_def max_message_size_def grow_init_buf_def read_transition_def read_body_def process_message_def
  process_table_def post_process_table_def post_process_message_def read_post_process_def finish_reading_def
  write_next_def write_transition_def write_pre_work_def pre_work_def write_construct_def get_construct_message_f_def
  construct_packet_def write_send_def statem_do_write_def to_post_work_def write_post_work_def post_work_def

lemmas work_defs = ossl_statem_client_pre_work_def ossl_statem_server_pre_work_def ossl_statem_client_post_work_def
  ossl_statem_server_post_work_def client_post_hello_def client_post_change_def client_post_finished_def
  server_pre_change_def server_post_change_def server_post_hello_def server_post_finished_def or_error_def or_retry_def work_done_def
  statem_flush_def tls_finish_handshake_def finish_clear_buffers_def finish_init_def finish_cleanup_def finish_client_def
  finish_server_def

lemma client_sample_result:
  "map_option (\<lambda>(r, d). (r, trace d)) (ossl_statem_connect sample_env sample_routines client_sample) =
    Some (1, [Write TLS_ST_CW_CLNT_HELLO, Read 2, Read 11, Read 12, Read 14, Write TLS_ST_CW_KEY_EXCH,
      Write TLS_ST_CW_CHANGE, Write TLS_ST_CW_FINISHED, Read 0x101, Read 20, Write TLS_ST_OK])"
  by (simp add: loop_defs work_defs iterate.simps client_sample_def sample_simps client_defs tls_setup_handshake_def
    ssl3_init_finished_mac_def SSL_in_before_def SSL_in_init_def ossl_statem_clear_def SSL_IS_FIRST_HANDSHAKE_def Let_def on_statem_def on_ssl_def
    sample_effect_def sample_take_mac_def ossl_statem_client_max_message_size_def ossl_statem_client_process_message_def ossl_statem_client_construct_message_def
    sample_process_def cert_req_allowed_def key_exchange_expected_def ossl_statem_set_in_init_def)


lemma server_sample_result:
  "map_option (\<lambda>(r, d). (r, trace d)) (ossl_statem_accept server_env sample_routines server_sample) =
    Some (1, [Read 1, Write TLS_ST_SW_SRVR_HELLO, Write TLS_ST_SW_CERT, Write TLS_ST_SW_KEY_EXCH, Write TLS_ST_SW_SRVR_DONE,
      Read 16, Read 0x101, Read 20, Write TLS_ST_SW_CHANGE, Write TLS_ST_SW_FINISHED, Write TLS_ST_OK])"
  by (simp add: loop_defs work_defs iterate.simps server_sample_def server_env_def sample_simps server_defs tls_setup_handshake_def
    ssl3_init_finished_mac_def SSL_in_before_def SSL_in_init_def ossl_statem_clear_def SSL_IS_FIRST_HANDSHAKE_def Let_def on_statem_def on_ssl_def
    sample_effect_def sample_take_mac_def ossl_statem_server_max_message_size_def ossl_statem_server_process_message_def ossl_statem_server_construct_message_def
    ossl_statem_server_post_process_message_def sample_process_def send_server_key_exchange_def send_certificate_request_def
    ossl_statem_set_in_init_def cipher_usable_def)

lemma sample_orderly: "orderly sample_routines"
  by (auto simp: orderly_def sample_effect_keeps sample_take_mac_keeps dest!: sample_step)

lemma sample_settled: "settled sample_routines"
  by (auto simp: settled_def sample_orderly sample_effect_keeps sample_take_mac_keeps flags_within_refl dest!: sample_step)

lemma sample_client: "client_routines sample_routines"
  by (auto simp: client_routines_def sample_orderly client_work_def sample_effect_keeps sample_take_mac_keeps dest!: sample_step)
    (simp add: sample_routines_def sample_process_def)

lemma sample_server: "server_routines sample_routines"
proof -
  have "server_work s (sample_effect f s)" "server_work s (sample_take_mac s)" "server_work s s" for f s
    using sample_effect_keeps [where f = f and s = s] sample_take_mac_keeps [where s = s] by (auto simp: server_work_def)
  then show ?thesis using sample_orderly by (auto simp: server_routines_def dest!: sample_step)
qed

interpretation sample_connect: client_connection sample_routines
  by unfold_locales (rule sample_client)

interpretation sample_accept: server_connection sample_routines
  by unfold_locales (rule sample_server)

lemma client_sample_start:
  "pre13 (ssl client_sample)" "SSL_in_before (ssl client_sample)" "SSL_in_init (ssl client_sample)" "trace client_sample = []"
  "state (statem (ssl client_sample)) \<noteq> MSG_FLOW_ERROR" "\<not> server (ssl client_sample)" "write_ready client_sample"
  by (simp_all add: client_sample_def pre13_def SSL_in_before_def SSL_in_init_def write_ready_def open_states_def sample_simps)

lemma server_sample_start:
  "\<not> SSL_IS_TLS13 (ssl server_sample)" "finish_md_len (s3 (ssl server_sample)) = 0" "SSL_in_before (ssl server_sample)"
  "SSL_in_init (ssl server_sample)" "trace server_sample = []"
  by (simp_all add: server_sample_def SSL_IS_FIRST_HANDSHAKE_def SSL_in_before_def SSL_in_init_def sample_simps)

text \<open>A connection whose application asked for a renegotiation, which \<^verbatim>\<open>SSL_clear\<close> refuses.\<close>

definition renegotiating_sample :: "int list conn" where
  "renegotiating_sample = on_ssl (\<lambda>s. s\<lparr>renegotiate := True\<rparr>) client_sample"

lemma renegotiating_sample_result:
  "\<exists>d. state_machine sample_env sample_routines False renegotiating_sample = Some (- 1, d)"
  "\<not> fst (clear_before sample_routines (enter_call sample_routines renegotiating_sample))"
  by (simp_all add: state_machine_def enter_call_def clear_before_def SSL_clear_def renegotiating_sample_def client_sample_def
      sample_simps sample_effect_def ossl_statem_clear_def SSL_in_before_def SSL_in_init_def Let_def)

section \<open>Properties\<close>

text \<open>
  C20. A client that is called for the first time, and again as often as the application likes (after
  each interruption, in any network), and whose call in the end returns 1, is not in initialisation any more, and
  has read a ChangeCipherSpec and after it a Finished message. It is assumed that the routines the loops call stay
  within their bounds: they leave the handshake state to the transition functions, do not turn the connection
  into one of TLS 1.3, and end reading at a ServerHello only for a HelloRetryRequest.
\<close>

theorem connect_reads_finished:
  assumes "client_routines R" "pre13 (ssl c)" "SSL_in_before (ssl c)" "SSL_in_init (ssl c)" "trace c = []"
    and "(calls e R False)\<^sup>*\<^sup>* c b" "ossl_statem_connect e R b = Some (1, d)"
  shows "\<not> SSL_in_init (ssl d) \<and> subseq [Read SSL3_MT_CHANGE_CIPHER_SPEC, Read SSL3_MT_FINISHED] (trace d)"
  using client_connection.connect_finished [OF client_connection.intro [OF assms(1)] assms(2-4,6,7)]
  by (simp add: SSL_in_init_def finished_read_def)

theorem connect_reads_finished_witness:
  "\<exists>d. ossl_statem_connect sample_env sample_routines client_sample = Some (1, d)
     \<and> \<not> SSL_in_init (ssl d) \<and> subseq [Read SSL3_MT_CHANGE_CIPHER_SPEC, Read SSL3_MT_FINISHED] (trace d)"
proof -
  obtain d where d: "ossl_statem_connect sample_env sample_routines client_sample = Some (1, d)"
    using client_sample_result by auto
  show ?thesis
    using connect_reads_finished [OF sample_client client_sample_start(1-4) rtranclp.rtrancl_refl d] d by blast
qed

text \<open>
  C21. The same of a server below TLS 1.3 and its calls of \<^verbatim>\<open>ossl_statem_accept\<close>, starting with no Finished
  sent. Its routines keep the version, decide resumption with the ClientHello and set \<^verbatim>\<open>finish_md_len\<close> only
  while they construct the own Finished, as \<^verbatim>\<open>tls_construct_finished\<close> does;
  the client's verify data may be recorded at any time.
\<close>

theorem accept_reads_finished:
  assumes "server_routines R" "\<not> SSL_IS_TLS13 (ssl c)" "finish_md_len (s3 (ssl c)) = 0" "SSL_in_before (ssl c)"
    and "SSL_in_init (ssl c)" "trace c = []"
    and "(calls e R True)\<^sup>*\<^sup>* c b" "ossl_statem_accept e R b = Some (1, d)"
  shows "\<not> SSL_in_init (ssl d) \<and> subseq [Read SSL3_MT_CHANGE_CIPHER_SPEC, Read SSL3_MT_FINISHED] (trace d)"
  using server_connection.accept_finished [OF server_connection.intro [OF assms(1)] assms(2-5,7,8)]
  by (simp add: SSL_in_init_def finished_read_def)

theorem accept_reads_finished_witness:
  "\<exists>d. ossl_statem_accept server_env sample_routines server_sample = Some (1, d)
     \<and> \<not> SSL_in_init (ssl d) \<and> subseq [Read SSL3_MT_CHANGE_CIPHER_SPEC, Read SSL3_MT_FINISHED] (trace d)"
proof -
  obtain d where d: "ossl_statem_accept server_env sample_routines server_sample = Some (1, d)"
    using server_sample_result by auto
  show ?thesis
    using accept_reads_finished [OF sample_server server_sample_start rtranclp.rtrancl_refl d] d by blast
qed

text \<open>
  C22. In every version and on either side, from any connection: a call that returns 1 leaves the message flow
  finished and out of initialisation, in \<^verbatim>\<open>TLS_ST_OK\<close> or, where early data are exchanged, in one of the two states
  that pause for them.
\<close>

theorem state_machine_success:
  assumes "orderly R" "state_machine e R srv c = Some (1, d)"
  shows "state (statem (ssl d)) = MSG_FLOW_FINISHED \<and> \<not> SSL_in_init (ssl d)
    \<and> hs (ssl d) \<in> {TLS_ST_OK, TLS_ST_EARLY_DATA, TLS_ST_PENDING_EARLY_DATA_END}"
  using orderly_routines.state_machine_ends [OF orderly_routines.intro [OF assms(1)] assms(2)]
  by (simp add: SSL_in_init_def finish_states_def)

theorem state_machine_success_witness:
  "\<exists>d. state_machine sample_env sample_routines False client_sample = Some (1, d)
     \<and> state (statem (ssl d)) = MSG_FLOW_FINISHED"
proof -
  obtain d where d: "state_machine sample_env sample_routines False client_sample = Some (1, d)"
    using client_sample_result by (auto simp: ossl_statem_connect_def)
  show ?thesis using state_machine_success [OF sample_orderly d] d by blast
qed

text \<open>
  C24. The count of nested handshakes is what it was before the call, on every way out of the state machine
  except one: when \<^verbatim>\<open>SSL_clear\<close> fails the call returns without counting back.
\<close>

theorem state_machine_nesting:
  assumes "orderly R" "state_machine e R srv c = Some (r, d)" "state (statem (ssl c)) \<noteq> MSG_FLOW_ERROR"
  shows "ossl_statem_get_in_handshake (ssl d) =
    ossl_statem_get_in_handshake (ssl c) + (if fst (clear_before R (enter_call R c)) then 0 else 1)"
  using orderly_routines.nesting_state_machine [OF orderly_routines.intro [OF assms(1)] assms(2)] assms(3)
  by (simp add: ossl_statem_get_in_handshake_def)

theorem state_machine_nesting_witness:
  "\<exists>d. state_machine sample_env sample_routines False renegotiating_sample = Some (- 1, d)
     \<and> ossl_statem_get_in_handshake (ssl d) = ossl_statem_get_in_handshake (ssl renegotiating_sample) + 1"
proof -
  obtain d where d: "state_machine sample_env sample_routines False renegotiating_sample = Some (- 1, d)"
    using renegotiating_sample_result(1) by blast
  have "state (statem (ssl renegotiating_sample)) \<noteq> MSG_FLOW_ERROR"
    using client_sample_start(5) by (simp add: renegotiating_sample_def)
  from state_machine_nesting [OF sample_orderly d this] renegotiating_sample_result(2) d show ?thesis by auto
qed

text \<open>
  C23. A client's reading sub-machine comes back, whatever the peer sends and whatever the routines answer, in
  every version; so does its writing sub-machine, provided it is not called to answer a HelloRetryRequest while the
  state of early data is \<^verbatim>\<open>SSL_EARLY_DATA_CONNECTING\<close> (then, with middlebox compatibility, it would go back and
  forth between \<^verbatim>\<open>TLS_ST_CW_CHANGE\<close> and \<^verbatim>\<open>TLS_ST_CW_CLNT_HELLO\<close>), nor in the middle of a message in one of the two
  states that leave the version open, which send none. Each round lowers a measure of the messages that can still
  follow. The routines are assumed to leave the handshake state alone, to change neither the version nor the
  HelloRetryRequest flag outside \<^verbatim>\<open>TLS_ST_BEFORE\<close> and \<^verbatim>\<open>TLS_ST_CR_SRVR_HELLO\<close>, and not to begin announcing early
  data; \<^verbatim>\<open>tls_construct_end_of_early_data\<close> may end them.
\<close>

theorem client_sub_machines_return:
  assumes "settled R" "\<not> server (ssl c)"
  shows "(\<exists>r d. read_state_machine e R c = Some (r, d))
    \<and> (write_ready c \<longrightarrow> (\<exists>r d. write_state_machine e R c = Some (r, d)))"
proof -
  have "orderly_routines R" using assms(1) by (simp add: settled_def orderly_routines_def)
  from orderly_routines.client_read_returns [OF this assms] orderly_routines.client_write_returns [OF this assms]
  show ?thesis by blast
qed

theorem client_sub_machines_return_witness:
  "(\<exists>r d. read_state_machine sample_env sample_routines client_sample = Some (r, d))
    \<and> (\<exists>r d. write_state_machine sample_env sample_routines client_sample = Some (r, d))"
  using client_sub_machines_return [OF sample_settled client_sample_start(6), of sample_env] client_sample_start(7) by blast

end
