(* ===== verification/Buffer.thy ===== *)
theory Buffer
  imports Prelude
begin

text \<open>
  Growable buffers, \<^verbatim>\<open>crypto/buffer/buffer.c\<close>. A \<^verbatim>\<open>BUF_MEM\<close> is the bytes in use (the first
  \<^verbatim>\<open>length\<close> bytes of its block), the size \<open>buf_max\<close> of the block and its flags; the bytes of the
  block past \<^verbatim>\<open>length\<close> are zeroed before they come into use and are not represented. Whether the
  allocator serves a request is the parameter \<open>alloc\<close>, of the kind of memory (secure or not) and
  the size.
\<close>

section \<open>Buffers\<close>

record BUF_MEM =
  buf_data :: bytes
  buf_max :: nat
  buf_flags :: u32

abbreviation "BUF_MEM_FLAG_SECURE \<equiv> 1 :: u32"

definition LIMIT_BEFORE_EXPANSION :: nat where
  "LIMIT_BEFORE_EXPANSION = 0x5ffffffc"

definition BUF_MEM_new :: "bool \<Rightarrow> BUF_MEM option" where
  "BUF_MEM_new ok = (if ok then Some \<lparr>buf_data = [], buf_max = 0, buf_flags = 0\<rparr> else None)"

definition BUF_MEM_new_ex :: "bool \<Rightarrow> u32 \<Rightarrow> BUF_MEM option" where
  "BUF_MEM_new_ex ok flags =
     (case BUF_MEM_new ok of None \<Rightarrow> None | Some ret \<Rightarrow> Some (ret\<lparr>buf_flags := flags\<rparr>))"

text \<open>A new block with the old bytes, from secure memory or by \<^verbatim>\<open>realloc\<close>.\<close>

definition buf_realloc :: "(bool \<Rightarrow> nat \<Rightarrow> bool) \<Rightarrow> BUF_MEM \<Rightarrow> nat \<Rightarrow> bytes option" where
  "buf_realloc alloc str n =
     (if alloc (has_flag (buf_flags str) BUF_MEM_FLAG_SECURE) n then Some (buf_data str) else None)"

definition BUF_MEM_grow :: "(bool \<Rightarrow> nat \<Rightarrow> bool) \<Rightarrow> BUF_MEM \<Rightarrow> nat \<Rightarrow> nat \<times> BUF_MEM" where
  "BUF_MEM_grow alloc str len =
     (if length (buf_data str) \<ge> len then (len, str\<lparr>buf_data := take len (buf_data str)\<rparr>)
      else if buf_max str \<ge> len
      then (len, str\<lparr>buf_data := buf_data str @ replicate (len - length (buf_data str)) 0\<rparr>)
      else if len > LIMIT_BEFORE_EXPANSION then (0, str)
      else let n = (len + 3) div 3 * 4 in
        (case buf_realloc alloc str n of
           None \<Rightarrow> (0, str)
         | Some ret \<Rightarrow>
             (len, str\<lparr>buf_data := ret @ replicate (len - length (buf_data str)) 0, buf_max := n\<rparr>)))"

text \<open>\<^verbatim>\<open>BUF_MEM_grow_clean\<close> also clears the bytes it drops, which lie past the new length.\<close>

definition BUF_MEM_grow_clean :: "(bool \<Rightarrow> nat \<Rightarrow> bool) \<Rightarrow> BUF_MEM \<Rightarrow> nat \<Rightarrow> nat \<times> BUF_MEM" where
  "BUF_MEM_grow_clean alloc str len =
     (if length (buf_data str) \<ge> len then (len, str\<lparr>buf_data := take len (buf_data str)\<rparr>)
      else if buf_max str \<ge> len
      then (len, str\<lparr>buf_data := buf_data str @ replicate (len - length (buf_data str)) 0\<rparr>)
      else if len > LIMIT_BEFORE_EXPANSION then (0, str)
      else let n = (len + 3) div 3 * 4 in
        (case buf_realloc alloc str n of
           None \<Rightarrow> (0, str)
         | Some ret \<Rightarrow>
             (len, str\<lparr>buf_data := ret @ replicate (len - length (buf_data str)) 0, buf_max := n\<rparr>)))"

text \<open>\<^verbatim>\<open>BUF_reverse\<close>: copying \<open>sz\<close> bytes back to front, or swapping in place from both ends.\<close>

fun reverse_copy :: "bytes \<Rightarrow> bytes \<Rightarrow> nat \<Rightarrow> nat \<Rightarrow> bytes" where
  "reverse_copy out inp sz 0 = out"
| "reverse_copy out inp sz (Suc n) =
     reverse_copy (out[n := inp ! (sz - Suc n)]) inp sz n"

fun reverse_swap :: "bytes \<Rightarrow> nat \<Rightarrow> nat \<Rightarrow> nat \<Rightarrow> bytes" where
  "reverse_swap out i q 0 = out"
| "reverse_swap out i q (Suc n) = reverse_swap (out[q := out ! i, i := out ! q]) (Suc i) (q - 1) n"

definition BUF_reverse :: "bytes \<Rightarrow> bytes option \<Rightarrow> nat \<Rightarrow> bytes" where
  "BUF_reverse out inp sz =
     (case inp of
        Some inp \<Rightarrow> reverse_copy out inp sz sz
      | None \<Rightarrow> reverse_swap out 0 (sz - 1) (sz div 2))"

section \<open>Properties\<close>

definition buf_inv :: "BUF_MEM \<Rightarrow> bool" where
  "buf_inv b \<longleftrightarrow> length (buf_data b) \<le> buf_max b \<and> buf_max b < 2 ^ 31"

lemma grow_limit: "len \<le> LIMIT_BEFORE_EXPANSION \<Longrightarrow> (len + 3) div 3 * 4 < 2 ^ 31"
  by (simp add: LIMIT_BEFORE_EXPANSION_def)

lemma grow_room: "len \<le> (len + 3) div 3 * 4" for len :: nat
  by simp

lemma BUF_MEM_grow_cases:
  assumes "BUF_MEM_grow alloc b len = (r, b')"
  shows "(r = 0 \<and> b' = b \<and> buf_max b < len)
    \<or> (r = len \<and> buf_flags b' = buf_flags b \<and>
       buf_data b' = take len (buf_data b) @ replicate (len - length (buf_data b)) 0 \<and>
       (buf_max b' = buf_max b \<and> (len \<le> length (buf_data b) \<or> len \<le> buf_max b)
        \<or> len \<le> buf_max b' \<and> buf_max b' < 2 ^ 31))"
  using assms grow_limit [of len]
  by (auto simp: BUF_MEM_grow_def buf_realloc_def Let_def split: if_splits option.splits)

lemma BUF_MEM_grow_inv: "buf_inv b \<Longrightarrow> BUF_MEM_grow alloc b len = (r, b') \<Longrightarrow> buf_inv b'"
  by (drule BUF_MEM_grow_cases) (auto simp: buf_inv_def)

lemma BUF_MEM_grow_clean_eq: "BUF_MEM_grow_clean = BUF_MEM_grow"
  by (intro ext) (simp add: BUF_MEM_grow_def BUF_MEM_grow_clean_def)

lemma BUF_MEM_grow_succeeds:
  assumes "\<And>sec n. alloc sec n" "len \<le> LIMIT_BEFORE_EXPANSION"
  shows "fst (BUF_MEM_grow alloc b len) = len"
  using assms by (simp add: BUF_MEM_grow_def buf_realloc_def Let_def)

text \<open>
  Growing a well-formed buffer either fails and changes nothing, which only happens when the
  block is too small, or returns the requested length with the old bytes kept and zeros behind
  them; the block is then large enough, and its size fits an \<^verbatim>\<open>int\<close>. With memory available it
  succeeds up to the expansion limit.
\<close>

theorem buf_grow_correct:
  assumes "buf_inv b" "0 < len"
  shows "case BUF_MEM_grow alloc b len of (r, b') \<Rightarrow>
    buf_inv b' \<and>
    (if r = 0 then b' = b \<and> buf_max b < len
     else r = len \<and> buf_data b' = take len (buf_data b) @ replicate (len - length (buf_data b)) 0
       \<and> len \<le> buf_max b') \<and>
    ((\<forall>sec n. alloc sec n) \<and> len \<le> LIMIT_BEFORE_EXPANSION \<longrightarrow> r = len)"
proof -
  obtain r b' where g: "BUF_MEM_grow alloc b len = (r, b')" by fastforce
  have "buf_inv b'" using BUF_MEM_grow_inv [OF assms(1) g] .
  moreover have "(\<forall>sec n. alloc sec n) \<and> len \<le> LIMIT_BEFORE_EXPANSION \<longrightarrow> r = len"
    using BUF_MEM_grow_succeeds [of alloc len b] g by auto
  ultimately show ?thesis
    using BUF_MEM_grow_cases [OF g] assms g by (auto simp: buf_inv_def)
qed

lemma replicate_3: "replicate 3 x = [x, x, x]"
  by (simp add: numeral_3_eq_3)

theorem buf_grow_correct_witness:
  "BUF_MEM_grow (\<lambda>_ _. True) \<lparr>buf_data = [1, 2], buf_max = 4, buf_flags = 0\<rparr> 5 =
     (5, \<lparr>buf_data = [1, 2, 0, 0, 0], buf_max = 8, buf_flags = 0\<rparr>)
   \<and> buf_inv (snd (BUF_MEM_grow (\<lambda>_ _. True) \<lparr>buf_data = [1, 2], buf_max = 4, buf_flags = 0\<rparr> 5))"
  using buf_grow_correct [of "\<lparr>buf_data = [1, 2], buf_max = 4, buf_flags = 0\<rparr>" 5 "\<lambda>_ _. True"] replicate_3
  by (simp add: BUF_MEM_grow_def buf_realloc_def LIMIT_BEFORE_EXPANSION_def buf_inv_def)

lemma reverse_copy_nth:
  assumes "n \<le> sz" "sz \<le> length inp" "sz \<le> length out" "i < length out"
  shows "reverse_copy out inp sz n ! i = (if i < n then inp ! (sz - Suc i) else out ! i)"
  using assms by (induction out inp sz n rule: reverse_copy.induct) (auto simp: nth_list_update less_Suc_eq)

lemma length_reverse_copy [simp]: "length (reverse_copy out inp sz n) = length out"
  by (induction out inp sz n rule: reverse_copy.induct) auto

lemma length_reverse_swap [simp]: "length (reverse_swap out i q n) = length out"
  by (induction out i q n rule: reverse_swap.induct) auto

lemma reverse_swap_middle:
  "reverse_swap (pre @ m @ post) (length pre) (length pre + length m - 1) (length m div 2) = pre @ rev m @ post"
proof (induction m arbitrary: pre post rule: length_induct)
  case (1 m)
  show ?case
  proof (cases "length m < 2")
    case True
    then have "m = [] \<or> (\<exists>x. m = [x])" by (cases m) (auto simp: less_Suc_eq numeral_2_eq_2)
    then show ?thesis by auto
  next
    case False
    then obtain a m' b where m: "m = a # m' @ [b]"
      by (metis One_nat_def Suc_1 append_Cons append_Nil length_Cons lessI less_2_cases_iff list.exhaust list.size(3)
          rev_exhaust zero_less_Suc)
    have upd: "(pre @ m @ post)[length pre + length m - 1 := (pre @ m @ post) ! length pre,
        length pre := (pre @ m @ post) ! (length pre + length m - 1)] = (pre @ [b]) @ m' @ (a # post)"
      by (simp add: m nth_append list_update_append)
    have "length m div 2 = Suc (length m' div 2)" by (simp add: m)
    then have "reverse_swap (pre @ m @ post) (length pre) (length pre + length m - 1) (length m div 2) =
      reverse_swap ((pre @ [b]) @ m' @ (a # post)) (Suc (length pre)) (length pre + length m - 1 - 1) (length m' div 2)"
      by (simp only: reverse_swap.simps upd)
    also have "\<dots> = (pre @ [b]) @ rev m' @ (a # post)"
      using 1 [rule_format, of m' "pre @ [b]" "a # post"] by (simp add: m)
    finally show ?thesis by (simp add: m)
  qed
qed

lemma reverse_swap_rev:
  assumes "sz \<le> length out"
  shows "reverse_swap out 0 (sz - 1) (sz div 2) = rev (take sz out) @ drop sz out"
  using reverse_swap_middle [of "[]" "take sz out" "drop sz out"] assms by simp

lemma reverse_copy_rev:
  assumes "sz \<le> length inp" "sz \<le> length out"
  shows "reverse_copy out inp sz sz = rev (take sz inp) @ drop sz out"
  by (rule nth_equalityI) (use assms in \<open>auto simp: reverse_copy_nth nth_append rev_nth\<close>)

text \<open>
  \<^verbatim>\<open>BUF_reverse\<close> reverses: copying from another array or swapping in place, the first \<open>sz\<close>
  bytes of the result are the given bytes back to front and the rest of the array is untouched.
\<close>

theorem buf_reverse_correct:
  assumes "sz \<le> length out" "\<And>xs. inp = Some xs \<Longrightarrow> sz \<le> length xs"
  shows "BUF_reverse out inp sz =
    rev (take sz (case inp of Some xs \<Rightarrow> xs | None \<Rightarrow> out)) @ drop sz out"
  using assms by (auto simp: BUF_reverse_def reverse_swap_rev [simplified] reverse_copy_rev split: option.splits)

theorem buf_reverse_correct_witness:
  "BUF_reverse [1, 2, 3, 4, 5] None 4 = [4, 3, 2, 1, 5]"
  using buf_reverse_correct [of 4 "[1, 2, 3, 4, 5]" None] by (simp add: numeral_eq_Suc)

end
