(* ===== verification/WPacket.thy ===== *)
theory WPacket
  imports Buffer
begin

text \<open>
  The packet writer, \<^verbatim>\<open>ssl/packet.c\<close>, with which every handshake message is built, and the parts of
  the packet reader of \<^verbatim>\<open>ssl/packet_local.h\<close> that take such messages apart. A writer fills a static
  array or a growable \<^verbatim>\<open>BUF_MEM\<close>; its sub-packets form a stack, the innermost one first (a
  \<^verbatim>\<open>parent\<close> pointer is the rest of the list). Pointers into the buffer are offsets, \<^verbatim>\<open>size_t\<close>
  values are numbers whose additions and subtractions wrap at 64 bits, and allocation success comes
  from the environment \<open>wp_env\<close>. \<^verbatim>\<open>ossl_assert\<close> is the test of a release build.
\<close>

section \<open>Writer\<close>

record WPACKET_SUB =
  packet_len :: nat
  lenbytes :: nat
  pwritten :: nat
  sub_flags :: u32

record WPACKET =
  buf :: "BUF_MEM option"
  staticbuf :: "bytes option"
  curr :: nat
  written :: nat
  maxsize :: nat
  subs :: "WPACKET_SUB list"

record wp_env =
  buf_alloc :: "bool \<Rightarrow> nat \<Rightarrow> bool"
  sub_alloc :: bool

abbreviation "WPACKET_FLAGS_NON_ZERO_LENGTH \<equiv> 1 :: u32"
abbreviation "WPACKET_FLAGS_ABANDON_ON_ZERO_LENGTH \<equiv> 2 :: u32"

definition size_sub :: "nat \<Rightarrow> nat \<Rightarrow> nat" where
  "size_sub a b = (if b \<le> a then a - b else a + 2 ^ 64 - b)"

definition size_add :: "nat \<Rightarrow> nat \<Rightarrow> nat" where
  "size_add a b = (a + b) mod 2 ^ 64"

definition DEFAULT_BUF_SIZE :: nat where
  "DEFAULT_BUF_SIZE = 256"

definition GETBUF :: "WPACKET \<Rightarrow> bytes" where
  "GETBUF p = (case staticbuf p of
     Some b \<Rightarrow> b
   | None \<Rightarrow> (case buf p of Some b \<Rightarrow> buf_data b | None \<Rightarrow> []))"

text \<open>Storing into the buffer that \<^verbatim>\<open>GETBUF\<close> points to.\<close>

definition SETBUF :: "bytes \<Rightarrow> WPACKET \<Rightarrow> WPACKET" where
  "SETBUF xs p = (case staticbuf p of
     Some _ \<Rightarrow> p\<lparr>staticbuf := Some xs\<rparr>
   | None \<Rightarrow> (case buf p of Some b \<Rightarrow> p\<lparr>buf := Some (b\<lparr>buf_data := xs\<rparr>)\<rparr> | None \<Rightarrow> p))"

definition WPACKET_get_curr :: "WPACKET \<Rightarrow> nat" where
  "WPACKET_get_curr p = curr p"

definition reserve_newlen :: "nat \<Rightarrow> nat \<Rightarrow> nat" where
  "reserve_newlen len blen =
     (let reflen = (if len > blen then len else blen) in
      if reflen > SIZE_MAX div 2 then SIZE_MAX
      else if reflen * 2 < DEFAULT_BUF_SIZE then DEFAULT_BUF_SIZE else reflen * 2)"

definition WPACKET_reserve_bytes :: "wp_env \<Rightarrow> WPACKET \<Rightarrow> nat \<Rightarrow> nat option \<times> WPACKET" where
  "WPACKET_reserve_bytes e p len =
     (if \<not> (subs p \<noteq> [] \<and> len \<noteq> 0) then (None, p)
      else if size_sub (maxsize p) (written p) < len then (None, p)
      else case (staticbuf p, buf p) of
        (None, Some b) \<Rightarrow>
          if size_sub (length (buf_data b)) (written p) < len then
            (case BUF_MEM_grow (buf_alloc e) b (reserve_newlen len (length (buf_data b))) of
               (r, b') \<Rightarrow> if r = 0 then (None, p\<lparr>buf := Some b'\<rparr>)
                          else (Some (WPACKET_get_curr p), p\<lparr>buf := Some b'\<rparr>))
          else (Some (WPACKET_get_curr p), p)
      | _ \<Rightarrow> (Some (WPACKET_get_curr p), p))"

definition WPACKET_allocate_bytes :: "wp_env \<Rightarrow> WPACKET \<Rightarrow> nat \<Rightarrow> nat option \<times> WPACKET" where
  "WPACKET_allocate_bytes e p len =
     (case WPACKET_reserve_bytes e p len of
        (None, p) \<Rightarrow> (None, p)
      | (Some a, p) \<Rightarrow> (Some a, p\<lparr>written := written p + len, curr := curr p + len\<rparr>))"

definition WPACKET_sub_reserve_bytes :: "wp_env \<Rightarrow> WPACKET \<Rightarrow> nat \<Rightarrow> nat \<Rightarrow> nat option \<times> WPACKET" where
  "WPACKET_sub_reserve_bytes e p len lenb =
     (case WPACKET_reserve_bytes e p (size_add lenb len) of
        (None, p) \<Rightarrow> (None, p)
      | (Some a, p) \<Rightarrow> (Some (a + lenb), p))"

definition maxmaxsize :: "nat \<Rightarrow> nat" where
  "maxmaxsize lenb = (if lenb \<ge> 8 \<or> lenb = 0 then SIZE_MAX else 2 ^ (lenb * 8) - 1 + lenb)"

definition zero_sub :: WPACKET_SUB where
  "zero_sub = \<lparr>packet_len = 0, lenbytes = 0, pwritten = 0, sub_flags = 0\<rparr>"

definition wpacket_intern_init_len :: "wp_env \<Rightarrow> WPACKET \<Rightarrow> nat \<Rightarrow> bool \<times> WPACKET" where
  "wpacket_intern_init_len e p lenb =
     (let p = p\<lparr>curr := 0, written := 0\<rparr> in
      if \<not> sub_alloc e then (False, p\<lparr>subs := []\<rparr>)
      else if lenb = 0 then (True, p\<lparr>subs := [zero_sub]\<rparr>)
      else
        let s = zero_sub\<lparr>pwritten := lenb, lenbytes := lenb\<rparr> in
        (case WPACKET_allocate_bytes e (p\<lparr>subs := [s]\<rparr>) lenb of
           (None, p) \<Rightarrow> (False, p\<lparr>subs := []\<rparr>)
         | (Some lenchars, p) \<Rightarrow> (True, p\<lparr>subs := [s\<lparr>packet_len := lenchars\<rparr>]\<rparr>)))"

definition WPACKET_init_static_len :: "wp_env \<Rightarrow> WPACKET \<Rightarrow> bytes \<Rightarrow> nat \<Rightarrow> nat \<Rightarrow> bool \<times> WPACKET" where
  "WPACKET_init_static_len e p b len lenb =
     (if \<not> len > 0 then (False, p)
      else let p = p\<lparr>staticbuf := Some b, buf := None,
                     maxsize := if maxmaxsize lenb < len then maxmaxsize lenb else len\<rparr> in
        wpacket_intern_init_len e p lenb)"

definition WPACKET_init_len :: "wp_env \<Rightarrow> WPACKET \<Rightarrow> BUF_MEM \<Rightarrow> nat \<Rightarrow> bool \<times> WPACKET" where
  "WPACKET_init_len e p b lenb =
     wpacket_intern_init_len e (p\<lparr>staticbuf := None, buf := Some b, maxsize := maxmaxsize lenb\<rparr>) lenb"

definition WPACKET_init :: "wp_env \<Rightarrow> WPACKET \<Rightarrow> BUF_MEM \<Rightarrow> bool \<times> WPACKET" where
  "WPACKET_init e p b = WPACKET_init_len e p b 0"

definition WPACKET_set_flags :: "WPACKET \<Rightarrow> u32 \<Rightarrow> bool \<times> WPACKET" where
  "WPACKET_set_flags p fl =
     (case subs p of
        [] \<Rightarrow> (False, p)
      | s # ss \<Rightarrow> (True, p\<lparr>subs := s\<lparr>sub_flags := fl\<rparr> # ss\<rparr>))"

text \<open>Storing \<open>len\<close> bytes of \<open>value\<close> at offset \<open>off\<close>, last byte first; the result says whether the
  value fits.\<close>

fun put_value :: "bytes \<Rightarrow> nat \<Rightarrow> nat \<Rightarrow> nat \<Rightarrow> bool \<times> bytes" where
  "put_value data off value 0 = (\<not> value > 0, data)"
| "put_value data off value (Suc len) =
     put_value (data[off + len := of_nat (value mod 256)]) off (value div 256) len"

text \<open>Closing the sub-packet \<open>s\<close>: the result also says what became of \<open>s\<close>. The length bytes of an
  abandoned sub-packet are given back.\<close>

definition abandon_sub :: "WPACKET \<Rightarrow> WPACKET_SUB \<Rightarrow> WPACKET \<times> WPACKET_SUB" where
  "abandon_sub p s =
     ((if size_sub (curr p) (lenbytes s) = packet_len s
       then p\<lparr>written := size_sub (written p) (lenbytes s), curr := size_sub (curr p) (lenbytes s)\<rparr>
       else p),
      s\<lparr>packet_len := 0, lenbytes := 0\<rparr>)"

definition wpacket_intern_close :: "WPACKET \<Rightarrow> WPACKET_SUB \<Rightarrow> bool \<Rightarrow> bool \<times> WPACKET \<times> WPACKET_SUB" where
  "wpacket_intern_close p s doclose =
     (let packlen = size_sub (written p) (pwritten s) in
      if packlen = 0 \<and> has_flag (sub_flags s) WPACKET_FLAGS_NON_ZERO_LENGTH then (False, p, s)
      else if packlen = 0 \<and> has_flag (sub_flags s) WPACKET_FLAGS_ABANDON_ON_ZERO_LENGTH \<and> \<not> doclose
      then (False, p, s)
      else
        let (p, s) = (if packlen = 0 \<and> has_flag (sub_flags s) WPACKET_FLAGS_ABANDON_ON_ZERO_LENGTH
                      then abandon_sub p s else (p, s)) in
        if lenbytes s > 0 then
          (case put_value (GETBUF p) (packet_len s) packlen (lenbytes s) of
             (ok, data) \<Rightarrow> (ok, SETBUF data p, s))
        else (True, p, s))"

text \<open>\<^verbatim>\<open>doclose\<close> pops the innermost sub-packet, on which it is called, when all went well.\<close>

definition close_top :: "WPACKET \<Rightarrow> bool \<times> WPACKET" where
  "close_top p =
     (case subs p of
        [] \<Rightarrow> (False, p)
      | s # ss \<Rightarrow>
          (case wpacket_intern_close p s True of
             (False, p', s') \<Rightarrow> (False, p'\<lparr>subs := s' # ss\<rparr>)
           | (True, p', _) \<Rightarrow> (True, p'\<lparr>subs := ss\<rparr>)))"

fun fill_lengths_loop :: "WPACKET \<Rightarrow> WPACKET_SUB list \<Rightarrow> bool \<times> WPACKET" where
  "fill_lengths_loop p [] = (True, p)"
| "fill_lengths_loop p (s # ss) =
     (case wpacket_intern_close p s False of
        (False, p', _) \<Rightarrow> (False, p')
      | (True, p', _) \<Rightarrow> fill_lengths_loop p' ss)"

definition WPACKET_fill_lengths :: "WPACKET \<Rightarrow> bool \<times> WPACKET" where
  "WPACKET_fill_lengths p = (if subs p = [] then (False, p) else fill_lengths_loop p (subs p))"

definition WPACKET_close :: "WPACKET \<Rightarrow> bool \<times> WPACKET" where
  "WPACKET_close p =
     (case subs p of [] \<Rightarrow> (False, p) | [_] \<Rightarrow> (False, p) | _ \<Rightarrow> close_top p)"

definition WPACKET_finish :: "WPACKET \<Rightarrow> bool \<times> WPACKET" where
  "WPACKET_finish p =
     (case subs p of
        [_] \<Rightarrow> (case close_top p of (True, p) \<Rightarrow> (True, p\<lparr>subs := []\<rparr>) | (False, p) \<Rightarrow> (False, p))
      | _ \<Rightarrow> (False, p))"

definition WPACKET_start_sub_packet_len :: "wp_env \<Rightarrow> WPACKET \<Rightarrow> nat \<Rightarrow> bool \<times> WPACKET" where
  "WPACKET_start_sub_packet_len e p lenb =
     (if subs p = [] then (False, p)
      else if \<not> sub_alloc e then (False, p)
      else
        let s = zero_sub\<lparr>pwritten := size_add (written p) lenb, lenbytes := lenb\<rparr>;
            parents = subs p;
            p = p\<lparr>subs := s # parents\<rparr> in
        if lenb = 0 then (True, p)
        else (case WPACKET_allocate_bytes e p lenb of
                (None, p) \<Rightarrow> (False, p)
              | (Some lenchars, p) \<Rightarrow> (True, p\<lparr>subs := s\<lparr>packet_len := lenchars\<rparr> # parents\<rparr>)))"

definition WPACKET_start_sub_packet :: "wp_env \<Rightarrow> WPACKET \<Rightarrow> bool \<times> WPACKET" where
  "WPACKET_start_sub_packet e p = WPACKET_start_sub_packet_len e p 0"

definition WPACKET_sub_allocate_bytes :: "wp_env \<Rightarrow> WPACKET \<Rightarrow> nat \<Rightarrow> nat \<Rightarrow> nat option \<times> WPACKET" where
  "WPACKET_sub_allocate_bytes e p len lenb =
     (case WPACKET_start_sub_packet_len e p lenb of
        (False, p) \<Rightarrow> (None, p)
      | (True, p) \<Rightarrow>
          (case WPACKET_allocate_bytes e p len of
             (None, p) \<Rightarrow> (None, p)
           | (Some a, p) \<Rightarrow>
               (case WPACKET_close p of
                  (False, p) \<Rightarrow> (None, p)
                | (True, p) \<Rightarrow> (Some a, p))))"

definition WPACKET_put_bytes :: "wp_env \<Rightarrow> WPACKET \<Rightarrow> u32 \<Rightarrow> nat \<Rightarrow> bool \<times> WPACKET" where
  "WPACKET_put_bytes e p val sz =
     (if \<not> sz \<le> 4 then (False, p)
      else case WPACKET_allocate_bytes e p sz of
        (None, p) \<Rightarrow> (False, p)
      | (Some a, p) \<Rightarrow>
          (case put_value (GETBUF p) a (unat val) sz of (ok, data) \<Rightarrow> (ok, SETBUF data p)))"

definition WPACKET_set_max_size :: "WPACKET \<Rightarrow> nat \<Rightarrow> bool \<times> WPACKET" where
  "WPACKET_set_max_size p m =
     (if subs p = [] then (False, p)
      else
        let lenb = lenbytes (last (subs p));
            lenb = (if lenb = 0 then 8 else lenb) in
        if maxmaxsize lenb < m \<or> m < written p then (False, p) else (True, p\<lparr>maxsize := m\<rparr>))"

definition store_bytes :: "WPACKET \<Rightarrow> nat \<Rightarrow> bytes \<Rightarrow> WPACKET" where
  "store_bytes p off xs = SETBUF (take off (GETBUF p) @ xs @ drop (off + length xs) (GETBUF p)) p"

definition WPACKET_memset :: "wp_env \<Rightarrow> WPACKET \<Rightarrow> u8 \<Rightarrow> nat \<Rightarrow> bool \<times> WPACKET" where
  "WPACKET_memset e p ch len =
     (if len = 0 then (True, p)
      else case WPACKET_allocate_bytes e p len of
        (None, p) \<Rightarrow> (False, p)
      | (Some dest, p) \<Rightarrow> (True, store_bytes p dest (replicate len ch)))"

definition WPACKET_memcpy :: "wp_env \<Rightarrow> WPACKET \<Rightarrow> bytes \<Rightarrow> bool \<times> WPACKET" where
  "WPACKET_memcpy e p src =
     (if length src = 0 then (True, p)
      else case WPACKET_allocate_bytes e p (length src) of
        (None, p) \<Rightarrow> (False, p)
      | (Some dest, p) \<Rightarrow> (True, store_bytes p dest src))"

definition WPACKET_sub_memcpy :: "wp_env \<Rightarrow> WPACKET \<Rightarrow> bytes \<Rightarrow> nat \<Rightarrow> bool \<times> WPACKET" where
  "WPACKET_sub_memcpy e p src lenb =
     (case WPACKET_start_sub_packet_len e p lenb of
        (False, p) \<Rightarrow> (False, p)
      | (True, p) \<Rightarrow>
          (case WPACKET_memcpy e p src of
             (False, p) \<Rightarrow> (False, p)
           | (True, p) \<Rightarrow> WPACKET_close p))"

definition WPACKET_get_total_written :: "WPACKET \<Rightarrow> nat" where
  "WPACKET_get_total_written p = written p"

definition WPACKET_get_length :: "WPACKET \<Rightarrow> nat option" where
  "WPACKET_get_length p = (case subs p of [] \<Rightarrow> None | s # _ \<Rightarrow> Some (size_sub (written p) (pwritten s)))"

definition WPACKET_cleanup :: "WPACKET \<Rightarrow> WPACKET" where
  "WPACKET_cleanup p = p\<lparr>subs := []\<rparr>"

section \<open>Reader\<close>

text \<open>A \<^verbatim>\<open>PACKET\<close> is the bytes that remain to be read.\<close>

type_synonym PACKET = bytes

definition PACKET_buf_init :: "bytes \<Rightarrow> PACKET option" where
  "PACKET_buf_init b = (if length b > SIZE_MAX div 2 then None else Some b)"

definition PACKET_get_1 :: "PACKET \<Rightarrow> (nat \<times> PACKET) option" where
  "PACKET_get_1 pkt = (if length pkt = 0 then None else Some (unat (pkt ! 0), drop 1 pkt))"

definition PACKET_get_net_2 :: "PACKET \<Rightarrow> (u32 \<times> PACKET) option" where
  "PACKET_get_net_2 pkt =
     (if length pkt < 2 then None
      else Some (push_bit 8 (ucast (pkt ! 0)) OR ucast (pkt ! 1), drop 2 pkt))"

definition PACKET_get_net_3 :: "PACKET \<Rightarrow> (u64 \<times> PACKET) option" where
  "PACKET_get_net_3 pkt =
     (if length pkt < 3 then None
      else Some (push_bit 16 (ucast (pkt ! 0)) OR push_bit 8 (ucast (pkt ! 1)) OR ucast (pkt ! 2), drop 3 pkt))"

definition PACKET_get_net_4 :: "PACKET \<Rightarrow> (u64 \<times> PACKET) option" where
  "PACKET_get_net_4 pkt =
     (if length pkt < 4 then None
      else Some (push_bit 24 (ucast (pkt ! 0)) OR push_bit 16 (ucast (pkt ! 1)) OR push_bit 8 (ucast (pkt ! 2))
                 OR ucast (pkt ! 3), drop 4 pkt))"

definition PACKET_get_bytes :: "PACKET \<Rightarrow> nat \<Rightarrow> (bytes \<times> PACKET) option" where
  "PACKET_get_bytes pkt len = (if length pkt < len then None else Some (take len pkt, drop len pkt))"

definition PACKET_get_sub_packet :: "PACKET \<Rightarrow> nat \<Rightarrow> (PACKET \<times> PACKET) option" where
  "PACKET_get_sub_packet pkt len =
     (if length pkt < len then None
      else case PACKET_buf_init (take len pkt) of None \<Rightarrow> None | Some sub \<Rightarrow> Some (sub, drop len pkt))"

definition PACKET_forward :: "PACKET \<Rightarrow> nat \<Rightarrow> PACKET option" where
  "PACKET_forward pkt len = (if length pkt < len then None else Some (drop len pkt))"

definition PACKET_get_length_prefixed_1 :: "PACKET \<Rightarrow> (PACKET \<times> PACKET) option" where
  "PACKET_get_length_prefixed_1 pkt =
     (case PACKET_get_1 pkt of None \<Rightarrow> None | Some (len, tmp) \<Rightarrow> PACKET_get_bytes tmp len)"

definition PACKET_as_length_prefixed_1 :: "PACKET \<Rightarrow> (PACKET \<times> PACKET) option" where
  "PACKET_as_length_prefixed_1 pkt =
     (case PACKET_get_1 pkt of
        None \<Rightarrow> None
      | Some (len, tmp) \<Rightarrow>
          (case PACKET_get_bytes tmp len of
             None \<Rightarrow> None
           | Some (data, tmp) \<Rightarrow> if length tmp \<noteq> 0 then None else Some (data, tmp)))"

definition PACKET_get_length_prefixed_2 :: "PACKET \<Rightarrow> (PACKET \<times> PACKET) option" where
  "PACKET_get_length_prefixed_2 pkt =
     (case PACKET_get_net_2 pkt of None \<Rightarrow> None | Some (len, tmp) \<Rightarrow> PACKET_get_bytes tmp (unat len))"

definition PACKET_as_length_prefixed_2 :: "PACKET \<Rightarrow> (PACKET \<times> PACKET) option" where
  "PACKET_as_length_prefixed_2 pkt =
     (case PACKET_get_net_2 pkt of
        None \<Rightarrow> None
      | Some (len, tmp) \<Rightarrow>
          (case PACKET_get_bytes tmp (unat len) of
             None \<Rightarrow> None
           | Some (data, tmp) \<Rightarrow> if length tmp \<noteq> 0 then None else Some (data, tmp)))"

definition PACKET_get_length_prefixed_3 :: "PACKET \<Rightarrow> (PACKET \<times> PACKET) option" where
  "PACKET_get_length_prefixed_3 pkt =
     (case PACKET_get_net_3 pkt of None \<Rightarrow> None | Some (len, tmp) \<Rightarrow> PACKET_get_bytes tmp (unat len))"

section \<open>Well-formed writers\<close>

definition wdata :: "WPACKET \<Rightarrow> bytes" where
  "wdata p = take (written p) (GETBUF p)"

text \<open>The stack of sub-packets below the offset \<open>w\<close>: each one has its length bytes right before its
  contents, and starts inside its parent's contents.\<close>

fun subs_ok :: "nat \<Rightarrow> WPACKET_SUB list \<Rightarrow> bool" where
  "subs_ok w [] = True"
| "subs_ok w (s # ss) \<longleftrightarrow> lenbytes s \<le> pwritten s \<and> pwritten s \<le> w
     \<and> (lenbytes s > 0 \<longrightarrow> packet_len s + lenbytes s = pwritten s)
     \<and> subs_ok (pwritten s - lenbytes s) ss"

definition storage_ok :: "WPACKET \<Rightarrow> bool" where
  "storage_ok p \<longleftrightarrow> (case staticbuf p of
     Some b \<Rightarrow> buf p = None \<and> maxsize p \<le> length b
   | None \<Rightarrow> (case buf p of None \<Rightarrow> False | Some b \<Rightarrow> buf_inv b))"

definition wp_inv :: "WPACKET \<Rightarrow> bool" where
  "wp_inv p \<longleftrightarrow> curr p = written p \<and> written p \<le> maxsize p \<and> maxsize p < 2 ^ 64
     \<and> written p \<le> length (GETBUF p) \<and> storage_ok p \<and> subs_ok (written p) (subs p)"

lemma subs_ok_mono: "subs_ok w ss \<Longrightarrow> w \<le> w' \<Longrightarrow> subs_ok w' ss"
  by (cases ss) auto

lemma length_wdata: "wp_inv p \<Longrightarrow> length (wdata p) = written p"
  by (simp add: wdata_def wp_inv_def)

lemma GETBUF_SETBUF: "storage_ok p \<Longrightarrow> GETBUF (SETBUF xs p) = xs"
  by (auto simp: GETBUF_def SETBUF_def storage_ok_def split: option.splits)

lemma SETBUF_sel [simp]:
  "curr (SETBUF xs p) = curr p" "written (SETBUF xs p) = written p" "maxsize (SETBUF xs p) = maxsize p"
  "subs (SETBUF xs p) = subs p"
  by (auto simp: SETBUF_def split: option.splits)

lemma GETBUF_upd [simp]:
  "GETBUF (p\<lparr>curr := c\<rparr>) = GETBUF p" "GETBUF (p\<lparr>written := w\<rparr>) = GETBUF p" "GETBUF (p\<lparr>subs := ss\<rparr>) = GETBUF p"
  "GETBUF (p\<lparr>maxsize := m\<rparr>) = GETBUF p"
  by (simp_all add: GETBUF_def split: option.splits)

lemma storage_upd [simp]:
  "storage_ok (p\<lparr>curr := c\<rparr>) = storage_ok p" "storage_ok (p\<lparr>written := w\<rparr>) = storage_ok p"
  "storage_ok (p\<lparr>subs := ss\<rparr>) = storage_ok p"
  by (simp_all add: storage_ok_def split: option.splits)

lemma storage_SETBUF: "storage_ok p \<Longrightarrow> length xs = length (GETBUF p) \<Longrightarrow> storage_ok (SETBUF xs p)"
  by (auto simp: GETBUF_def SETBUF_def storage_ok_def buf_inv_def split: option.splits)

lemma wp_inv_SETBUF: "wp_inv p \<Longrightarrow> length xs = length (GETBUF p) \<Longrightarrow> wp_inv (SETBUF xs p)"
  by (simp add: wp_inv_def storage_SETBUF GETBUF_SETBUF)

lemma put_value_eq:
  "off + len \<le> length data \<Longrightarrow>
    put_value data off v len = (v < 256 ^ len, take off data @ nat_be len v @ drop (off + len) data)"
proof (induction len arbitrary: data v)
  case 0
  then show ?case by simp
next
  case (Suc len)
  have "drop (off + len) (data[off + len := of_nat (v mod 256)]) = of_nat (v mod 256) # drop (off + Suc len) data"
    using Suc.prems by (simp add: drop_update_swap Cons_nth_drop_Suc [symmetric] list_update_append)
  moreover have "v div 256 < 256 ^ len \<longleftrightarrow> v < 256 ^ Suc len"
    by (simp add: div_less_iff_less_mult mult.commute)
  ultimately show ?case using Suc.prems by (simp add: Suc.IH)
qed

text \<open>Reserving changes the buffer only by appending to it.\<close>

lemma reserve_newlen_cases:
  "reserve_newlen len blen = SIZE_MAX \<or> len + blen \<le> reserve_newlen len blen \<and>
     (reserve_newlen len blen = 256 \<or> reserve_newlen len blen = 2 * max len blen)"
  by (auto simp: reserve_newlen_def DEFAULT_BUF_SIZE_def Let_def)

lemma reserve_success:
  assumes inv: "wp_inv p" and r: "WPACKET_reserve_bytes e p len = (Some a, q)"
  shows "a = written p \<and> 0 < len \<and> written p + len \<le> maxsize p \<and> written p + len \<le> length (GETBUF q)
    \<and> (\<exists>b. q = p \<or> q = p\<lparr>buf := Some b\<rparr>) \<and> take (written p) (GETBUF q) = wdata p \<and> storage_ok q \<and> subs p \<noteq> []"
proof -
  have w: "curr p = written p" "written p \<le> maxsize p" "written p \<le> length (GETBUF p)" "storage_ok p"
    using inv by (auto simp: wp_inv_def)
  have g: "subs p \<noteq> []" "0 < len" "written p + len \<le> maxsize p"
    using r w by (auto simp: WPACKET_reserve_bytes_def size_sub_def split: if_splits)
  show ?thesis
  proof (cases "staticbuf p")
    case (Some b)
    then show ?thesis using r w g
      by (auto simp: WPACKET_reserve_bytes_def WPACKET_get_curr_def size_sub_def storage_ok_def GETBUF_def wdata_def
          split: if_splits)
  next
    case None
    then obtain b where b: "buf p = Some b" using w(4) by (auto simp: storage_ok_def split: option.splits)
    have bi: "buf_inv b" using None b w(4) by (simp add: storage_ok_def)
    have gb: "GETBUF p = buf_data b" using None b by (simp add: GETBUF_def)
    show ?thesis
    proof (cases "length (buf_data b) - written p < len")
      case False
      then show ?thesis using r w g None b gb
        by (auto simp: WPACKET_reserve_bytes_def WPACKET_get_curr_def size_sub_def wdata_def split: if_splits)
    next
      case True
      let ?n = "reserve_newlen len (length (buf_data b))"
      obtain x b' where x: "BUF_MEM_grow (buf_alloc e) b ?n = (x, b')" by fastforce
      have q: "a = written p" "q = p\<lparr>buf := Some b'\<rparr>" "x \<noteq> 0"
        using r w g None b gb True x
        by (auto simp: WPACKET_reserve_bytes_def WPACKET_get_curr_def size_sub_def split: if_splits)
      have "?n \<noteq> SIZE_MAX"
      proof
        assume "?n = SIZE_MAX"
        then show False using BUF_MEM_grow_cases [OF x] q(3) bi by (auto simp: buf_inv_def)
      qed
      then have n: "length (buf_data b) \<le> ?n" "written p + len \<le> ?n"
        using reserve_newlen_cases [of len "length (buf_data b)"] w(3) gb by auto
      have "buf_data b' = buf_data b @ replicate (?n - length (buf_data b)) 0"
        using BUF_MEM_grow_cases [OF x] q(3) n by simp
      moreover have "GETBUF q = buf_data b'" using None q(2) by (simp add: GETBUF_def)
      moreover have "buf_inv b'" using BUF_MEM_grow_inv [OF bi x] .
      ultimately show ?thesis using q g n w None gb by (auto simp: wdata_def storage_ok_def)
    qed
  qed
qed


lemma allocate_success:
  assumes inv: "wp_inv p" and r: "WPACKET_allocate_bytes e p len = (Some a, q)"
  shows "a = written p \<and> 0 < len \<and> wp_inv q \<and> subs q = subs p \<and> maxsize q = maxsize p \<and> written q = written p + len
    \<and> take (written p) (GETBUF q) = wdata p \<and> subs p \<noteq> []"
proof -
  obtain p1 where p1: "WPACKET_reserve_bytes e p len = (Some a, p1)"
    and q: "q = p1\<lparr>written := written p1 + len, curr := curr p1 + len\<rparr>"
    using r by (auto simp: WPACKET_allocate_bytes_def split: prod.splits option.splits)
  note rs = reserve_success [OF inv p1]
  then obtain b where "p1 = p \<or> p1 = p\<lparr>buf := Some b\<rparr>" by blast
  then have "curr p1 = curr p" "written p1 = written p" "maxsize p1 = maxsize p" "subs p1 = subs p" by auto
  then show ?thesis using rs q inv subs_ok_mono [of "written p" "subs p" "written p + len"]
    by (auto simp: wp_inv_def)
qed

lemma wdata_store:
  assumes "wp_inv p" "off + length xs = written p"
  shows "wp_inv (store_bytes p off xs)" "wdata (store_bytes p off xs) = take off (GETBUF p) @ xs"
    "subs (store_bytes p off xs) = subs p" "maxsize (store_bytes p off xs) = maxsize p"
    "written (store_bytes p off xs) = written p"
proof -
  have "off + length xs \<le> length (GETBUF p)" using assms by (simp add: wp_inv_def)
  then show "wp_inv (store_bytes p off xs)" unfolding store_bytes_def
    by (intro wp_inv_SETBUF assms(1)) simp
  show "wdata (store_bytes p off xs) = take off (GETBUF p) @ xs"
    using assms by (simp add: wdata_def store_bytes_def GETBUF_SETBUF wp_inv_def take_append)
qed (simp_all add: store_bytes_def)

lemma memcpy_success:
  assumes inv: "wp_inv p" and r: "WPACKET_memcpy e p src = (True, q)"
  shows "wp_inv q \<and> subs q = subs p \<and> maxsize q = maxsize p \<and> wdata q = wdata p @ src"
proof (cases "src = []")
  case True
  then show ?thesis using assms by (simp add: WPACKET_memcpy_def)
next
  case False
  then obtain a p1 where p1: "WPACKET_allocate_bytes e p (length src) = (Some a, p1)" "q = store_bytes p1 a src"
    using r by (auto simp: WPACKET_memcpy_def split: prod.splits option.splits)
  then show ?thesis using allocate_success [OF inv p1(1)] wdata_store [of p1 a src] by auto
qed

lemma memset_success:
  assumes inv: "wp_inv p" and r: "WPACKET_memset e p ch len = (True, q)"
  shows "wp_inv q \<and> subs q = subs p \<and> maxsize q = maxsize p \<and> wdata q = wdata p @ replicate len ch"
proof (cases "len = 0")
  case True
  then show ?thesis using assms by (simp add: WPACKET_memset_def)
next
  case False
  then obtain a p1 where p1: "WPACKET_allocate_bytes e p len = (Some a, p1)" "q = store_bytes p1 a (replicate len ch)"
    using r by (auto simp: WPACKET_memset_def split: prod.splits option.splits)
  then show ?thesis using allocate_success [OF inv p1(1)] wdata_store [of p1 a "replicate len ch"] by auto
qed

lemma put_value_store:
  assumes "off + len \<le> length (GETBUF p)"
  shows "put_value (GETBUF p) off v len = (ok, data) \<Longrightarrow>
    ok = (v < 256 ^ len) \<and> SETBUF data p = store_bytes p off (nat_be len v)"
  using put_value_eq [OF assms, of v] by (auto simp: store_bytes_def)

lemma put_bytes_success:
  assumes inv: "wp_inv p" and r: "WPACKET_put_bytes e p val sz = (True, q)"
  shows "wp_inv q \<and> subs q = subs p \<and> maxsize q = maxsize p \<and> wdata q = wdata p @ nat_be sz (unat val)
    \<and> 0 < sz \<and> sz \<le> 4 \<and> unat val < 256 ^ sz"
proof -
  obtain a p1 data where p1: "WPACKET_allocate_bytes e p sz = (Some a, p1)" "sz \<le> 4"
    "put_value (GETBUF p1) a (unat val) sz = (True, data)" "q = SETBUF data p1"
    using r by (auto simp: WPACKET_put_bytes_def split: prod.splits option.splits if_splits)
  have al: "a = written p \<and> 0 < sz \<and> wp_inv p1 \<and> subs p1 = subs p \<and> maxsize p1 = maxsize p
    \<and> written p1 = written p + sz \<and> take (written p) (GETBUF p1) = wdata p"
    using allocate_success [OF inv p1(1)] by simp
  then have "a + sz \<le> length (GETBUF p1)" by (simp add: wp_inv_def)
  from put_value_store [OF this p1(3)] show ?thesis
    using al p1 wdata_store [of p1 a "nat_be sz (unat val)"] by auto
qed

lemma allocate_subs:
  assumes "subs p \<noteq> []" "ss \<noteq> []"
  shows "WPACKET_allocate_bytes e (p\<lparr>subs := ss\<rparr>) len =
    (case WPACKET_allocate_bytes e p len of (x, p') \<Rightarrow> (x, p'\<lparr>subs := ss\<rparr>))"
  using assms
  by (auto simp: WPACKET_allocate_bytes_def WPACKET_reserve_bytes_def WPACKET_get_curr_def
      split: prod.splits option.splits if_splits)

lemma start_sub_success:
  assumes inv: "wp_inv p" and r: "WPACKET_start_sub_packet_len e p lenb = (True, q)"
  shows "wp_inv q \<and> maxsize q = maxsize p \<and> subs p \<noteq> [] \<and> written q = written p + lenb
    \<and> subs q = \<lparr>packet_len = (if lenb = 0 then 0 else written p), lenbytes = lenb, pwritten = written p + lenb,
         sub_flags = 0\<rparr> # subs p
    \<and> take (written p) (wdata q) = wdata p"
proof (cases "lenb = 0")
  case True
  then show ?thesis using assms
    by (auto simp: WPACKET_start_sub_packet_len_def Let_def zero_sub_def wp_inv_def wdata_def size_add_def split: if_splits)
next
  case False
  let ?s = "zero_sub\<lparr>pwritten := size_add (written p) lenb, lenbytes := lenb\<rparr>"
  let ?p = "p\<lparr>subs := ?s # subs p\<rparr>"
  obtain a p1 where p1: "WPACKET_allocate_bytes e ?p lenb = (Some a, p1)" "subs p \<noteq> []"
    "q = p1\<lparr>subs := ?s\<lparr>packet_len := a\<rparr> # subs p\<rparr>"
    using r False
    by (auto simp: WPACKET_start_sub_packet_len_def Let_def split: prod.splits option.splits if_splits)
  obtain p2 where p2: "WPACKET_allocate_bytes e p lenb = (Some a, p2)" "p1 = p2\<lparr>subs := ?s # subs p\<rparr>"
    using p1(1) allocate_subs [of p "?s # subs p" e lenb] p1(2) by (auto split: prod.splits)
  have al: "a = written p \<and> 0 < lenb \<and> wp_inv p2 \<and> subs p2 = subs p \<and> maxsize p2 = maxsize p
    \<and> written p2 = written p + lenb \<and> take (written p) (GETBUF p2) = wdata p"
    using allocate_success [OF inv p2(1)] by simp
  then have "size_add (written p) lenb = written p + lenb"
    by (simp add: size_add_def wp_inv_def)
  moreover have "subs_ok (written p) (subs p)" using inv by (simp add: wp_inv_def)
  ultimately show ?thesis using al p1 p2 False
    by (auto simp: wp_inv_def zero_sub_def wdata_def min_def)
qed

lemma close_top_success:
  assumes inv: "wp_inv p" and s: "subs p = s # ss" "sub_flags s = 0" and c: "close_top p = (True, q)"
  shows "wp_inv q \<and> maxsize q = maxsize p \<and> subs q = ss
    \<and> (0 < lenbytes s \<longrightarrow> written p - pwritten s < 256 ^ lenbytes s)
    \<and> wdata q = take (pwritten s - lenbytes s) (wdata p) @ nat_be (lenbytes s) (written p - pwritten s)
        @ drop (pwritten s) (wdata p)"
proof -
  have so: "lenbytes s \<le> pwritten s" "pwritten s \<le> written p" "0 < lenbytes s \<longrightarrow> packet_len s + lenbytes s = pwritten s"
    "subs_ok (pwritten s - lenbytes s) ss" and wl: "written p \<le> length (GETBUF p)"
    using inv s(1) by (auto simp: wp_inv_def)
  have sso: "subs_ok (written p) ss" using so by (auto intro: subs_ok_mono)
  show ?thesis
  proof (cases "lenbytes s = 0")
    case True
    then have "q = p\<lparr>subs := ss\<rparr>"
      using c s by (auto simp: close_top_def wpacket_intern_close_def has_flag_def Let_def split: if_splits)
    moreover have "wdata (p\<lparr>subs := ss\<rparr>) = wdata p" by (simp add: wdata_def)
    ultimately show ?thesis using True inv so sso by (auto simp: wp_inv_def)
  next
    case False
    let ?pl = "written p - pwritten s"
    obtain data where d: "put_value (GETBUF p) (packet_len s) ?pl (lenbytes s) = (True, data)"
      "q = (SETBUF data p)\<lparr>subs := ss\<rparr>"
      using c s False so
      by (auto simp: close_top_def wpacket_intern_close_def has_flag_def size_sub_def Let_def
          split: if_splits prod.splits bool.splits)
    have pk: "pwritten s - lenbytes s = packet_len s" using so False by linarith
    have off: "packet_len s + lenbytes s \<le> length (GETBUF p)" using so wl False by simp
    note pv = put_value_eq [OF off, of ?pl]
    have q: "?pl < 256 ^ lenbytes s" "GETBUF q = data"
      "data = take (packet_len s) (GETBUF p) @ nat_be (lenbytes s) ?pl @ drop (pwritten s) (GETBUF p)"
      using pv d inv so False by (auto simp: wp_inv_def GETBUF_SETBUF)
    have len: "length data = length (GETBUF p)" using q(3) off so False by simp
    have "wp_inv (SETBUF data p)" using wp_inv_SETBUF [OF inv len] .
    then have "wp_inv q" using d sso by (auto simp: wp_inv_def)
    moreover have "wdata q = take (packet_len s) (wdata p) @ nat_be (lenbytes s) ?pl @ drop (pwritten s) (wdata p)"
      using q d so wl False by (simp add: wdata_def drop_take min_def)
    ultimately show ?thesis using q(1) d(2) unfolding pk by simp
  qed
qed


lemma close_is_close_top: "subs p = s # ss \<Longrightarrow> ss \<noteq> [] \<Longrightarrow> WPACKET_close p = close_top p"
  by (cases ss) (auto simp: WPACKET_close_def)

section \<open>Structured messages\<close>

text \<open>A message as its builder describes it: raw bytes, numbers of a fixed size and sub-packets with a
  length in front. \<open>encode\<close> says what such a message looks like on the wire, \<open>fits\<close> that its numbers
  and lengths can be represented, and \<open>write_doc\<close> builds it with the writer's operations.\<close>

datatype doc = Raw bytes | Num nat u32 | Sub nat "doc list"

fun encode :: "doc \<Rightarrow> bytes" and encodes :: "doc list \<Rightarrow> bytes" where
  "encode (Raw xs) = xs"
| "encode (Num sz v) = nat_be sz (unat v)"
| "encode (Sub lenb ds) = nat_be lenb (length (encodes ds)) @ encodes ds"
| "encodes [] = []"
| "encodes (d # ds) = encode d @ encodes ds"

fun fits :: "doc \<Rightarrow> bool" and fits_all :: "doc list \<Rightarrow> bool" where
  "fits (Raw xs) \<longleftrightarrow> True"
| "fits (Num sz v) \<longleftrightarrow> 0 < sz \<and> sz \<le> 4 \<and> unat v < 256 ^ sz"
| "fits (Sub lenb ds) \<longleftrightarrow> (0 < lenb \<longrightarrow> length (encodes ds) < 256 ^ lenb) \<and> fits_all ds"
| "fits_all [] \<longleftrightarrow> True"
| "fits_all (d # ds) \<longleftrightarrow> fits d \<and> fits_all ds"

fun write_doc :: "wp_env \<Rightarrow> WPACKET \<Rightarrow> doc \<Rightarrow> bool \<times> WPACKET"
  and write_docs :: "wp_env \<Rightarrow> WPACKET \<Rightarrow> doc list \<Rightarrow> bool \<times> WPACKET" where
  "write_doc e p (Raw xs) = WPACKET_memcpy e p xs"
| "write_doc e p (Num sz v) = WPACKET_put_bytes e p v sz"
| "write_doc e p (Sub lenb ds) =
     (case WPACKET_start_sub_packet_len e p lenb of
        (False, p) \<Rightarrow> (False, p)
      | (True, p) \<Rightarrow>
          (case write_docs e p ds of
             (False, p) \<Rightarrow> (False, p)
           | (True, p) \<Rightarrow> WPACKET_close p))"
| "write_docs e p [] = (True, p)"
| "write_docs e p (d # ds) =
     (case write_doc e p d of
        (False, p) \<Rightarrow> (False, p)
      | (True, p) \<Rightarrow> write_docs e p ds)"

lemma sub_written:
  assumes inv: "wp_inv p" "wp_inv p1" and p1: "written p1 = written p + lenb" "take (written p) (wdata p1) = wdata p"
    and p2: "wp_inv p2" "wdata p2 = wdata p1 @ body"
  shows "take (written p) (wdata p2) = wdata p" "drop (written p + lenb) (wdata p2) = body"
    "written p2 = written p + lenb + length body"
  using assms length_wdata [of p] length_wdata [of p1] length_wdata [of p2] by auto

lemma write_doc_success:
  "wp_inv p \<Longrightarrow> subs p \<noteq> [] \<Longrightarrow> write_doc e p d = (True, q) \<Longrightarrow>
     wp_inv q \<and> maxsize q = maxsize p \<and> subs q = subs p \<and> wdata q = wdata p @ encode d \<and> fits d"
  "wp_inv p \<Longrightarrow> subs p \<noteq> [] \<Longrightarrow> write_docs e p ds = (True, q) \<Longrightarrow>
     wp_inv q \<and> maxsize q = maxsize p \<and> subs q = subs p \<and> wdata q = wdata p @ encodes ds \<and> fits_all ds"
proof (induction e p d and e p ds arbitrary: q and q rule: write_doc_write_docs.induct)
  case (1 e p xs)
  then show ?case using memcpy_success [of p e xs q] by simp
next
  case (2 e p sz v)
  then show ?case using put_bytes_success [of p e v sz q] by simp
next
  case (3 e p lenb ds)
  obtain p1 p2 where p1: "WPACKET_start_sub_packet_len e p lenb = (True, p1)"
    and p2: "write_docs e p1 ds = (True, p2)" and cl: "WPACKET_close p2 = (True, q)"
    using 3(4) by (auto split: prod.splits bool.splits)
  note st = start_sub_success [OF 3(2) p1]
  have w: "wp_inv p2 \<and> maxsize p2 = maxsize p1 \<and> subs p2 = subs p1 \<and> wdata p2 = wdata p1 @ encodes ds \<and> fits_all ds"
    by (rule 3(1) [OF p1 [symmetric]]) (use st p2 in simp_all)
  have ld: "length (wdata p) = written p" using length_wdata [OF 3(2)] .
  have "wp_inv p1" "written p1 = written p + lenb" "take (written p) (wdata p1) = wdata p"
    using st by simp_all
  then have sw: "take (written p) (wdata p2) = wdata p" "drop (written p + lenb) (wdata p2) = encodes ds"
    "written p2 = written p + lenb + length (encodes ds)"
    using sub_written [OF 3(2), of p1 lenb p2 "encodes ds"] w by simp_all
  define s where "s = \<lparr>packet_len = if lenb = 0 then 0 else written p, lenbytes = lenb,
    pwritten = written p + lenb, sub_flags = 0\<rparr>"
  have s: "subs p2 = s # subs p" "sub_flags s = 0" "lenbytes s = lenb" "pwritten s = written p + lenb"
    using st w by (simp_all add: s_def)
  have "wp_inv p2" "maxsize p2 = maxsize p" using w st by simp_all
  from close_top_success [OF this(1) s(1,2) cl [unfolded close_is_close_top [OF s(1) 3(3)]]] this(2) sw w
  show ?case by (simp add: s)
next
  case (4 e p)
  then show ?case by simp
next
  case (5 e p d ds)
  obtain p1 where p1: "write_doc e p d = (True, p1)" "write_docs e p1 ds = (True, q)"
    using 5(5) by (auto split: prod.splits bool.splits)
  have a: "wp_inv p1" "maxsize p1 = maxsize p" "subs p1 = subs p" "wdata p1 = wdata p @ encode d" "fits d"
    using 5(1) [OF 5(3,4) p1(1)] by simp_all
  have "wp_inv q \<and> maxsize q = maxsize p1 \<and> subs q = subs p1 \<and> wdata q = wdata p1 @ encodes ds \<and> fits_all ds"
    by (rule 5(2) [OF p1(1) [symmetric]]) (use a 5(4) p1(2) in simp_all)
  then show ?case using a by simp
qed


section \<open>Success\<close>

text \<open>With memory available, a writer has room for \<open>n\<close> more bytes if its maximum size allows them and
  a growable buffer stays below the limit for expansion.\<close>

definition memory_available :: "wp_env \<Rightarrow> bool" where
  "memory_available e \<longleftrightarrow> sub_alloc e \<and> buf_alloc e = (\<lambda>_ _. True)"

definition room :: "WPACKET \<Rightarrow> nat \<Rightarrow> bool" where
  "room p n \<longleftrightarrow> written p + n \<le> maxsize p \<and>
     (staticbuf p = None \<longrightarrow> 2 * (written p + n) \<le> LIMIT_BEFORE_EXPANSION)"

lemma reserve_succeeds:
  assumes inv: "wp_inv p" and "subs p \<noteq> []" "0 < len" "room p len" "memory_available e"
  shows "fst (WPACKET_reserve_bytes e p len) \<noteq> None"
proof (cases "staticbuf p")
  case (Some b)
  then show ?thesis using assms
    by (auto simp: WPACKET_reserve_bytes_def size_sub_def room_def wp_inv_def)
next
  case None
  then obtain b where b: "buf p = Some b" "written p \<le> length (buf_data b)"
    using inv by (auto simp: wp_inv_def storage_ok_def GETBUF_def split: option.splits)
  have "fst (BUF_MEM_grow (buf_alloc e) b (reserve_newlen len (length (buf_data b)))) \<noteq> 0"
    if "length (buf_data b) - written p < len"
  proof -
    have "max len (length (buf_data b)) \<le> written p + len" using that b by auto
    then have "reserve_newlen len (length (buf_data b)) \<le> LIMIT_BEFORE_EXPANSION"
      using assms(4) None
      by (auto simp: reserve_newlen_def DEFAULT_BUF_SIZE_def room_def LIMIT_BEFORE_EXPANSION_def Let_def)
    then show ?thesis
      using BUF_MEM_grow_succeeds [of "buf_alloc e"] assms(3,5) reserve_newlen_cases [of len "length (buf_data b)"]
      by (auto simp: memory_available_def)
  qed
  then show ?thesis using assms None b
    by (auto simp: WPACKET_reserve_bytes_def size_sub_def room_def wp_inv_def split: prod.splits)
qed

lemma allocate_succeeds:
  assumes "wp_inv p" "subs p \<noteq> []" "0 < len" "room p len" "memory_available e"
  shows "\<exists>a q. WPACKET_allocate_bytes e p len = (Some a, q)"
  using reserve_succeeds [OF assms]
  by (cases "WPACKET_reserve_bytes e p len") (auto simp: WPACKET_allocate_bytes_def split: option.splits)

lemma staticbuf_SETBUF [simp]: "staticbuf (SETBUF xs p) = None \<longleftrightarrow> staticbuf p = None"
  by (auto simp: SETBUF_def split: option.splits)

lemma staticbuf_reserve: "WPACKET_reserve_bytes e p len = (a, q) \<Longrightarrow> staticbuf q = staticbuf p"
  by (auto simp: WPACKET_reserve_bytes_def split: if_splits option.splits prod.splits)

lemma staticbuf_allocate: "WPACKET_allocate_bytes e p len = (a, q) \<Longrightarrow> staticbuf q = staticbuf p"
  by (auto simp: WPACKET_allocate_bytes_def dest: staticbuf_reserve split: option.splits prod.splits)

lemma staticbuf_close: "WPACKET_close p = (r, q) \<Longrightarrow> staticbuf q = None \<longleftrightarrow> staticbuf p = None"
  by (auto simp: WPACKET_close_def close_top_def wpacket_intern_close_def abandon_sub_def Let_def
      split: list.splits if_splits prod.splits bool.splits)

lemma staticbuf_start_sub: "WPACKET_start_sub_packet_len e p lenb = (r, q) \<Longrightarrow> staticbuf q = staticbuf p"
  by (auto simp: WPACKET_start_sub_packet_len_def Let_def dest: staticbuf_allocate
      split: if_splits prod.splits option.splits)

lemma staticbuf_write:
  "write_doc e p d = (r, q) \<Longrightarrow> staticbuf q = None \<longleftrightarrow> staticbuf p = None"
  "write_docs e p ds = (r, q) \<Longrightarrow> staticbuf q = None \<longleftrightarrow> staticbuf p = None"
proof (induction e p d and e p ds arbitrary: q r and q r rule: write_doc_write_docs.induct)
  case (1 e p xs)
  then show ?case
    by (auto simp: WPACKET_memcpy_def store_bytes_def dest: staticbuf_allocate split: if_splits prod.splits option.splits)
next
  case (2 e p sz v)
  then show ?case
    by (auto simp: WPACKET_put_bytes_def dest: staticbuf_allocate split: if_splits prod.splits option.splits)
next
  case (3 e p lenb ds)
  obtain x1 p1 where p1: "WPACKET_start_sub_packet_len e p lenb = (x1, p1)" by fastforce
  obtain x2 p2 where p2: "write_docs e p1 ds = (x2, p2)" by fastforce
  show ?case
  proof (cases x1)
    case True
    then have "staticbuf p2 = None \<longleftrightarrow> staticbuf p1 = None"
      using 3(1) [of True p1 x2 p2] p1 p2 by simp
    then show ?thesis using True 3(2) p1 p2 staticbuf_start_sub [OF p1] staticbuf_close [of p2 r q]
      by (simp split: bool.splits)
  qed (use 3(2) p1 staticbuf_start_sub [OF p1] in simp)
next
  case (4 e p)
  then show ?case by simp
next
  case (5 e p d ds)
  obtain x1 p1 where p1: "write_doc e p d = (x1, p1)" by fastforce
  have "staticbuf p1 = None \<longleftrightarrow> staticbuf p = None" using 5(1) [OF p1] .
  moreover have "x1 \<Longrightarrow> write_docs e p1 ds = (r, q) \<Longrightarrow> staticbuf q = None \<longleftrightarrow> staticbuf p1 = None"
    using 5(2) [of True p1 r q] p1 by simp
  ultimately show ?case using 5(3) p1 by (simp split: bool.splits)
qed

lemma room_shift:
  assumes "room p (m + n)" "written q = written p + m" "maxsize q = maxsize p"
    "staticbuf q = None \<longleftrightarrow> staticbuf p = None"
  shows "room q n"
  using assms by (auto simp: room_def)

lemma room_less: "room p n \<Longrightarrow> m \<le> n \<Longrightarrow> room p m"
  by (auto simp: room_def)

lemma start_sub_succeeds:
  assumes "wp_inv p" "subs p \<noteq> []" "room p lenb" "memory_available e"
  obtains q where "WPACKET_start_sub_packet_len e p lenb = (True, q)"
proof (cases "lenb = 0")
  case True
  then show ?thesis using assms that by (auto simp: WPACKET_start_sub_packet_len_def memory_available_def Let_def)
next
  case False
  let ?s = "zero_sub\<lparr>pwritten := size_add (written p) lenb, lenbytes := lenb\<rparr>"
  obtain a p1 where "WPACKET_allocate_bytes e (p\<lparr>subs := ?s # subs p\<rparr>) lenb = (Some a, p1)"
    using allocate_succeeds [OF assms(1,2) _ assms(3,4)] allocate_subs [OF assms(2), of "?s # subs p" e lenb] False
    by auto
  then show ?thesis using assms that False
    by (auto simp: WPACKET_start_sub_packet_len_def memory_available_def Let_def)
qed

lemma close_top_succeeds:
  assumes inv: "wp_inv p" and s: "subs p = s # ss" "sub_flags s = 0"
    and fit: "0 < lenbytes s \<longrightarrow> written p - pwritten s < 256 ^ lenbytes s"
  shows "\<exists>q. close_top p = (True, q)"
proof -
  have so: "pwritten s \<le> written p" "0 < lenbytes s \<longrightarrow> packet_len s + lenbytes s \<le> length (GETBUF p)"
    using inv s(1) by (auto simp: wp_inv_def)
  show ?thesis using s fit so put_value_eq [of "packet_len s" "lenbytes s" "GETBUF p"]
    by (auto simp: close_top_def wpacket_intern_close_def has_flag_def size_sub_def Let_def
        split: prod.splits if_splits)
qed

lemma write_doc_succeeds:
  "wp_inv p \<Longrightarrow> subs p \<noteq> [] \<Longrightarrow> memory_available e \<Longrightarrow> fits d \<Longrightarrow> room p (length (encode d)) \<Longrightarrow>
     fst (write_doc e p d)"
  "wp_inv p \<Longrightarrow> subs p \<noteq> [] \<Longrightarrow> memory_available e \<Longrightarrow> fits_all ds \<Longrightarrow> room p (length (encodes ds)) \<Longrightarrow>
     fst (write_docs e p ds)"
proof (induction e p d and e p ds rule: write_doc_write_docs.induct)
  case (1 e p xs)
  then have "xs \<noteq> [] \<Longrightarrow> \<exists>a q. WPACKET_allocate_bytes e p (length xs) = (Some a, q)"
    using allocate_succeeds [of p "length xs" e] by simp
  then show ?case by (cases "xs = []") (auto simp: WPACKET_memcpy_def)
next
  case (2 e p sz v)
  then obtain a q where q: "WPACKET_allocate_bytes e p sz = (Some a, q)"
    using allocate_succeeds [of p sz e] by auto
  then have "a + sz \<le> length (GETBUF q)" using allocate_success [OF 2(1) q] by (auto simp: wp_inv_def)
  then show ?case using q 2 put_value_eq [of a sz "GETBUF q" "unat v"]
    by (auto simp: WPACKET_put_bytes_def)
next
  case (3 e p lenb ds)
  obtain p1 where p1: "WPACKET_start_sub_packet_len e p lenb = (True, p1)"
    using start_sub_succeeds [OF 3(2,3) _ 3(4)] room_less [OF 3(6), of lenb] by auto
  note st = start_sub_success [OF 3(2) p1]
  have r1: "room p1 (length (encodes ds))"
    using room_shift [of p lenb "length (encodes ds)" p1] 3(6) st staticbuf_start_sub [OF p1] by simp
  have "fst (write_docs e p1 ds)"
    by (rule 3(1) [OF p1 [symmetric]]) (use st 3(4,5) r1 in simp_all)
  then obtain p2 where p2: "write_docs e p1 ds = (True, p2)" by (cases "write_docs e p1 ds") auto
  have w: "wp_inv p2 \<and> subs p2 = subs p1 \<and> wdata p2 = wdata p1 @ encodes ds"
    using write_doc_success(2) [OF _ _ p2] st by simp
  then have "written p2 = written p + lenb + length (encodes ds)"
    using length_wdata [of p2] length_wdata [of p1] st by simp
  moreover define s where "s = \<lparr>packet_len = if lenb = 0 then 0 else written p, lenbytes = lenb,
    pwritten = written p + lenb, sub_flags = 0\<rparr>"
  moreover have "subs p2 = s # subs p" using st w by (simp add: s_def)
  ultimately have "\<exists>q. WPACKET_close p2 = (True, q)"
    using close_top_succeeds [of p2 s "subs p"] close_is_close_top [of p2 s "subs p"] w 3(3,5) by simp
  then show ?case using p1 p2 by auto
next
  case (4 e p)
  then show ?case by simp
next
  case (5 e p d ds)
  have "fst (write_doc e p d)"
    using 5(1) 5(3-) room_less [OF 5(7), of "length (encode d)"] by simp
  then obtain p1 where p1: "write_doc e p d = (True, p1)" by (cases "write_doc e p d") auto
  have a: "wp_inv p1" "maxsize p1 = maxsize p" "subs p1 = subs p" "wdata p1 = wdata p @ encode d"
    using write_doc_success(1) [OF 5(3,4) p1] by simp_all
  then have "written p1 = written p + length (encode d)"
    using length_wdata [of p1] length_wdata [OF 5(3)] by simp
  then have "room p1 (length (encodes ds))"
    using room_shift [of p "length (encode d)" "length (encodes ds)" p1] 5(7) a staticbuf_write(1) [OF p1] by simp
  then have "fst (write_docs e p1 ds)"
    using 5(2) [OF p1 [symmetric]] a 5(4-6) by simp
  then show ?case using p1 by simp
qed


section \<open>Whole messages\<close>

definition top_sub :: "nat \<Rightarrow> WPACKET_SUB" where
  "top_sub lenb = \<lparr>packet_len = 0, lenbytes = lenb, pwritten = lenb, sub_flags = 0\<rparr>"

lemma maxmaxsize_bound: "maxmaxsize lenb < 2 ^ 64"
proof (cases "lenb \<ge> 8 \<or> lenb = 0")
  case False
  then have "lenb \<in> {1, 2, 3, 4, 5, 6, 7}" by auto
  then show ?thesis by (auto simp: maxmaxsize_def)
qed (simp add: maxmaxsize_def)

lemma init_len_success:
  assumes "buf_inv b" "WPACKET_init_len e p b lenb = (True, q)"
  shows "wp_inv q \<and> subs q = [top_sub lenb] \<and> written q = lenb \<and> maxsize q = maxmaxsize lenb \<and> staticbuf q = None"
proof -
  define p1 where "p1 = p\<lparr>staticbuf := None, buf := Some b, maxsize := maxmaxsize lenb, curr := 0, written := 0,
    subs := [zero_sub]\<rparr>"
  have p1: "wp_inv p1" "staticbuf p1 = None"
    using assms(1)
    by (simp_all add: p1_def wp_inv_def storage_ok_def zero_sub_def maxmaxsize_bound [simplified] GETBUF_def)
  show ?thesis
  proof (cases "lenb = 0")
    case True
    then have "q = p1" using assms(2)
      by (auto simp: WPACKET_init_len_def wpacket_intern_init_len_def p1_def Let_def split: if_splits)
    then show ?thesis using True p1 by (auto simp: p1_def top_sub_def zero_sub_def)
  next
    case False
    let ?s = "zero_sub\<lparr>pwritten := lenb, lenbytes := lenb\<rparr>"
    have "WPACKET_allocate_bytes e (p1\<lparr>subs := [?s]\<rparr>) lenb =
        WPACKET_allocate_bytes e (p\<lparr>staticbuf := None, buf := Some b, maxsize := maxmaxsize lenb, curr := 0,
          written := 0, subs := [?s]\<rparr>) lenb"
      by (simp add: p1_def)
    then obtain a p2 where p2: "WPACKET_allocate_bytes e p1 lenb = (Some a, p2)" "q = p2\<lparr>subs := [?s\<lparr>packet_len := a\<rparr>]\<rparr>"
      using assms(2) False allocate_subs [of p1 "[?s]" e lenb]
      by (auto simp: WPACKET_init_len_def wpacket_intern_init_len_def Let_def p1_def
          split: if_splits prod.splits option.splits)
    show ?thesis using allocate_success [OF p1(1) p2(1)] staticbuf_allocate [OF p2(1)] p2(2) p1(2)
      by (auto simp: wp_inv_def top_sub_def zero_sub_def p1_def)
  qed
qed


lemma init_len_succeeds:
  assumes "buf_inv b" "memory_available e" "2 * lenb \<le> LIMIT_BEFORE_EXPANSION"
  shows "\<exists>q. WPACKET_init_len e p b lenb = (True, q)"
proof (cases "lenb = 0")
  case True
  then show ?thesis using assms
    by (simp add: WPACKET_init_len_def wpacket_intern_init_len_def memory_available_def Let_def)
next
  case False
  let ?s = "zero_sub\<lparr>pwritten := lenb, lenbytes := lenb\<rparr>"
  define p1 where "p1 = p\<lparr>staticbuf := None, buf := Some b, maxsize := maxmaxsize lenb, curr := 0, written := 0,
    subs := [zero_sub]\<rparr>"
  have "wp_inv p1"
    using assms(1)
    by (simp add: p1_def wp_inv_def storage_ok_def zero_sub_def maxmaxsize_bound [simplified] GETBUF_def)
  moreover have "(1 :: nat) \<le> 2 ^ (lenb * 8)" by simp
  then have "lenb \<le> maxmaxsize lenb"
    using assms(3) unfolding maxmaxsize_def LIMIT_BEFORE_EXPANSION_def by (simp, linarith)
  ultimately obtain a p2 where "WPACKET_allocate_bytes e p1 lenb = (Some a, p2)"
    using allocate_succeeds [of p1 lenb e] assms(2,3) False by (auto simp: room_def p1_def)
  then have "WPACKET_allocate_bytes e (p1\<lparr>subs := [?s]\<rparr>) lenb = (Some a, p2\<lparr>subs := [?s]\<rparr>)"
    using allocate_subs [of p1 "[?s]" e lenb] by (simp add: p1_def)
  then show ?thesis using assms(2) False
    by (simp add: WPACKET_init_len_def wpacket_intern_init_len_def memory_available_def Let_def p1_def)
qed

definition build_message :: "wp_env \<Rightarrow> WPACKET \<Rightarrow> BUF_MEM \<Rightarrow> nat \<Rightarrow> doc list \<Rightarrow> bool \<times> WPACKET" where
  "build_message e p b lenb ds =
     (case WPACKET_init_len e p b lenb of
        (False, p) \<Rightarrow> (False, p)
      | (True, p) \<Rightarrow>
          (case write_docs e p ds of
             (False, p) \<Rightarrow> (False, p)
           | (True, p) \<Rightarrow> WPACKET_finish p))"

lemma finish_is_close_top: "subs p = [s] \<Longrightarrow> close_top p = (r, q) \<Longrightarrow>
  WPACKET_finish p = (r, if r then q\<lparr>subs := []\<rparr> else q)"
  by (auto simp: WPACKET_finish_def split: bool.splits)

text \<open>The two halves of building a message: what success means, and when it happens.\<close>

lemma build_message_success:
  assumes "buf_inv b" "build_message e p b lenb ds = (True, q)"
  shows "wdata q = encode (Sub lenb ds) \<and> fits (Sub lenb ds) \<and> subs q = []"
proof -
  obtain p1 p2 where p1: "WPACKET_init_len e p b lenb = (True, p1)" and p2: "write_docs e p1 ds = (True, p2)"
    and f: "WPACKET_finish p2 = (True, q)"
    using assms(2) by (auto simp: build_message_def split: prod.splits bool.splits)
  note i = init_len_success [OF assms(1) p1]
  have w: "wp_inv p2 \<and> subs p2 = [top_sub lenb] \<and> wdata p2 = wdata p1 @ encodes ds \<and> fits_all ds"
    using write_doc_success(2) [OF _ _ p2] i by simp
  then have len: "written p2 = lenb + length (encodes ds)" "length (wdata p1) = lenb"
    using length_wdata [of p2] length_wdata [of p1] i by simp_all
  obtain q' where c: "close_top p2 = (True, q')" "q = q'\<lparr>subs := []\<rparr>"
    using f w by (auto simp: WPACKET_finish_def split: prod.splits bool.splits)
  have "wdata q = wdata q'" using c(2) by (simp add: wdata_def)
  then show ?thesis using close_top_success [of p2 "top_sub lenb" "[]" q'] c w len by (simp add: top_sub_def)
qed

lemma build_message_succeeds:
  assumes "buf_inv b" "memory_available e" "lenb < 8" "fits (Sub lenb ds)"
    "2 * (lenb + length (encodes ds)) \<le> LIMIT_BEFORE_EXPANSION"
  shows "fst (build_message e p b lenb ds)"
proof -
  obtain p1 where p1: "WPACKET_init_len e p b lenb = (True, p1)"
    using init_len_succeeds [OF assms(1,2), of lenb p] assms(5) by auto
  note i = init_len_success [OF assms(1) p1]
  have "lenb + length (encodes ds) \<le> maxmaxsize lenb"
    using assms(3-5) by (auto simp: maxmaxsize_def LIMIT_BEFORE_EXPANSION_def power_mult mult.commute [of lenb])
  then have "room p1 (length (encodes ds))" using i assms(5) by (simp add: room_def)
  then have "fst (write_docs e p1 ds)" using write_doc_succeeds(2) [of p1 e ds] i assms(2,4) by simp
  then obtain p2 where p2: "write_docs e p1 ds = (True, p2)" by (cases "write_docs e p1 ds") auto
  have w: "wp_inv p2 \<and> subs p2 = [top_sub lenb] \<and> wdata p2 = wdata p1 @ encodes ds"
    using write_doc_success(2) [OF _ _ p2] i by simp
  then have "written p2 = lenb + length (encodes ds)"
    using length_wdata [of p2] length_wdata [of p1] i by simp
  then obtain q where "close_top p2 = (True, q)"
    using close_top_succeeds [of p2 "top_sub lenb" "[]"] w assms(4) by (auto simp: top_sub_def)
  then show ?thesis using finish_is_close_top [of p2 "top_sub lenb" True q] p1 p2 w
    by (simp add: build_message_def)
qed

section \<open>Reading back\<close>

lemma unat_ucast_u8_u32: "unat (ucast (x::u8) :: u32) = unat x"
  using unat_lt_256 [of x] by (simp add: unsigned_ucast_eq take_bit_nat_eq_self)

lemma net_2_nat: "unat (push_bit 8 (ucast (a :: u8)) OR ucast (b :: u8) :: u32) = be_nat [a, b]"
  using unat_or_push [of "ucast b :: u32" 8 "ucast a"] unat_lt_256 [of a] unat_lt_256 [of b]
  by (simp add: unat_ucast_u8_u32)

lemma net_3_nat:
  "unat (push_bit 16 (ucast (a :: u8)) OR push_bit 8 (ucast (b :: u8)) OR ucast (c :: u8) :: u64) = be_nat [a, b, c]"
proof -
  have bc: "unat (push_bit 8 (ucast b) OR ucast c :: u64) = unat b * 256 + unat c"
    using unat_or_push [of "ucast c :: u64" 8 "ucast b"] unat_lt_256 [of b] unat_lt_256 [of c]
    by (simp add: unat_ucast_u8_u64)
  have "unat b * 256 + unat c < 2 ^ 16" using unat_lt_256 [of b] unat_lt_256 [of c] by simp
  then have "unat (push_bit 16 (ucast a) OR (push_bit 8 (ucast b) OR ucast c) :: u64) =
      unat a * 2 ^ 16 + (unat b * 256 + unat c)"
    using unat_or_push [of "push_bit 8 (ucast b) OR ucast c :: u64" 16 "ucast a"] bc unat_lt_256 [of a]
    by (simp add: unat_ucast_u8_u64)
  then show ?thesis by (simp add: or.assoc)
qed

definition PACKET_get_length_prefixed :: "nat \<Rightarrow> PACKET \<Rightarrow> (PACKET \<times> PACKET) option" where
  "PACKET_get_length_prefixed n pkt =
     (if n = 1 then PACKET_get_length_prefixed_1 pkt
      else if n = 2 then PACKET_get_length_prefixed_2 pkt
      else if n = 3 then PACKET_get_length_prefixed_3 pkt else None)"

lemma length_prefixed_read:
  assumes "n \<in> {1, 2, 3}" "length xs < 256 ^ n"
  shows "PACKET_get_length_prefixed n (nat_be n (length xs) @ xs @ rest) = Some (xs, rest)"
proof -
  define l where "l = nat_be n (length xs)"
  have l: "length l = n" "be_nat l = length xs" using assms(2) by (simp_all add: l_def be_nat_nat_be)
  have b: "PACKET_get_bytes (xs @ rest) (length xs) = Some (xs, rest)" by (simp add: PACKET_get_bytes_def)
  consider "n = 1" | "n = 2" | "n = 3" using assms(1) by blast
  then have "PACKET_get_length_prefixed n (l @ xs @ rest) = Some (xs, rest)"
  proof cases
    case 1
    then obtain a where "l = [a]" using l by (auto simp: length_Suc_conv)
    then show ?thesis using l b 1
      by (simp add: PACKET_get_length_prefixed_def PACKET_get_length_prefixed_1_def PACKET_get_1_def)
  next
    case 2
    then obtain a c where "l = [a, c]" using l by (auto simp: length_Suc_conv numeral_eq_Suc)
    then show ?thesis using l b 2 net_2_nat [of a c]
      by (simp add: PACKET_get_length_prefixed_def PACKET_get_length_prefixed_2_def PACKET_get_net_2_def)
  next
    case 3
    then obtain a c d where "l = [a, c, d]" using l by (auto simp: length_Suc_conv numeral_eq_Suc)
    then show ?thesis using l b 3 net_3_nat [of a c d]
      by (simp add: PACKET_get_length_prefixed_def PACKET_get_length_prefixed_3_def PACKET_get_net_3_def)
  qed
  then show ?thesis by (simp add: l_def)
qed

lemma sub_memcpy_is_write: "WPACKET_sub_memcpy e p src lenb = write_doc e p (Sub lenb [Raw src])"
  by (simp add: WPACKET_sub_memcpy_def split: prod.splits bool.splits)

section \<open>Sequences of operations\<close>

text \<open>Everything a client may do with a writer between initialisation and \<^verbatim>\<open>WPACKET_finish\<close>, sub-packet flags
  included.\<close>

datatype wp_op =
    Memcpy bytes | Memset u8 nat | PutBytes u32 nat | StartSub nat | Close | SetFlags u32 | SetMaxSize nat
  | FillLengths | AllocateBytes nat | ReserveBytes nat

fun wp_apply :: "wp_env \<Rightarrow> WPACKET \<Rightarrow> wp_op \<Rightarrow> bool \<times> WPACKET" where
  "wp_apply e p (Memcpy xs) = WPACKET_memcpy e p xs"
| "wp_apply e p (Memset ch n) = WPACKET_memset e p ch n"
| "wp_apply e p (PutBytes v sz) = WPACKET_put_bytes e p v sz"
| "wp_apply e p (StartSub lenb) = WPACKET_start_sub_packet_len e p lenb"
| "wp_apply e p Close = WPACKET_close p"
| "wp_apply e p (SetFlags fl) = WPACKET_set_flags p fl"
| "wp_apply e p (SetMaxSize m) = WPACKET_set_max_size p m"
| "wp_apply e p FillLengths = WPACKET_fill_lengths p"
| "wp_apply e p (AllocateBytes n) = (case WPACKET_allocate_bytes e p n of (r, p) \<Rightarrow> (r \<noteq> None, p))"
| "wp_apply e p (ReserveBytes n) = (case WPACKET_reserve_bytes e p n of (r, p) \<Rightarrow> (r \<noteq> None, p))"

fun wp_run :: "wp_env \<Rightarrow> WPACKET \<Rightarrow> wp_op list \<Rightarrow> bool \<times> WPACKET" where
  "wp_run e p [] = (True, p)"
| "wp_run e p (x # xs) = (case wp_apply e p x of (False, p) \<Rightarrow> (False, p) | (True, p) \<Rightarrow> wp_run e p xs)"

text \<open>The maximum size set on a writer over a static array must not exceed the array, which
  \<^verbatim>\<open>WPACKET_set_max_size\<close> leaves to its callers.\<close>

abbreviation static_len :: "WPACKET \<Rightarrow> nat option" where
  "static_len p \<equiv> map_option length (staticbuf p)"

fun fits_static :: "nat option \<Rightarrow> wp_op \<Rightarrow> bool" where
  "fits_static (Some l) (SetMaxSize m) = (m \<le> l)"
| "fits_static _ _ = True"

lemma wp_inv_subs: "wp_inv p \<Longrightarrow> subs_ok (written p) ss \<Longrightarrow> wp_inv (p\<lparr>subs := ss\<rparr>)"
  by (simp add: wp_inv_def)

lemma subs_ok_mem:
  "subs_ok w ss \<Longrightarrow> s \<in> set ss \<Longrightarrow> pwritten s \<le> w \<and> (0 < lenbytes s \<longrightarrow> packet_len s + lenbytes s = pwritten s)"
proof (induction ss arbitrary: w)
  case (Cons a ss)
  then show ?case using subs_ok_mono [of "pwritten a - lenbytes a" ss w] by auto
qed simp

lemma put_length_inv:
  assumes "wp_inv p" "packet_len s + lenbytes s \<le> written p"
    "put_value (GETBUF p) (packet_len s) v (lenbytes s) = (r, data)"
  shows "wp_inv (SETBUF data p)"
proof -
  have "packet_len s + lenbytes s \<le> length (GETBUF p)" using assms(1,2) by (simp add: wp_inv_def)
  with put_value_eq [OF this, of v] assms(3) have "length data = length (GETBUF p)" by auto
  with assms(1) show ?thesis by (rule wp_inv_SETBUF)
qed

lemma close_top_inv:
  assumes inv: "wp_inv p" and r: "close_top p = (True, q)"
  shows "wp_inv q"
proof -
  obtain s ss where s: "subs p = s # ss" using r by (cases "subs p") (auto simp: close_top_def)
  obtain p' s' where c: "wpacket_intern_close p s True = (True, p', s')" "q = p'\<lparr>subs := ss\<rparr>"
    using r s by (auto simp: close_top_def split: prod.splits bool.splits)
  have so: "lenbytes s \<le> pwritten s" "pwritten s \<le> written p" "0 < lenbytes s \<longrightarrow> packet_len s + lenbytes s = pwritten s"
    "subs_ok (pwritten s - lenbytes s) ss"
    using inv s by (auto simp: wp_inv_def)
  show ?thesis
  proof (cases "written p = pwritten s \<and> has_flag (sub_flags s) WPACKET_FLAGS_ABANDON_ON_ZERO_LENGTH")
    case True
    then have "p' = fst (abandon_sub p s)"
      using c(1) by (auto simp: wpacket_intern_close_def size_sub_def abandon_sub_def Let_def split: if_splits)
    then show ?thesis using c(2) so True inv
      by (auto simp: abandon_sub_def size_sub_def wp_inv_def split: if_splits)
  next
    case False
    then have "p' = p \<or> (\<exists>r data. 0 < lenbytes s \<and>
        put_value (GETBUF p) (packet_len s) (written p - pwritten s) (lenbytes s) = (r, data) \<and> p' = SETBUF data p)"
      using c(1) so by (auto simp: wpacket_intern_close_def size_sub_def Let_def split: if_splits prod.splits)
    then have "wp_inv p' \<and> written p' = written p" using put_length_inv [OF inv, of s] inv so by fastforce
    moreover have "subs_ok (written p) ss" using so by (auto intro: subs_ok_mono)
    ultimately show ?thesis using c(2) by (auto intro: wp_inv_subs)
  qed
qed

lemma fill_lengths_inv:
  assumes "fill_lengths_loop p ss = (True, q)" "wp_inv p"
    "\<forall>s\<in>set ss. pwritten s \<le> written p \<and> (0 < lenbytes s \<longrightarrow> packet_len s + lenbytes s = pwritten s)"
  shows "wp_inv q"
  using assms
proof (induction p ss rule: fill_lengths_loop.induct)
  case (2 p s ss)
  obtain p' s' where c: "wpacket_intern_close p s False = (True, p', s')" "fill_lengths_loop p' ss = (True, q)"
    using 2(2) by (auto split: prod.splits bool.splits)
  have "p' = p \<or> (\<exists>r data v. 0 < lenbytes s \<and>
      put_value (GETBUF p) (packet_len s) v (lenbytes s) = (r, data) \<and> p' = SETBUF data p)"
    using c(1) by (auto simp: wpacket_intern_close_def Let_def split: if_splits prod.splits)
  then have "wp_inv p' \<and> written p' = written p" using put_length_inv [OF 2(3), of s] 2(3,4) by fastforce
  then show ?case using 2(1) [OF c(1) [symmetric]] c(2) 2(4) by auto
qed simp

lemma reserve_inv:
  assumes "wp_inv p" "WPACKET_reserve_bytes e p len = (Some a, q)"
  shows "wp_inv q"
proof -
  note r = reserve_success [OF assms]
  then obtain b where "q = p \<or> q = p\<lparr>buf := Some b\<rparr>" by blast
  then have "curr q = curr p" "written q = written p" "maxsize q = maxsize p" "subs q = subs p" by auto
  moreover have "written p \<le> length (GETBUF q)" "storage_ok q" using r by simp_all
  ultimately show ?thesis using assms(1) by (simp add: wp_inv_def)
qed

lemma set_max_size_inv:
  assumes "wp_inv p" "fits_static (static_len p) (SetMaxSize m)" "WPACKET_set_max_size p m = (True, q)"
  shows "wp_inv q"
proof -
  define l where "l = (if lenbytes (last (subs p)) = 0 then 8 else lenbytes (last (subs p)))"
  have q: "q = p\<lparr>maxsize := m\<rparr>" "m \<le> maxmaxsize l" "written p \<le> m"
    using assms(3) unfolding WPACKET_set_max_size_def Let_def l_def [symmetric] by (simp_all split: if_splits)
  have "m < 2 ^ 64" using q(2) maxmaxsize_bound [of l] by (rule le_less_trans)
  moreover have "storage_ok (p\<lparr>maxsize := m\<rparr>)"
    using assms(1,2) by (auto simp: wp_inv_def storage_ok_def split: option.splits)
  ultimately show ?thesis using assms(1) q unfolding wp_inv_def by simp
qed

lemma wp_apply_inv:
  assumes "wp_inv p" "fits_static (static_len p) x" "wp_apply e p x = (True, q)"
  shows "wp_inv q"
proof (cases x)
  case (Memcpy xs)
  then show ?thesis using assms memcpy_success [of p e xs q] by simp
next
  case (Memset ch n)
  then show ?thesis using assms memset_success [of p e ch n q] by simp
next
  case (PutBytes v sz)
  then show ?thesis using assms put_bytes_success [of p e v sz q] by simp
next
  case (StartSub lenb)
  then show ?thesis using assms start_sub_success [of p e lenb q] by simp
next
  case Close
  then show ?thesis using assms close_top_inv [of p q] by (simp add: WPACKET_close_def split: list.splits)
next
  case (SetFlags fl)
  then show ?thesis using assms
    by (auto simp: WPACKET_set_flags_def wp_inv_def split: list.splits)
next
  case (SetMaxSize m)
  then show ?thesis using assms set_max_size_inv [of p m q] by simp
next
  case FillLengths
  then show ?thesis using assms fill_lengths_inv [of p "subs p" q] subs_ok_mem [of "written p" "subs p"]
    by (simp add: WPACKET_fill_lengths_def wp_inv_def split: if_splits)
next
  case (AllocateBytes n)
  then obtain a where "WPACKET_allocate_bytes e p n = (Some a, q)" using assms by (auto split: prod.splits)
  from allocate_success [OF assms(1) this] show ?thesis by simp
next
  case (ReserveBytes n)
  then obtain a where "WPACKET_reserve_bytes e p n = (Some a, q)" using assms by (auto split: prod.splits)
  from reserve_inv [OF assms(1) this] show ?thesis .
qed

text \<open>No operation replaces or resizes a static array.\<close>

lemma static_SETBUF: "length xs = length (GETBUF p) \<Longrightarrow> static_len (SETBUF xs p) = static_len p"
  by (auto simp: SETBUF_def GETBUF_def split: option.splits)

lemma length_put_value: "put_value data off v len = (r, data') \<Longrightarrow> length data' = length data"
  by (induction len arbitrary: data v) auto

lemma static_store:
  assumes "wp_inv p" "off + length xs = written p"
  shows "static_len (store_bytes p off xs) = static_len p"
proof -
  have "off + length xs \<le> length (GETBUF p)" using assms by (simp add: wp_inv_def)
  then show ?thesis unfolding store_bytes_def by (intro static_SETBUF) simp
qed

lemma static_intern_close:
  assumes "wpacket_intern_close p s dc = (r, q, t)" shows "static_len q = static_len p"
proof -
  have a: "static_len (fst (abandon_sub p s)) = static_len p" by (simp add: abandon_sub_def)
  show ?thesis using assms a
    by (auto simp: wpacket_intern_close_def Let_def static_SETBUF dest!: length_put_value
        split: if_splits prod.splits)
qed

lemma static_fill: "fill_lengths_loop p ss = (r, q) \<Longrightarrow> static_len q = static_len p"
  by (induction p ss rule: fill_lengths_loop.induct)
    (auto split: prod.splits bool.splits dest!: static_intern_close)

lemma static_memcpy:
  assumes "wp_inv p" "WPACKET_memcpy e p xs = (True, q)" shows "static_len q = static_len p"
proof (cases "xs = []")
  case False
  then obtain a p1 where p1: "WPACKET_allocate_bytes e p (length xs) = (Some a, p1)" "q = store_bytes p1 a xs"
    using assms(2) by (auto simp: WPACKET_memcpy_def split: prod.splits option.splits)
  then show ?thesis using allocate_success [OF assms(1) p1(1)] static_store [of p1 a xs] staticbuf_allocate [OF p1(1)]
    by simp
qed (use assms in \<open>simp add: WPACKET_memcpy_def\<close>)

lemma static_memset:
  assumes "wp_inv p" "WPACKET_memset e p ch n = (True, q)" shows "static_len q = static_len p"
proof (cases "n = 0")
  case False
  then obtain a p1 where p1: "WPACKET_allocate_bytes e p n = (Some a, p1)" "q = store_bytes p1 a (replicate n ch)"
    using assms(2) by (auto simp: WPACKET_memset_def split: prod.splits option.splits)
  then show ?thesis using allocate_success [OF assms(1) p1(1)] static_store [of p1 a "replicate n ch"]
      staticbuf_allocate [OF p1(1)] by simp
qed (use assms in \<open>simp add: WPACKET_memset_def\<close>)

lemma static_put_bytes: "WPACKET_put_bytes e p v sz = (True, q) \<Longrightarrow> static_len q = static_len p"
  by (auto simp: WPACKET_put_bytes_def static_SETBUF dest!: length_put_value dest: staticbuf_allocate
      split: if_splits prod.splits option.splits)

lemma static_close: "WPACKET_close p = (r, q) \<Longrightarrow> static_len q = static_len p"
  by (auto simp: WPACKET_close_def close_top_def split: list.splits prod.splits bool.splits dest!: static_intern_close)

lemma wp_apply_static:
  assumes "wp_inv p" "wp_apply e p x = (True, q)" shows "static_len q = static_len p"
proof (cases x)
  case (Memcpy xs)
  then show ?thesis using assms static_memcpy [of p e xs q] by simp
next
  case (Memset ch n)
  then show ?thesis using assms static_memset [of p e ch n q] by simp
next
  case (PutBytes v sz)
  then show ?thesis using assms static_put_bytes [of e p v sz q] by simp
next
  case (StartSub lenb)
  then show ?thesis using assms staticbuf_start_sub [of e p lenb True q] by simp
next
  case Close
  then show ?thesis using assms static_close [of p True q] by simp
next
  case (SetFlags fl)
  then show ?thesis using assms by (auto simp: WPACKET_set_flags_def split: list.splits)
next
  case (SetMaxSize m)
  then show ?thesis using assms by (auto simp: WPACKET_set_max_size_def Let_def split: if_splits)
next
  case FillLengths
  then show ?thesis using assms static_fill [of p "subs p" True q] by (simp add: WPACKET_fill_lengths_def split: if_splits)
next
  case (AllocateBytes n)
  then show ?thesis using assms by (auto split: prod.splits dest: staticbuf_allocate)
next
  case (ReserveBytes n)
  then show ?thesis using assms by (auto split: prod.splits dest: staticbuf_reserve)
qed

lemma wp_run_inv:
  "wp_inv p \<Longrightarrow> \<forall>x \<in> set xs. fits_static (static_len p) x \<Longrightarrow> wp_run e p xs = (True, q) \<Longrightarrow>
    wp_inv q \<and> static_len q = static_len p"
proof (induction xs arbitrary: p)
  case (Cons x xs)
  obtain p' where p': "wp_apply e p x = (True, p')" "wp_run e p' xs = (True, q)"
    using Cons.prems(3) by (auto split: prod.splits bool.splits)
  then show ?case
    using Cons.IH [of p'] Cons.prems(2) wp_apply_inv [OF Cons.prems(1) _ p'(1)] wp_apply_static [OF Cons.prems(1) p'(1)]
    by simp
qed simp

section \<open>Properties\<close>

text \<open>
  C39. Memory safety of the writer: starting from a well-formed writer, as long as the operations
  succeed and \<^verbatim>\<open>WPACKET_set_max_size\<close> is never called on a writer over a static array with a size
  beyond that array, every sequence of copies, numbers, reservations, sub-packets with any flags,
  closings, length updates and changes of the maximum size keeps it well-formed: it has written no
  more than its maximum size and its buffer allow, all lengths yet to be filled in lie inside the
  bytes written, and a static array keeps its size.
\<close>

theorem wpacket_operations_keep_invariant:
  assumes "wp_inv p" "wp_run e p ops = (True, q)"
    and "\<And>m b. SetMaxSize m \<in> set ops \<Longrightarrow> staticbuf p = Some b \<Longrightarrow> m \<le> length b"
  shows "wp_inv q \<and> written q \<le> maxsize q \<and> written q \<le> length (GETBUF q)
    \<and> map_option length (staticbuf q) = map_option length (staticbuf p)"
proof -
  have "fits_static (static_len p) x" if "x \<in> set ops" for x
    using assms(3) that by (cases x; cases "staticbuf p") auto
  then show ?thesis using wp_run_inv [OF assms(1) _ assms(2)] by (simp add: wp_inv_def)
qed

text \<open>
  C36. What a builder writes is what it describes: when writing a structured message (raw bytes,
  numbers, nested sub-packets with their lengths in front) succeeds on a well-formed writer, the
  bytes written so far are followed by exactly its encoding, every number and length of it fits,
  the stack of open sub-packets is as before, and the writer stays well-formed (in particular it
  never writes past its buffer or its maximum size).
\<close>

theorem wpacket_write_correct:
  assumes "wp_inv p" "subs p \<noteq> []" "write_doc e p d = (True, q)"
  shows "wdata q = wdata p @ encode d \<and> fits d \<and> subs q = subs p \<and> wp_inv q"
  using write_doc_success(1) [OF assms] by simp

definition sample_wp_env :: wp_env where
  "sample_wp_env = \<lparr>buf_alloc = (\<lambda>_ _. True), sub_alloc = True\<rparr>"

definition sample_wpacket :: WPACKET where
  "sample_wpacket = \<lparr>buf = None, staticbuf = Some (replicate 8 0), curr = 0, written = 0, maxsize = 8,
     subs = [zero_sub]\<rparr>"

lemma sample_wpacket_inv: "wp_inv sample_wpacket" "subs sample_wpacket \<noteq> []"
  by (simp_all add: sample_wpacket_def wp_inv_def storage_ok_def GETBUF_def zero_sub_def)

lemma sample_wdata: "wdata sample_wpacket = []"
  by (simp add: wdata_def sample_wpacket_def)

lemma unat_small_u32: "unat (7 :: u32) = 7" "unat (255 :: u32) = 255" "unat (256 :: u32) = 256"
  by simp_all

lemma sample_encoded: "encode (Sub 2 [Num 1 7, Raw [8, 9]]) = [0, 3, 7, 8, 9]"
  by code_simp

lemma sample_write:
  "fst (write_doc sample_wp_env sample_wpacket (Sub 2 [Num 1 7, Raw [8, 9]]))"
  by (rule write_doc_succeeds(1) [OF sample_wpacket_inv])
    (simp_all add: memory_available_def sample_wp_env_def room_def sample_wpacket_def)

theorem wpacket_operations_keep_invariant_witness:
  "wp_inv (snd (wp_run sample_wp_env sample_wpacket [StartSub 1, SetFlags 2, Close, SetMaxSize 5]))"
proof -
  have "fst (wp_run sample_wp_env sample_wpacket [StartSub 1, SetFlags 2, Close, SetMaxSize 5])"
    by (simp add: WPACKET_start_sub_packet_len_def WPACKET_allocate_bytes_def WPACKET_reserve_bytes_def
        WPACKET_get_curr_def WPACKET_close_def close_top_def wpacket_intern_close_def abandon_sub_def size_sub_def
        size_add_def has_flag_def zero_sub_def WPACKET_set_flags_def WPACKET_set_max_size_def maxmaxsize_def
        sample_wpacket_def sample_wp_env_def Let_def)
  then obtain q where q: "wp_run sample_wp_env sample_wpacket [StartSub 1, SetFlags 2, Close, SetMaxSize 5] = (True, q)"
    by (metis prod.collapse)
  have "wp_inv q"
    by (rule wpacket_operations_keep_invariant [OF sample_wpacket_inv(1) q, THEN conjunct1]) (auto simp: sample_wpacket_def)
  then show ?thesis by (simp only: q snd_conv)
qed

text \<open>
  C40. That condition is not checked: on every well-formed writer over a static array,
  \<^verbatim>\<open>WPACKET_set_max_size\<close> accepts every size its length field can hold and that is not below what is
  written, however small the array is, and \<^verbatim>\<open>WPACKET_allocate_bytes\<close> then hands out any number of
  bytes up to that size, although they reach past the end of the array, which stays as it is.
\<close>

theorem wpacket_static_max_size_unchecked:
  assumes "wp_inv p" "subs p \<noteq> []" "staticbuf p = Some b"
    and "m \<le> maxmaxsize (if lenbytes (last (subs p)) = 0 then 8 else lenbytes (last (subs p)))"
    and "length b < written p + n" "written p + n \<le> m"
  shows "\<exists>q r. WPACKET_set_max_size p m = (True, q) \<and> WPACKET_allocate_bytes e q n = (Some (written p), r)
    \<and> staticbuf r = Some b \<and> written r = written p + n \<and> length (GETBUF r) < written r \<and> \<not> wp_inv r"
proof -
  have w: "curr p = written p" "written p \<le> length b" using assms(1,3) by (auto simp: wp_inv_def GETBUF_def)
  have set: "WPACKET_set_max_size p m = (True, p\<lparr>maxsize := m\<rparr>)"
    using assms(2,4,6) by (simp add: WPACKET_set_max_size_def Let_def)
  have "n \<noteq> 0" using assms(5) w(2) by simp
  then have "WPACKET_allocate_bytes e (p\<lparr>maxsize := m\<rparr>) n =
      (Some (written p), p\<lparr>maxsize := m, written := written p + n, curr := written p + n\<rparr>)"
    using assms(2,3,6) w(1)
    by (simp add: WPACKET_allocate_bytes_def WPACKET_reserve_bytes_def WPACKET_get_curr_def size_sub_def)
  then show ?thesis using set assms(3,5) by (simp add: wp_inv_def GETBUF_def)
qed

theorem wpacket_static_max_size_unchecked_witness:
  "\<exists>q r. WPACKET_set_max_size sample_wpacket 100 = (True, q) \<and>
     WPACKET_allocate_bytes sample_wp_env q 50 = (Some 0, r) \<and>
     length (GETBUF r) < 50 \<and> written r = 50"
  using wpacket_static_max_size_unchecked [OF sample_wpacket_inv, of "replicate 8 0" 100 50 sample_wp_env]
  by (auto simp: sample_wpacket_def zero_sub_def maxmaxsize_def)

theorem wpacket_write_correct_witness:
  "wdata (snd (write_doc sample_wp_env sample_wpacket (Sub 2 [Num 1 7, Raw [8, 9]]))) = [0, 3, 7, 8, 9]"
  using wpacket_write_correct [OF sample_wpacket_inv, of sample_wp_env "Sub 2 [Num 1 7, Raw [8, 9]]"
      "snd (write_doc sample_wp_env sample_wpacket (Sub 2 [Num 1 7, Raw [8, 9]]))"] sample_write
  by (cases "write_doc sample_wp_env sample_wpacket (Sub 2 [Num 1 7, Raw [8, 9]])")
    (simp only: sample_wdata sample_encoded fst_conv snd_conv append_Nil simp_thms)

text \<open>
  C37. Building a message from initialisation to \<^verbatim>\<open>WPACKET_finish\<close> in a growable buffer, with memory
  available and the message below the buffer's limit: it succeeds exactly when every number and
  every length fits its field, and then the buffer holds exactly the encoded message.
\<close>

theorem wpacket_message_built:
  assumes "buf_inv b" "memory_available e" "lenb < 8"
    "2 * (lenb + length (encodes ds)) \<le> LIMIT_BEFORE_EXPANSION"
  shows "case build_message e p b lenb ds of (r, q) \<Rightarrow>
    r = fits (Sub lenb ds) \<and> (r \<longrightarrow> wdata q = encode (Sub lenb ds))"
proof (cases "build_message e p b lenb ds")
  case (Pair r q)
  have "r \<Longrightarrow> wdata q = encode (Sub lenb ds) \<and> fits (Sub lenb ds)"
    using build_message_success [OF assms(1), of e p lenb ds q] Pair
    by (simp del: encode.simps fits.simps)
  moreover have "fits (Sub lenb ds) \<Longrightarrow> r"
    using build_message_succeeds [OF assms(1-3) _ assms(4), of p] Pair by simp
  ultimately show ?thesis unfolding Pair prod.case by blast
qed

theorem wpacket_message_built_witness:
  "\<not> fst (build_message sample_wp_env sample_wpacket \<lparr>buf_data = [], buf_max = 0, buf_flags = 0\<rparr> 2 [Num 1 256])
   \<and> fst (build_message sample_wp_env sample_wpacket \<lparr>buf_data = [], buf_max = 0, buf_flags = 0\<rparr> 2 [Num 1 255])"
  using wpacket_message_built [of "\<lparr>buf_data = [], buf_max = 0, buf_flags = 0\<rparr>" sample_wp_env 2 "[Num 1 256]" sample_wpacket]
    wpacket_message_built [of "\<lparr>buf_data = [], buf_max = 0, buf_flags = 0\<rparr>" sample_wp_env 2 "[Num 1 255]" sample_wpacket]
  by (simp add: buf_inv_def memory_available_def sample_wp_env_def LIMIT_BEFORE_EXPANSION_def split: prod.splits)

text \<open>
  C38. Round trip of length-prefixed vectors: what \<^verbatim>\<open>WPACKET_sub_memcpy\<close> wrote with a length of one, two or
  three bytes, \<^verbatim>\<open>PACKET_get_length_prefixed\<close> of the same width reads back, with nothing left over.
\<close>

theorem wpacket_length_prefixed_roundtrip:
  assumes "wp_inv p" "subs p \<noteq> []" "n \<in> {1, 2, 3}" "WPACKET_sub_memcpy e p src n = (True, q)"
  shows "PACKET_get_length_prefixed n (drop (written p) (wdata q)) = Some (src, [])"
proof -
  have w: "wdata q = wdata p @ nat_be n (length src) @ src" "length src < 256 ^ n"
    using write_doc_success(1) [of p e "Sub n [Raw src]" q] assms by (auto simp: sub_memcpy_is_write)
  then show ?thesis
    using length_prefixed_read [OF assms(3) w(2), of "[]"] length_wdata [OF assms(1)] by simp
qed

theorem wpacket_length_prefixed_roundtrip_witness:
  "PACKET_get_length_prefixed 2 (drop 0 (wdata (snd (WPACKET_sub_memcpy sample_wp_env sample_wpacket [5, 6] 2)))) = Some ([5, 6], [])"
proof -
  have "fst (WPACKET_sub_memcpy sample_wp_env sample_wpacket [5, 6] 2)"
    unfolding sub_memcpy_is_write
    by (rule write_doc_succeeds(1) [OF sample_wpacket_inv])
      (simp_all add: memory_available_def sample_wp_env_def room_def sample_wpacket_def)
  moreover have "written sample_wpacket = 0" by (simp add: sample_wpacket_def)
  ultimately show ?thesis
    using wpacket_length_prefixed_roundtrip [OF sample_wpacket_inv, of 2 sample_wp_env "[5, 6]"
      "snd (WPACKET_sub_memcpy sample_wp_env sample_wpacket [5, 6] 2)"]
    by (cases "WPACKET_sub_memcpy sample_wp_env sample_wpacket [5, 6] 2") simp
qed

end
