(* ===== verification/LHash.thy ===== *)
theory LHash
  imports Prelude "HOL-Library.Multiset"
begin

text \<open>
  The linear hash table of \<^verbatim>\<open>crypto/lhash/lhash.c\<close>: an array of chains that grows and shrinks by one
  bucket at a time. A chain is the list of its nodes, and a position in it stands for the pointer that
  \<^verbatim>\<open>getrn\<close> returns. The comparison and hash functions are fields of the table, as in the source.
  Success of the three allocations (a node, growing and shrinking the array) comes from the
  environment \<open>lh_env\<close>. The sizes \<^verbatim>\<open>num_nodes\<close>, \<^verbatim>\<open>num_alloc_nodes\<close>, \<^verbatim>\<open>p\<close> and \<^verbatim>\<open>pmax\<close> are \<^verbatim>\<open>unsigned int\<close>:
  they are numbers, and \<open>uint32\<close> reduces every sum, product and cast that C computes in 32 bits.
  \<^verbatim>\<open>OPENSSL_realloc\<close> to size 0, which a wrapped size gives, frees the array and returns NULL: the
  array left behind is the empty list. The invariant bounds \<^verbatim>\<open>pmax\<close> by 2^29, below which nothing
  wraps and the \<^verbatim>\<open>(int)\<close> casts of bucket indices keep their value, and the refinement theorem
  bounds the number of insertions accordingly. The statistics counters and \<^verbatim>\<open>num_items\<close>
  (\<^verbatim>\<open>unsigned long\<close>, counting nodes in memory) are unbounded; \<^verbatim>\<open>num_hash_calls\<close>,
  \<^verbatim>\<open>num_comp_calls\<close> and \<^verbatim>\<open>num_hash_comps\<close>, which only the statistics printer reads, are left out.
\<close>

section \<open>Tables\<close>

record 'a lh_node =
  node_data :: 'a
  node_hash :: u64

record 'a lhash =
  lh_b :: "'a lh_node list list"
  lh_comp :: "'a \<Rightarrow> 'a \<Rightarrow> int"
  lh_hash :: "'a \<Rightarrow> u64"
  num_nodes :: nat
  num_alloc_nodes :: nat
  lh_p :: nat
  pmax :: nat
  up_load :: nat
  down_load :: nat
  num_items :: nat
  num_expands :: nat
  num_expand_reallocs :: nat
  num_contracts :: nat
  num_contract_reallocs :: nat
  num_insert :: nat
  num_replace :: nat
  num_delete :: nat
  num_no_delete :: nat
  num_retrieve :: nat
  num_retrieve_miss :: nat
  lh_error :: int

record lh_env =
  node_ok :: bool
  grow_ok :: bool
  shrink_ok :: bool

text \<open>Arithmetic and casts in \<^verbatim>\<open>unsigned int\<close>, and the size of a pointer.\<close>

definition uint32 :: "nat \<Rightarrow> nat" where "uint32 n = n mod 2 ^ 32"

abbreviation sizeof_node_ptr :: nat where "sizeof_node_ptr \<equiv> 8"

definition LH_LOAD_MULT :: nat where "LH_LOAD_MULT = 256"
definition MIN_NODES :: nat where "MIN_NODES = 16"
definition UP_LOAD :: nat where "UP_LOAD = 2 * LH_LOAD_MULT"
definition DOWN_LOAD :: nat where "DOWN_LOAD = LH_LOAD_MULT"

text \<open>Both functions are given: the defaults for \<^verbatim>\<open>NULL\<close> arguments, \<^verbatim>\<open>strcmp\<close> and
  \<^verbatim>\<open>OPENSSL_LH_strhash\<close>, are those of a table of strings. \<open>ok\<close> is the success of the two allocations.\<close>

definition OPENSSL_LH_new :: "bool \<Rightarrow> ('a \<Rightarrow> u64) \<Rightarrow> ('a \<Rightarrow> 'a \<Rightarrow> int) \<Rightarrow> 'a lhash option" where
  "OPENSSL_LH_new ok h c =
     (if \<not> ok then None
      else Some \<lparr>lh_b = replicate MIN_NODES [], lh_comp = c, lh_hash = h, num_nodes = MIN_NODES div 2,
        num_alloc_nodes = MIN_NODES, lh_p = 0, pmax = MIN_NODES div 2, up_load = UP_LOAD, down_load = DOWN_LOAD,
        num_items = 0, num_expands = 0, num_expand_reallocs = 0, num_contracts = 0, num_contract_reallocs = 0,
        num_insert = 0, num_replace = 0, num_delete = 0, num_no_delete = 0, num_retrieve = 0,
        num_retrieve_miss = 0, lh_error = 0\<rparr>)"

text \<open>Moving the nodes of the chain being split: kept nodes stay in order, moved ones are pushed onto
  the new chain.\<close>

fun split_chain :: "nat \<Rightarrow> nat \<Rightarrow> 'a lh_node list \<Rightarrow> 'a lh_node list \<Rightarrow> 'a lh_node list \<times> 'a lh_node list" where
  "split_chain nni q [] moved = ([], moved)"
| "split_chain nni q (np # ns) moved =
     (if unat (node_hash np) mod nni \<noteq> q then split_chain nni q ns (np # moved)
      else case split_chain nni q ns moved of (kept, moved) \<Rightarrow> (np # kept, moved))"

text \<open>Growing by one bucket. The doubled size is 0 where it wraps (a size of 2^31), and the
  reallocation then frees the array.\<close>

definition expand :: "lh_env \<Rightarrow> 'a lhash \<Rightarrow> bool \<times> 'a lhash" where
  "expand e lh =
     (let nni = num_alloc_nodes lh; q = lh_p lh; qmax = pmax lh;
          full = uint32 (q + 1) \<ge> qmax; j = uint32 (nni * 2) in
      if full \<and> j = 0 then (False, lh\<lparr>lh_b := [], lh_error := lh_error lh + 1\<rparr>)
      else if full \<and> \<not> grow_ok e then (False, lh\<lparr>lh_error := lh_error lh + 1\<rparr>)
      else
        let lh = (if full
                  then lh\<lparr>lh_b := take j (lh_b lh) @ replicate (j - nni) [], pmax := nni, num_alloc_nodes := j,
                          num_expand_reallocs := num_expand_reallocs lh + 1, lh_p := 0\<rparr>
                  else lh\<lparr>lh_p := uint32 (lh_p lh + 1)\<rparr>);
            lh = lh\<lparr>num_nodes := uint32 (num_nodes lh + 1), num_expands := num_expands lh + 1\<rparr> in
        (case split_chain nni q (lh_b lh ! q) [] of
           (kept, moved) \<Rightarrow> (True, lh\<lparr>lh_b := (lh_b lh)[q := kept, uint32 (q + qmax) := moved]\<rparr>)))"

text \<open>Shrinking by one bucket. The size of the smaller array is cast to \<^verbatim>\<open>unsigned int\<close>: the array
  keeps only as many cells as the reduced size holds.\<close>

definition contract :: "lh_env \<Rightarrow> 'a lhash \<Rightarrow> 'a lhash" where
  "contract e lh =
     (let top = uint32 (lh_p lh + pmax lh - 1);
          np = lh_b lh ! top;
          lh = lh\<lparr>lh_b := (lh_b lh)[top := []]\<rparr>;
          bytes = uint32 (sizeof_node_ptr * pmax lh) in
      if lh_p lh = 0 \<and> bytes = 0 then lh\<lparr>lh_b := [], lh_error := lh_error lh + 1\<rparr>
      else if lh_p lh = 0 \<and> \<not> shrink_ok e then lh\<lparr>lh_error := lh_error lh + 1\<rparr>
      else
        let lh = (if lh_p lh = 0
                  then lh\<lparr>num_contract_reallocs := num_contract_reallocs lh + 1,
                          lh_b := take (bytes div sizeof_node_ptr) (lh_b lh),
                          num_alloc_nodes := num_alloc_nodes lh div 2, lh_p := pmax lh div 2 - 1, pmax := pmax lh div 2\<rparr>
                  else lh\<lparr>lh_p := lh_p lh - 1\<rparr>);
            lh = lh\<lparr>num_nodes := num_nodes lh - 1, num_contracts := num_contracts lh + 1\<rparr> in
        lh\<lparr>lh_b := (lh_b lh)[lh_p lh := lh_b lh ! lh_p lh @ np]\<rparr>)"

text \<open>The bucket of a hash value, and the position of a key in its chain (the end if it is not there).\<close>

definition bucket_of :: "'a lhash \<Rightarrow> u64 \<Rightarrow> nat" where
  "bucket_of lh h =
     (let nn = unat h mod pmax lh in
      if nn < lh_p lh then unat h mod num_alloc_nodes lh else nn)"

fun chain_pos :: "('a \<Rightarrow> 'a \<Rightarrow> int) \<Rightarrow> u64 \<Rightarrow> 'a \<Rightarrow> 'a lh_node list \<Rightarrow> nat" where
  "chain_pos cf h data [] = 0"
| "chain_pos cf h data (n1 # ns) =
     (if node_hash n1 \<noteq> h then Suc (chain_pos cf h data ns)
      else if cf (node_data n1) data = 0 then 0
      else Suc (chain_pos cf h data ns))"

definition getrn :: "'a lhash \<Rightarrow> 'a \<Rightarrow> nat \<times> nat \<times> u64" where
  "getrn lh data =
     (let h = lh_hash lh data; nn = bucket_of lh h in
      (nn, chain_pos (lh_comp lh) h data (lh_b lh ! nn), h))"

text \<open>The step that stores an entry once the table is large enough.\<close>

definition store :: "lh_env \<Rightarrow> 'a lhash \<Rightarrow> 'a \<Rightarrow> 'a option \<times> 'a lhash" where
  "store e lh data =
     (case getrn lh data of
        (nn, i, h) \<Rightarrow>
          let chain = lh_b lh ! nn in
          if i = length chain then
            (if \<not> node_ok e then (None, lh\<lparr>lh_error := lh_error lh + 1\<rparr>)
             else (None, lh\<lparr>lh_b := (lh_b lh)[nn := chain @ [\<lparr>node_data = data, node_hash = h\<rparr>]],
                            num_insert := num_insert lh + 1, num_items := num_items lh + 1\<rparr>))
          else (Some (node_data (chain ! i)),
                lh\<lparr>lh_b := (lh_b lh)[nn := chain[i := (chain ! i)\<lparr>node_data := data\<rparr>]],
                   num_replace := num_replace lh + 1\<rparr>))"

definition OPENSSL_LH_insert :: "lh_env \<Rightarrow> 'a lhash \<Rightarrow> 'a \<Rightarrow> 'a option \<times> 'a lhash" where
  "OPENSSL_LH_insert e lh data =
     (let lh = lh\<lparr>lh_error := 0\<rparr> in
      case (if up_load lh \<le> num_items lh * LH_LOAD_MULT div num_nodes lh then expand e lh else (True, lh)) of
        (False, lh) \<Rightarrow> (None, lh)
      | (True, lh) \<Rightarrow> store e lh data)"

definition OPENSSL_LH_delete :: "lh_env \<Rightarrow> 'a lhash \<Rightarrow> 'a \<Rightarrow> 'a option \<times> 'a lhash" where
  "OPENSSL_LH_delete e lh data =
     (let lh = lh\<lparr>lh_error := 0\<rparr> in
      case getrn lh data of
        (nn, i, h) \<Rightarrow>
          let chain = lh_b lh ! nn in
          if i = length chain then (None, lh\<lparr>num_no_delete := num_no_delete lh + 1\<rparr>)
          else
            let ret = node_data (chain ! i);
                lh = lh\<lparr>lh_b := (lh_b lh)[nn := take i chain @ drop (Suc i) chain],
                        num_delete := num_delete lh + 1, num_items := num_items lh - 1\<rparr> in
            (Some ret,
             if num_nodes lh > MIN_NODES \<and> down_load lh \<ge> num_items lh * LH_LOAD_MULT div num_nodes lh
             then contract e lh else lh))"

definition OPENSSL_LH_retrieve :: "'a lhash \<Rightarrow> 'a \<Rightarrow> 'a option \<times> 'a lhash" where
  "OPENSSL_LH_retrieve lh data =
     (let lh = lh\<lparr>lh_error := 0\<rparr> in
      case getrn lh data of
        (nn, i, h) \<Rightarrow>
          let chain = lh_b lh ! nn in
          if i = length chain then (None, lh\<lparr>num_retrieve_miss := num_retrieve_miss lh + 1\<rparr>)
          else (Some (node_data (chain ! i)), lh\<lparr>num_retrieve := num_retrieve lh + 1\<rparr>))"

text \<open>Applying a function that leaves the table alone to all entries, top bucket first.\<close>

definition doall_util_fn :: "('a \<Rightarrow> 's \<Rightarrow> 's) \<Rightarrow> 'a lhash \<Rightarrow> 's \<Rightarrow> 's" where
  "doall_util_fn func lh s =
     fold (\<lambda>chain. fold (\<lambda>a. func (node_data a)) chain) (rev (take (num_nodes lh) (lh_b lh))) s"

definition OPENSSL_LH_doall :: "('a \<Rightarrow> 's \<Rightarrow> 's) \<Rightarrow> 'a lhash \<Rightarrow> 's \<Rightarrow> 's" where
  "OPENSSL_LH_doall func lh s = doall_util_fn func lh s"

definition OPENSSL_LH_doall_arg :: "('a \<Rightarrow> 'arg \<Rightarrow> 's \<Rightarrow> 's) \<Rightarrow> 'arg \<Rightarrow> 'a lhash \<Rightarrow> 's \<Rightarrow> 's" where
  "OPENSSL_LH_doall_arg func arg lh s = doall_util_fn (\<lambda>a. func a arg) lh s"

definition OPENSSL_LH_num_items :: "'a lhash option \<Rightarrow> nat" where
  "OPENSSL_LH_num_items lh = (case lh of Some lh \<Rightarrow> num_items lh | None \<Rightarrow> 0)"

definition OPENSSL_LH_get_down_load :: "'a lhash \<Rightarrow> nat" where
  "OPENSSL_LH_get_down_load lh = down_load lh"

definition OPENSSL_LH_set_down_load :: "'a lhash \<Rightarrow> nat \<Rightarrow> 'a lhash" where
  "OPENSSL_LH_set_down_load lh d = lh\<lparr>down_load := d\<rparr>"

definition OPENSSL_LH_error :: "'a lhash \<Rightarrow> int" where
  "OPENSSL_LH_error lh = lh_error lh"

section \<open>String hashes\<close>

text \<open>One round of the string hash. A \<^verbatim>\<open>char\<close> is signed, so it is sign-extended into \<open>v\<close>.\<close>

definition strhash_round :: "u64 \<Rightarrow> u64 \<Rightarrow> u64" where
  "strhash_round v ret =
     (let r = unat ((drop_bit 2 v XOR v) AND 0x0f);
          ret = push_bit r ret OR drop_bit (32 - r) ret;
          ret = ret AND 0xFFFFFFFF in
      ret XOR v * v)"

fun strhash_loop :: "bytes \<Rightarrow> u64 \<Rightarrow> u64 \<Rightarrow> u64" where
  "strhash_loop [] n ret = ret"
| "strhash_loop (c # cs) n ret =
     (if c = 0 then ret
      else strhash_loop cs (n + 0x100) (strhash_round (n OR scast c) ret))"

definition OPENSSL_LH_strhash :: "bytes option \<Rightarrow> u64" where
  "OPENSSL_LH_strhash c =
     (case c of
        None \<Rightarrow> 0
      | Some cs \<Rightarrow>
          if cs = [] \<or> hd cs = 0 then 0
          else let ret = strhash_loop cs 0x100 0 in drop_bit 16 ret XOR ret)"

definition ossl_tolower :: "u8 \<Rightarrow> u8" where
  "ossl_tolower c = (if 0x41 \<le> c \<and> c \<le> 0x5A then c XOR 0x20 else c)"

fun strcasehash_loop :: "bytes \<Rightarrow> u64 \<Rightarrow> u64 \<Rightarrow> u64" where
  "strcasehash_loop [] n ret = ret"
| "strcasehash_loop (c # cs) n ret =
     (if c = 0 then ret
      else strcasehash_loop cs (n + 0x100) (strhash_round (n OR scast (ossl_tolower c)) ret))"

definition openssl_lh_strcasehash :: "bytes option \<Rightarrow> u64" where
  "openssl_lh_strcasehash c =
     (case c of
        None \<Rightarrow> 0
      | Some cs \<Rightarrow>
          if cs = [] \<or> hd cs = 0 then 0
          else let ret = strcasehash_loop cs 0x100 0 in drop_bit 16 ret XOR ret)"

section \<open>Well-formed tables\<close>

definition all_nodes :: "'a lhash \<Rightarrow> 'a lh_node list" where
  "all_nodes lh = concat (lh_b lh)"

definition lh_items :: "'a lhash \<Rightarrow> 'a set" where
  "lh_items lh = node_data ` set (all_nodes lh)"

text \<open>What the table expects of its client: the comparison function is an equivalence in its zeros, and
  the hash function does not tell equal keys apart.\<close>

definition lh_client :: "('a \<Rightarrow> u64) \<Rightarrow> ('a \<Rightarrow> 'a \<Rightarrow> int) \<Rightarrow> bool" where
  "lh_client h c \<longleftrightarrow> (\<forall>x. c x x = 0) \<and> (\<forall>x y. c x y = 0 \<longrightarrow> c y x = 0)
     \<and> (\<forall>x y z. c x y = 0 \<longrightarrow> c y z = 0 \<longrightarrow> c x z = 0) \<and> (\<forall>x y. c x y = 0 \<longrightarrow> h x = h y)"

definition lh_shape :: "'a lhash \<Rightarrow> bool" where
  "lh_shape lh \<longleftrightarrow> (\<exists>k. pmax lh = 8 * 2 ^ k) \<and> pmax lh < 2 ^ 29 \<and> lh_p lh < pmax lh \<and> num_alloc_nodes lh = 2 * pmax lh
     \<and> length (lh_b lh) = num_alloc_nodes lh \<and> num_nodes lh = lh_p lh + pmax lh"

definition lh_placed :: "'a lhash \<Rightarrow> bool" where
  "lh_placed lh \<longleftrightarrow> (\<forall>i < length (lh_b lh). \<forall>n \<in> set (lh_b lh ! i).
     node_hash n = lh_hash lh (node_data n) \<and> bucket_of lh (node_hash n) = i)"

definition lh_unique :: "'a lhash \<Rightarrow> bool" where
  "lh_unique lh \<longleftrightarrow> (\<forall>i < length (lh_b lh). sorted_wrt (\<lambda>x y. lh_comp lh (node_data x) (node_data y) \<noteq> 0) (lh_b lh ! i))"

definition lh_inv :: "'a lhash \<Rightarrow> bool" where
  "lh_inv lh \<longleftrightarrow> lh_client (lh_hash lh) (lh_comp lh) \<and> lh_shape lh \<and> lh_placed lh \<and> lh_unique lh
     \<and> num_items lh = length (all_nodes lh)"

text \<open>Room for one more bucket: growing keeps \<^verbatim>\<open>pmax\<close> below its bound.\<close>

definition lh_room :: "'a lhash \<Rightarrow> bool" where
  "lh_room lh \<longleftrightarrow> num_nodes lh < 2 ^ 29 - 1"

lemma uint32_id [simp]: "n < 4294967296 \<Longrightarrow> uint32 n = n"
  by (simp add: uint32_def)

lemma uint32_le: "uint32 n \<le> n"
  by (simp add: uint32_def)

lemma pow_even: "pm = 8 * 2 ^ k \<Longrightarrow> 16 < pm \<Longrightarrow> \<exists>j. pm = 2 * (8 * 2 ^ j)" for pm :: nat
  by (cases k) auto

text \<open>The bucket function around a split: \<open>linear q qmax h\<close> addresses \<open>q\<close> split buckets out of \<open>qmax\<close>.\<close>

definition linear :: "nat \<Rightarrow> nat \<Rightarrow> nat \<Rightarrow> nat" where
  "linear q qmax h = (if h mod qmax < q then h mod (2 * qmax) else h mod qmax)"

lemma bucket_linear: "lh_shape lh \<Longrightarrow> bucket_of lh h = linear (lh_p lh) (pmax lh) (unat h)"
  by (simp add: bucket_of_def linear_def lh_shape_def Let_def)

lemma linear_wrap: "0 < qmax \<Longrightarrow> linear qmax qmax h = linear 0 (2 * qmax) h"
  by (simp add: linear_def)

lemma mod_double: "h mod (2 * m) = h mod m \<or> h mod (2 * m) = h mod m + m" for h m :: nat
  by (metis mod_mult2_eq mult.commute mult_0_right mult_1_right mod2_eq_if add.commute add_0)

lemma linear_Suc:
  assumes "q < qmax"
  shows "linear (Suc q) qmax h =
    (if linear q qmax h = q then (if h mod (2 * qmax) \<noteq> q then q + qmax else q) else linear q qmax h)"
  using assms mod_double [of h qmax] mod_less_divisor [of qmax h]
  by (auto simp: linear_def)

lemma linear_split:
  assumes "q < qmax"
  shows "linear q qmax h = q \<Longrightarrow> h mod (2 * qmax) = q \<Longrightarrow> linear (Suc q) qmax h = q"
    "linear q qmax h = q \<Longrightarrow> h mod (2 * qmax) \<noteq> q \<Longrightarrow> linear (Suc q) qmax h = q + qmax"
    "linear q qmax h \<noteq> q \<Longrightarrow> linear (Suc q) qmax h = linear q qmax h"
  using linear_Suc [OF assms, of h] by simp_all

lemma linear_bound:
  assumes "q < qmax"
  shows "linear q qmax h < q + qmax"
proof -
  have "h mod qmax < qmax" using assms by simp
  then show ?thesis using mod_double [of h qmax] by (auto simp: linear_def)
qed

section \<open>Splitting and joining chains\<close>

lemma split_chain_eq:
  "split_chain nni q ns moved =
    (filter (\<lambda>n. unat (node_hash n) mod nni = q) ns,
     rev (filter (\<lambda>n. unat (node_hash n) mod nni \<noteq> q) ns) @ moved)"
  by (induction nni q ns moved rule: split_chain.induct) auto

lemma mset_concat_update:
  "i < length xs \<Longrightarrow> mset (concat (xs[i := y])) + mset (xs ! i) = mset (concat xs) + mset y"
  by (induction xs arbitrary: i) (auto split: nat.split simp: ac_simps nth_Cons)

lemma mset_concat_move:
  assumes "i < length xs" "j < length xs" "i \<noteq> j" "xs ! j = []" "mset u + mset v = mset (xs ! i)"
  shows "mset (concat (xs[i := u, j := v])) = mset (concat xs)"
proof -
  have "mset (concat (xs[i := u, j := v])) + mset (xs[i := u] ! j) = mset (concat (xs[i := u])) + mset v"
    using assms(2) by (intro mset_concat_update) simp
  moreover have "mset (concat (xs[i := u])) + mset (xs ! i) = mset (concat xs) + mset u"
    using assms(1) by (rule mset_concat_update)
  ultimately have "mset (concat (xs[i := u, j := v])) + mset (xs ! i) = mset (concat xs) + (mset u + mset v)"
    using assms(3,4) by (simp add: ac_simps)
  then show ?thesis using assms(5) by simp
qed

lemma lh_clientD:
  assumes "lh_client h c"
  shows "c x x = 0" "c x y = 0 \<Longrightarrow> c y x = 0" "c x y = 0 \<Longrightarrow> c y z = 0 \<Longrightarrow> c x z = 0" "c x y = 0 \<Longrightarrow> h x = h y"
  using assms unfolding lh_client_def by blast+

text \<open>A table whose chains sit at the buckets that \<open>f\<close> assigns to their hash values.\<close>

definition chains_ok :: "('a \<Rightarrow> u64) \<Rightarrow> ('a \<Rightarrow> 'a \<Rightarrow> int) \<Rightarrow> (nat \<Rightarrow> nat) \<Rightarrow> 'a lh_node list list \<Rightarrow> bool" where
  "chains_ok h c f B \<longleftrightarrow> (\<forall>i < length B.
     (\<forall>n \<in> set (B ! i). node_hash n = h (node_data n) \<and> f (unat (node_hash n)) = i)
     \<and> sorted_wrt (\<lambda>x y. c (node_data x) (node_data y) \<noteq> 0) (B ! i))"

lemma chains_okD:
  assumes "chains_ok h c f B" "i < length B"
  shows "n \<in> set (B ! i) \<Longrightarrow> node_hash n = h (node_data n)" "n \<in> set (B ! i) \<Longrightarrow> f (unat (node_hash n)) = i"
    "sorted_wrt (\<lambda>x y. c (node_data x) (node_data y) \<noteq> 0) (B ! i)"
  using assms unfolding chains_ok_def by blast+

lemma lh_inv_chains:
  assumes "lh_shape lh"
  shows "lh_placed lh \<and> lh_unique lh \<longleftrightarrow>
    chains_ok (lh_hash lh) (lh_comp lh) (linear (lh_p lh) (pmax lh)) (lh_b lh)"
  using bucket_linear [OF assms] by (auto simp: lh_placed_def lh_unique_def chains_ok_def)

lemma chain_empty:
  assumes "chains_ok h c (linear q qmax) B" "q < qmax" "q + qmax \<le> i" "i < length B"
  shows "B ! i = []"
proof (rule ccontr)
  assume "B ! i \<noteq> []"
  then obtain n where "n \<in> set (B ! i)" by (cases "B ! i") auto
  then show False using chains_okD(2) [OF assms(1,4)] linear_bound [OF assms(2)] assms(3)
    by (metis linorder_not_less)
qed

lemma split_ok:
  assumes cl: "lh_client h c" and ok: "chains_ok h c (linear q qmax) B" and q: "q < qmax" "q + qmax < length B"
    and sp: "split_chain (2 * qmax) q (B ! q) [] = (kept, moved)"
  shows "chains_ok h c (linear (Suc q) qmax) (B[q := kept, q + qmax := moved])"
    "mset (concat (B[q := kept, q + qmax := moved])) = mset (concat B)"
proof -
  let ?P = "\<lambda>n. unat (node_hash n) mod (2 * qmax) = q"
  have km: "kept = filter ?P (B ! q)" "moved = rev (filter (\<lambda>n. \<not> ?P n) (B ! q))"
    using sp by (simp_all add: split_chain_eq)
  have qB: "q < length B" using q by simp
  have sb: "sorted_wrt (\<lambda>x y. c (node_data x) (node_data y) \<noteq> 0) (B ! q)" by (rule chains_okD(3) [OF ok qB])
  have "sorted_wrt (\<lambda>x y. c (node_data y) (node_data x) \<noteq> 0) (B ! q)"
    by (rule sorted_wrt_mono_rel [OF _ sb]) (use lh_clientD(2) [OF cl] in blast)
  then have sw: "sorted_wrt (\<lambda>x y. c (node_data x) (node_data y) \<noteq> 0) kept"
    "sorted_wrt (\<lambda>x y. c (node_data x) (node_data y) \<noteq> 0) moved"
    using sb by (simp_all add: km sorted_wrt_rev sorted_wrt_filter)
  show "chains_ok h c (linear (Suc q) qmax) (B[q := kept, q + qmax := moved])"
    unfolding chains_ok_def
  proof (intro allI impI)
    fix i assume i: "i < length (B[q := kept, q + qmax := moved])"
    consider "i = q" | "i = q + qmax" | "i \<noteq> q" "i \<noteq> q + qmax" by blast
    then show "(\<forall>n \<in> set (B[q := kept, q + qmax := moved] ! i). node_hash n = h (node_data n)
        \<and> linear (Suc q) qmax (unat (node_hash n)) = i)
      \<and> sorted_wrt (\<lambda>x y. c (node_data x) (node_data y) \<noteq> 0) (B[q := kept, q + qmax := moved] ! i)"
    proof cases
      case 1
      then have e: "B[q := kept, q + qmax := moved] ! i = kept" using q i by (simp add: nth_list_update)
      have "node_hash n = h (node_data n) \<and> linear (Suc q) qmax (unat (node_hash n)) = i" if "n \<in> set kept" for n
        using that chains_okD(1,2) [OF ok qB, of n] linear_split(1) [OF q(1), of "unat (node_hash n)"] 1 by (simp add: km)
      then show ?thesis unfolding e using sw(1) by blast
    next
      case 2
      then have e: "B[q := kept, q + qmax := moved] ! i = moved" using q i by simp
      have "node_hash n = h (node_data n) \<and> linear (Suc q) qmax (unat (node_hash n)) = i" if "n \<in> set moved" for n
        using that chains_okD(1,2) [OF ok qB, of n] linear_split(2) [OF q(1), of "unat (node_hash n)"] 2 by (simp add: km)
      then show ?thesis unfolding e using sw(2) by blast
    next
      case 3
      then have e: "B[q := kept, q + qmax := moved] ! i = B ! i" by simp
      have "i < length B" using i by simp
      note cd = chains_okD [OF ok this]
      have "node_hash n = h (node_data n) \<and> linear (Suc q) qmax (unat (node_hash n)) = i" if "n \<in> set (B ! i)" for n
        using cd(1,2) [OF that] linear_split(3) [OF q(1), of "unat (node_hash n)"] 3 by simp
      then show ?thesis unfolding e using cd(3) by blast
    qed
  qed
  have "mset kept + mset moved = mset (B ! q)" 
    using multiset_partition [of "mset (B ! q)" ?P] by (simp add: km)
  moreover have "B ! (q + qmax) = []" using chain_empty [OF ok q(1) _ q(2)] by simp
  ultimately show "mset (concat (B[q := kept, q + qmax := moved])) = mset (concat B)"
    using q qB by (intro mset_concat_move) auto
qed

lemma join_ok:
  assumes cl: "lh_client h c" and ok: "chains_ok h c (linear (Suc q) qmax) B" and q: "q < qmax" "q + qmax < length B"
  shows "chains_ok h c (linear q qmax) (B[q + qmax := [], q := B ! q @ B ! (q + qmax)])"
    "mset (concat (B[q + qmax := [], q := B ! q @ B ! (q + qmax)])) = mset (concat B)"
proof -
  let ?B = "B[q + qmax := [], q := B ! q @ B ! (q + qmax)]"
  have qB: "q < length B" using q by simp
  note cq = chains_okD [OF ok qB] and ct = chains_okD [OF ok q(2)]
  have lin: "linear q qmax x = (if linear (Suc q) qmax x = q + qmax then q else linear (Suc q) qmax x)" for x
    using linear_Suc [OF q(1), of x] linear_bound [OF q(1), of x] q(1) by auto
  have cross: "c (node_data x) (node_data y) \<noteq> 0" if "x \<in> set (B ! q)" "y \<in> set (B ! (q + qmax))" for x y
  proof
    assume "c (node_data x) (node_data y) = 0"
    then have "node_hash x = node_hash y" using lh_clientD(4) [OF cl] cq(1) [OF that(1)] ct(1) [OF that(2)] by simp
    then have "q = q + qmax" using cq(2) [OF that(1)] ct(2) [OF that(2)] by simp
    then show False using q by simp
  qed
  show "chains_ok h c (linear q qmax) ?B"
    unfolding chains_ok_def
  proof (intro allI impI)
    fix i assume i: "i < length ?B"
    consider "i = q" | "i = q + qmax" "i \<noteq> q" | "i \<noteq> q" "i \<noteq> q + qmax" by blast
    then show "(\<forall>n \<in> set (?B ! i). node_hash n = h (node_data n) \<and> linear q qmax (unat (node_hash n)) = i)
      \<and> sorted_wrt (\<lambda>x y. c (node_data x) (node_data y) \<noteq> 0) (?B ! i)"
    proof cases
      case 1
      then have e: "?B ! i = B ! q @ B ! (q + qmax)" using qB by simp
      have "node_hash n = h (node_data n) \<and> linear q qmax (unat (node_hash n)) = i"
        if "n \<in> set (B ! q @ B ! (q + qmax))" for n
        using that cq(1,2) [of n] ct(1,2) [of n] lin [of "unat (node_hash n)"] 1 by auto
      moreover have "sorted_wrt (\<lambda>x y. c (node_data x) (node_data y) \<noteq> 0) (B ! q @ B ! (q + qmax))"
        using cq(3) ct(3) cross by (simp add: sorted_wrt_append)
      ultimately show ?thesis unfolding e by blast
    next
      case 2
      then have e: "?B ! i = []" using q i by simp
      then show ?thesis by simp
    next
      case 3
      then have e: "?B ! i = B ! i" by simp
      have "i < length B" using i by simp
      note cd = chains_okD [OF ok this]
      have "node_hash n = h (node_data n) \<and> linear q qmax (unat (node_hash n)) = i" if "n \<in> set (B ! i)" for n
        using cd(1,2) [OF that] lin [of "unat (node_hash n)"] 3 by simp
      then show ?thesis unfolding e using cd(3) by blast
    qed
  qed
  have "mset (concat (B[q + qmax := []])) + mset (B ! (q + qmax)) = mset (concat B)"
    using mset_concat_update [OF q(2), of "[]"] by simp
  moreover have "mset (concat ?B) + mset (B[q + qmax := []] ! q) = mset (concat (B[q + qmax := []])) + mset (B ! q @ B ! (q + qmax))"
    using qB by (intro mset_concat_update) simp
  ultimately show "mset (concat ?B) = mset (concat B)" using q(1) by (simp add: ac_simps)
qed

lemma linear_Suc_wrap: "Suc q = qmax \<Longrightarrow> linear (Suc q) qmax = linear 0 (2 * qmax)"
  using linear_wrap [of qmax] by auto

lemma chains_ok_pad:
  assumes "chains_ok h c (linear q qmax) B"
  shows "chains_ok h c (linear q qmax) (B @ replicate n [])"
  unfolding chains_ok_def
proof (intro allI impI)
  fix i assume "i < length (B @ replicate n [])"
  show "(\<forall>x \<in> set ((B @ replicate n []) ! i). node_hash x = h (node_data x) \<and> linear q qmax (unat (node_hash x)) = i)
    \<and> sorted_wrt (\<lambda>x y. c (node_data x) (node_data y) \<noteq> 0) ((B @ replicate n []) ! i)"
  proof (cases "i < length B")
    case True
    then have e: "(B @ replicate n []) ! i = B ! i" by (simp add: nth_append)
    show ?thesis unfolding e using chains_okD [OF assms True] by blast
  next
    case False
    then have e: "(B @ replicate n []) ! i = []" using \<open>i < length (B @ replicate n [])\<close> by (simp add: nth_append)
    show ?thesis unfolding e by simp
  qed
qed

lemma chains_ok_take:
  assumes "chains_ok h c f B"
  shows "chains_ok h c f (take n B)"
  unfolding chains_ok_def
proof (intro allI impI)
  fix i assume "i < length (take n B)"
  then have e: "take n B ! i = B ! i" and "i < length B" by simp_all
  then show "(\<forall>x \<in> set (take n B ! i). node_hash x = h (node_data x) \<and> f (unat (node_hash x)) = i)
    \<and> sorted_wrt (\<lambda>x y. c (node_data x) (node_data y) \<noteq> 0) (take n B ! i)"
    unfolding e using chains_okD [OF assms] by blast
qed

text \<open>Growing by one bucket keeps the entries and the invariant.\<close>

definition same_settings :: "'a lhash \<Rightarrow> 'a lhash \<Rightarrow> bool" where
  "same_settings x y \<longleftrightarrow> lh_comp x = lh_comp y \<and> lh_hash x = lh_hash y \<and> num_items x = num_items y
     \<and> up_load x = up_load y \<and> down_load x = down_load y"

lemma lh_invI:
  assumes "lh_client (lh_hash lh) (lh_comp lh)" "lh_shape lh"
    "chains_ok (lh_hash lh) (lh_comp lh) (linear (lh_p lh) (pmax lh)) (lh_b lh)"
    "num_items lh = length (all_nodes lh)"
  shows "lh_inv lh"
  using assms lh_inv_chains [OF assms(2)] by (simp add: lh_inv_def)

lemma lh_invD:
  assumes "lh_inv lh"
  shows "lh_client (lh_hash lh) (lh_comp lh)" "lh_shape lh"
    "chains_ok (lh_hash lh) (lh_comp lh) (linear (lh_p lh) (pmax lh)) (lh_b lh)"
    "num_items lh = length (all_nodes lh)"
proof -
  show sh: "lh_shape lh" using assms by (simp add: lh_inv_def)
  show "chains_ok (lh_hash lh) (lh_comp lh) (linear (lh_p lh) (pmax lh)) (lh_b lh)"
    using assms lh_inv_chains [OF sh] by (simp add: lh_inv_def)
qed (use assms in \<open>simp_all add: lh_inv_def\<close>)

lemma lh_inv_cong:
  assumes "lh_inv lh" "lh_b lh' = lh_b lh" "lh_comp lh' = lh_comp lh" "lh_hash lh' = lh_hash lh"
    "num_nodes lh' = num_nodes lh" "num_alloc_nodes lh' = num_alloc_nodes lh" "lh_p lh' = lh_p lh"
    "pmax lh' = pmax lh" "num_items lh' = num_items lh"
  shows "lh_inv lh'"
  using lh_invD [OF assms(1)] by (intro lh_invI) (simp_all add: assms(2-9) lh_shape_def all_nodes_def)

lemma chains_ok_update:
  assumes "chains_ok h c f B" "i < length B"
    "\<And>n. n \<in> set ns \<Longrightarrow> node_hash n = h (node_data n) \<and> f (unat (node_hash n)) = i"
    "sorted_wrt (\<lambda>x y. c (node_data x) (node_data y) \<noteq> 0) ns"
  shows "chains_ok h c f (B[i := ns])"
  unfolding chains_ok_def
proof (intro allI impI)
  fix j assume "j < length (B[i := ns])"
  then have j: "j < length B" by simp
  show "(\<forall>n \<in> set (B[i := ns] ! j). node_hash n = h (node_data n) \<and> f (unat (node_hash n)) = j)
    \<and> sorted_wrt (\<lambda>x y. c (node_data x) (node_data y) \<noteq> 0) (B[i := ns] ! j)"
  proof (cases "j = i")
    case True
    then have e: "B[i := ns] ! j = ns" using assms(2) by simp
    show ?thesis unfolding e using assms(3,4) True by blast
  next
    case False
    then have e: "B[i := ns] ! j = B ! j" by simp
    show ?thesis unfolding e using chains_okD [OF assms(1) j] by blast
  qed
qed

lemma expand_success:
  assumes inv: "lh_inv lh" and room: "lh_room lh" and r: "expand e lh = (True, lh')"
  shows "lh_inv lh' \<and> mset (all_nodes lh') = mset (all_nodes lh) \<and> same_settings lh' lh \<and> lh_error lh' = lh_error lh"
proof -
  note i = lh_invD [OF inv]
  define q qmax where "q = lh_p lh" and "qmax = pmax lh"
  define B where "B = (if q + 1 \<ge> qmax then lh_b lh @ replicate (num_alloc_nodes lh) [] else lh_b lh)"
  obtain k where k: "qmax = 8 * 2 ^ k" and sh: "q < qmax" "num_alloc_nodes lh = 2 * qmax"
    "length (lh_b lh) = 2 * qmax" "num_nodes lh = q + qmax" and bd: "qmax < 536870912"
    using i(2) by (auto simp: lh_shape_def q_def qmax_def)
  have u: "uint32 (Suc q) = Suc q" "uint32 (q + qmax) = q + qmax" "uint32 (Suc (q + qmax)) = Suc (q + qmax)"
    "uint32 (2 * qmax * 2) = 2 * qmax * 2" "qmax \<noteq> 0"
    using bd sh by simp_all
  have B: "chains_ok (lh_hash lh) (lh_comp lh) (linear q qmax) B" "mset (concat B) = mset (all_nodes lh)"
    "q + qmax < length B"
    using i(3) chains_ok_pad [OF i(3)] sh by (auto simp: B_def q_def qmax_def all_nodes_def)
  obtain kept moved where sp: "split_chain (2 * qmax) q (B ! q) [] = (kept, moved)" by fastforce
  note so = split_ok [OF i(1) B(1) sh(1) B(3) sp]
  have len: "size (mset (concat (B[q := kept, q + qmax := moved]))) = num_items lh"
    using so(2) B(2) i(4) by (metis size_mset)
  show ?thesis
  proof (cases "q + 1 \<ge> qmax")
    case True
    then have "Suc q = qmax" using sh by simp
    from linear_Suc_wrap [OF this]
    have ok: "chains_ok (lh_hash lh) (lh_comp lh) (linear 0 (2 * qmax)) (B[q := kept, q + qmax := moved])"
      using so(1) by simp
    have lh': "lh' = lh\<lparr>lh_b := B[q := kept, q + qmax := moved], pmax := 2 * qmax, num_alloc_nodes := 2 * qmax * 2,
        num_expand_reallocs := num_expand_reallocs lh + 1, lh_p := 0, num_nodes := uint32 (num_nodes lh + 1),
        num_expands := num_expands lh + 1\<rparr>"
      using r True sp sh u by (auto simp: expand_def Let_def q_def [symmetric] qmax_def [symmetric] B_def split: if_splits)
    have small: "2 * qmax < 536870912" using room sh(4) \<open>Suc q = qmax\<close> by (simp add: lh_room_def)
    have "\<exists>j. 2 * qmax = 8 * 2 ^ j" using k by (intro exI [of _ "Suc k"]) simp
    then have "lh_inv lh'" using ok i(1) sh True len \<open>Suc q = qmax\<close> small u
      by (intro lh_invI) (auto simp: lh' lh_shape_def all_nodes_def B_def)
    then show ?thesis using so(2) B(2) by (simp add: lh' same_settings_def all_nodes_def)
  next
    case False
    have lh': "lh' = lh\<lparr>lh_b := B[q := kept, q + qmax := moved], lh_p := Suc q, num_nodes := uint32 (num_nodes lh + 1),
        num_expands := num_expands lh + 1\<rparr>"
      using r False sp sh u by (auto simp: expand_def Let_def q_def [symmetric] qmax_def [symmetric] B_def split: if_splits)
    then have "lh_inv lh'" using so(1) i(1) sh k False len bd u
      by (intro lh_invI) (auto simp: lh' lh_shape_def all_nodes_def B_def qmax_def)
    then show ?thesis using so(2) B(2) by (simp add: lh' same_settings_def all_nodes_def)
  qed
qed

lemma expand_failure:
  assumes "lh_shape lh" "expand e lh = (False, lh')"
  shows "lh' = lh\<lparr>lh_error := lh_error lh + 1\<rparr>"
proof -
  have "uint32 (num_alloc_nodes lh * 2) \<noteq> 0" using assms(1) by (auto simp: lh_shape_def)
  then show ?thesis using assms(2) by (auto simp: expand_def Let_def split: if_splits prod.splits)
qed

lemma concat_drop_empty: "(\<And>i. n \<le> i \<Longrightarrow> i < length B \<Longrightarrow> B ! i = []) \<Longrightarrow> concat (take n B) = concat B"
proof -
  assume e: "\<And>i. n \<le> i \<Longrightarrow> i < length B \<Longrightarrow> B ! i = []"
  have "\<forall>xs \<in> set (drop n B). xs = []"
    using e by (auto simp: in_set_conv_nth)
  then have "concat (drop n B) = []" by simp
  then show ?thesis by (metis append_Nil2 append_take_drop_id concat_append)
qed

lemma contract_success:
  assumes inv: "lh_inv lh" and big: "num_nodes lh > MIN_NODES" and sk: "lh_p lh = 0 \<longrightarrow> shrink_ok e"
  shows "lh_inv (contract e lh) \<and> mset (all_nodes (contract e lh)) = mset (all_nodes lh)
    \<and> same_settings (contract e lh) lh \<and> lh_error (contract e lh) = lh_error lh"
proof -
  note i = lh_invD [OF inv]
  obtain k where k: "pmax lh = 8 * 2 ^ k" and sh: "lh_p lh < pmax lh" "num_alloc_nodes lh = 2 * pmax lh"
    "length (lh_b lh) = 2 * pmax lh" "num_nodes lh = lh_p lh + pmax lh" and bd: "pmax lh < 536870912"
    using i(2) by (auto simp: lh_shape_def)
  show ?thesis
  proof (cases "lh_p lh = 0")
    case False
    define q where "q = lh_p lh - 1"
    have q: "lh_p lh = Suc q" using False by (simp add: q_def)
    let ?B = "(lh_b lh)[q + pmax lh := [], q := lh_b lh ! q @ lh_b lh ! (q + pmax lh)]"
    have jo: "chains_ok (lh_hash lh) (lh_comp lh) (linear q (pmax lh)) ?B" "mset (concat ?B) = mset (concat (lh_b lh))"
      using join_ok [OF i(1), of q "pmax lh" "lh_b lh"] i(3) sh q by auto
    have c: "contract e lh = lh\<lparr>lh_b := ?B, lh_p := q, num_nodes := num_nodes lh - 1, num_contracts := num_contracts lh + 1\<rparr>"
      using q sh bd by (simp add: contract_def Let_def)
    have "lh_inv (contract e lh)" unfolding c
      using jo i(1,4) sh q k bd by (intro lh_invI) (auto simp: lh_shape_def all_nodes_def dest: mset_eq_length)
    then show ?thesis using jo(2) by (simp add: c same_settings_def all_nodes_def)
  next
    case True
    obtain j where j: "pmax lh = 2 * (8 * 2 ^ j)"
      using pow_even [OF k] big sh(4) True by (auto simp: MIN_NODES_def)
    define qmax where "qmax = 8 * (2 :: nat) ^ j"
    define q where "q = qmax - 1"
    have qm: "pmax lh = 2 * qmax" "Suc q = qmax" "q < qmax" using j by (simp_all add: qmax_def q_def)
    define B where "B = take (pmax lh) (lh_b lh)"
    have "chains_ok (lh_hash lh) (lh_comp lh) (linear 0 (2 * qmax)) B"
      unfolding B_def using chains_ok_take [OF i(3), of "pmax lh"] True qm by simp
    then have Bok: "chains_ok (lh_hash lh) (lh_comp lh) (linear (Suc q) qmax) B"
      using linear_Suc_wrap [OF qm(2)] by simp
    have "concat B = concat (lh_b lh)" unfolding B_def
      by (rule concat_drop_empty, rule chain_empty [OF i(3) sh(1)]) (use True in simp_all)
    moreover have lB: "length B = 2 * qmax" using sh qm by (simp add: B_def)
    let ?B = "B[q + qmax := [], q := B ! q @ B ! (q + qmax)]"
    have jo: "chains_ok (lh_hash lh) (lh_comp lh) (linear q qmax) ?B" "mset (concat ?B) = mset (concat B)"
      using join_ok [OF i(1) Bok qm(3)] lB qm by auto
    have c: "contract e lh = lh\<lparr>lh_b := ?B, lh_p := q, pmax := qmax, num_alloc_nodes := pmax lh,
        num_contract_reallocs := num_contract_reallocs lh + 1, num_nodes := num_nodes lh - 1,
        num_contracts := num_contracts lh + 1\<rparr>"
    proof -
      have top: "uint32 (lh_p lh + pmax lh - 1) = q + qmax" using True qm bd by simp
      have sz: "uint32 (8 * pmax lh) = 8 * pmax lh" "pmax lh \<noteq> 0" using bd qm by simp_all
      have nth: "lh_b lh ! (q + qmax) = B ! (q + qmax)" using qm by (simp add: B_def)
      have up: "take (pmax lh) ((lh_b lh)[q + qmax := []]) = B[q + qmax := []]" by (simp add: B_def take_update_swap)
      have nq: "B[q + qmax := []] ! q = B ! q" using qm by simp
      have half: "pmax lh div 2 = qmax" "pmax lh div 2 - 1 = q" "num_alloc_nodes lh div 2 = pmax lh"
        "qmax - Suc 0 = q" using qm sh by simp_all
      show ?thesis unfolding contract_def Let_def top nth
        using True sk by (simp add: up nq half sz)
    qed
    have "lh_inv (contract e lh)" unfolding c
      using jo i(1,4) sh qm lB True calculation bd
      by (intro lh_invI) (auto simp: lh_shape_def all_nodes_def qmax_def dest: mset_eq_length)
    then show ?thesis using jo(2) calculation by (simp add: c same_settings_def all_nodes_def)
  qed
qed

section \<open>Searching\<close>

lemma chain_pos_le: "chain_pos cf h d ns \<le> length ns"
  by (induction ns) auto

lemma chain_pos_found:
  "chain_pos cf h d ns \<noteq> length ns \<Longrightarrow>
     chain_pos cf h d ns < length ns \<and> node_hash (ns ! chain_pos cf h d ns) = h \<and>
     cf (node_data (ns ! chain_pos cf h d ns)) d = 0"
  by (induction ns) (auto split: if_splits)

lemma chain_pos_missing:
  "chain_pos cf h d ns = length ns \<Longrightarrow> x \<in> set ns \<Longrightarrow> node_hash x = h \<Longrightarrow> cf (node_data x) d \<noteq> 0"
  by (induction ns) (auto split: if_splits)

lemma bucket_bound: "lh_shape lh \<Longrightarrow> bucket_of lh h < length (lh_b lh)"
  using linear_bound [of "lh_p lh" "pmax lh" "unat h"] bucket_linear [of lh h]
  by (auto simp: lh_shape_def)

lemma all_nodes_nth: "x \<in> set (all_nodes lh) \<longleftrightarrow> (\<exists>i < length (lh_b lh). x \<in> set (lh_b lh ! i))"
  by (auto simp: all_nodes_def in_set_conv_nth) (metis in_set_conv_nth nth_mem)+

lemma key_bucket:
  assumes inv: "lh_inv lh" and x: "x \<in> set (all_nodes lh)" "lh_comp lh (node_data x) d = 0"
  shows "x \<in> set (lh_b lh ! bucket_of lh (lh_hash lh d))" "node_hash x = lh_hash lh d"
proof -
  note i = lh_invD [OF inv]
  obtain j where j: "j < length (lh_b lh)" "x \<in> set (lh_b lh ! j)" using x(1) by (auto simp: all_nodes_nth)
  show h: "node_hash x = lh_hash lh d"
    using chains_okD(1) [OF i(3) j(1) j(2)] lh_clientD(4) [OF i(1) x(2)] by simp
  then have "bucket_of lh (lh_hash lh d) = j"
    using chains_okD(2) [OF i(3) j(1) j(2)] bucket_linear [OF i(2)] by simp
  then show "x \<in> set (lh_b lh ! bucket_of lh (lh_hash lh d))" using j by simp
qed

lemma getrn_cases:
  assumes inv: "lh_inv lh" and g: "getrn lh d = (nn, i, h)"
  shows "nn < length (lh_b lh)" "h = lh_hash lh d" "nn = bucket_of lh h"
    "i = length (lh_b lh ! nn) \<Longrightarrow> x \<in> set (all_nodes lh) \<Longrightarrow> lh_comp lh (node_data x) d \<noteq> 0"
    "i \<noteq> length (lh_b lh ! nn) \<Longrightarrow>
       i < length (lh_b lh ! nn) \<and> node_hash (lh_b lh ! nn ! i) = h \<and> lh_comp lh (node_data (lh_b lh ! nn ! i)) d = 0"
proof -
  have e: "h = lh_hash lh d" "nn = bucket_of lh h" "i = chain_pos (lh_comp lh) h d (lh_b lh ! nn)"
    using g by (auto simp: getrn_def Let_def)
  show "h = lh_hash lh d" "nn = bucket_of lh h" by (rule e)+
  show "nn < length (lh_b lh)" using bucket_bound [OF lh_invD(2) [OF inv]] e by simp
  show "lh_comp lh (node_data x) d \<noteq> 0" if "i = length (lh_b lh ! nn)" "x \<in> set (all_nodes lh)"
    using chain_pos_missing [of "lh_comp lh" h d "lh_b lh ! nn" x] key_bucket [OF inv that(2), of d] that(1) e by auto
  show "i \<noteq> length (lh_b lh ! nn) \<Longrightarrow>
       i < length (lh_b lh ! nn) \<and> node_hash (lh_b lh ! nn ! i) = h \<and> lh_comp lh (node_data (lh_b lh ! nn ! i)) d = 0"
    using chain_pos_found [of "lh_comp lh" h d "lh_b lh ! nn"] e by simp
qed

section \<open>Lookup, insertion and deletion\<close>

text \<open>Entries that compare equal are the same entry.\<close>

lemma items_unique:
  assumes inv: "lh_inv lh" and x: "x \<in> lh_items lh" and y: "y \<in> lh_items lh" and c: "lh_comp lh x y = 0"
  shows "x = y"
proof -
  note i = lh_invD [OF inv]
  obtain m n where m: "m \<in> set (all_nodes lh)" "x = node_data m" and n: "n \<in> set (all_nodes lh)" "y = node_data n"
    using x y by (auto simp: lh_items_def)
  let ?j = "bucket_of lh (lh_hash lh y)"
  have mn: "m \<in> set (lh_b lh ! ?j)" "n \<in> set (lh_b lh ! ?j)"
    using key_bucket(1) [OF inv m(1), of y] key_bucket(1) [OF inv n(1), of y] c lh_clientD(1) [OF i(1)] m(2) n(2) by simp_all
  have "sorted_wrt (\<lambda>x y. lh_comp lh (node_data x) (node_data y) \<noteq> 0) (lh_b lh ! ?j)"
    using chains_okD(3) [OF i(3) bucket_bound [OF i(2)]] .
  moreover obtain a b where ab: "a < length (lh_b lh ! ?j)" "lh_b lh ! ?j ! a = m" "b < length (lh_b lh ! ?j)" "lh_b lh ! ?j ! b = n"
    using mn by (auto simp: in_set_conv_nth)
  ultimately have "\<not> a < b" "\<not> b < a"
    using c lh_clientD(2) [OF i(1) c] unfolding m(2) n(2) sorted_wrt_iff_nth_less by metis+
  then have "m = n" using ab by simp
  then show ?thesis using m n by simp
qed

lemma all_nodesI: "j < length (lh_b lh) \<Longrightarrow> k < length (lh_b lh ! j) \<Longrightarrow> lh_b lh ! j ! k \<in> set (all_nodes lh)"
  by (auto simp: all_nodes_nth)

lemma retrieve_iff:
  assumes inv: "lh_inv lh"
  shows "fst (OPENSSL_LH_retrieve lh k) = Some d \<longleftrightarrow> d \<in> lh_items lh \<and> lh_comp lh d k = 0"
proof -
  have inv': "lh_inv (lh\<lparr>lh_error := 0\<rparr>)"
    using inv by (rule lh_inv_cong) simp_all
  note i = lh_invD [OF inv]
  obtain nn j h where g: "getrn (lh\<lparr>lh_error := 0\<rparr>) k = (nn, j, h)" by (metis prod_cases3)
  note gc = getrn_cases [OF inv' g, simplified]
  show ?thesis
  proof (cases "j = length (lh_b lh ! nn)")
    case True
    have "fst (OPENSSL_LH_retrieve lh k) = None"
      using g True by (simp add: OPENSSL_LH_retrieve_def Let_def)
    moreover have "\<not> (d \<in> lh_items lh \<and> lh_comp lh d k = 0)"
      using gc(4) [OF True] by (auto simp: lh_items_def all_nodes_def)
    ultimately show ?thesis by simp
  next
    case False
    note f = gc(5) [OF False]
    let ?x = "node_data (lh_b lh ! nn ! j)"
    have r: "fst (OPENSSL_LH_retrieve lh k) = Some ?x"
      using g False by (simp add: OPENSSL_LH_retrieve_def Let_def)
    have xi: "?x \<in> lh_items lh" using f gc(1) all_nodesI by (auto simp: lh_items_def)
    have "d = ?x" if "d \<in> lh_items lh" "lh_comp lh d k = 0"
      using items_unique [OF inv that(1) xi] lh_clientD(2,3) [OF i(1)] f that(2) by blast
    then show ?thesis using r xi f by auto
  qed
qed

text \<open>A key that is found matches exactly one node of the table.\<close>

lemma match_unique:
  assumes inv: "lh_inv lh" and g: "getrn lh d = (nn, i, h)" and f: "i \<noteq> length (lh_b lh ! nn)"
  shows "{#n \<in># mset (all_nodes lh). lh_comp lh (node_data n) d = 0#} = {#lh_b lh ! nn ! i#}"
proof -
  note iv = lh_invD [OF inv] and gc = getrn_cases [OF inv g]
  let ?c = "lh_b lh ! nn" and ?P = "\<lambda>n. lh_comp lh (node_data n) d = 0"
  have fi: "i < length ?c" "?P (?c ! i)" using gc(5) [OF f] by auto
  have sp: "?c = take i ?c @ ?c ! i # drop (Suc i) ?c" using fi(1) by (simp add: id_take_nth_drop)
  have "sorted_wrt (\<lambda>x y. lh_comp lh (node_data x) (node_data y) \<noteq> 0) (take i ?c @ ?c ! i # drop (Suc i) ?c)"
    using chains_okD(3) [OF iv(3) gc(1)] sp by simp
  then have "\<forall>n \<in> set (take i ?c) \<union> set (drop (Suc i) ?c).
      lh_comp lh (node_data n) (node_data (?c ! i)) \<noteq> 0 \<or> lh_comp lh (node_data (?c ! i)) (node_data n) \<noteq> 0"
    by (auto simp: sorted_wrt_append)
  then have "\<forall>n \<in> set (take i ?c) \<union> set (drop (Suc i) ?c). \<not> ?P n"
    using lh_clientD(2,3) [OF iv(1)] fi(2) by blast
  then have "filter ?P (take i ?c @ ?c ! i # drop (Suc i) ?c) = [?c ! i]" using fi(2) by simp
  then have "filter ?P ?c = [?c ! i]" using sp by simp
  then have one: "{#n \<in># mset ?c. ?P n#} = {#?c ! i#}" by (metis mset_filter mset_single_iff)
  have "\<not> ?P n" if mem: "n \<in> set (concat ((lh_b lh)[nn := []]))" for n
  proof
    assume P: "?P n"
    obtain j where j: "j < length (lh_b lh)" "n \<in> set ((lh_b lh)[nn := []] ! j)"
    proof -
      obtain ns where "ns \<in> set ((lh_b lh)[nn := []])" "n \<in> set ns" using mem by auto
      then show ?thesis using that by (metis in_set_conv_nth length_list_update)
    qed
    then have jn: "j \<noteq> nn" "n \<in> set (lh_b lh ! j)" using gc(1) by (auto simp: nth_list_update split: if_splits)
    then have "n \<in> set (all_nodes lh)" using j(1) by (auto simp: all_nodes_nth)
    from key_bucket(2) [OF inv this P] have "bucket_of lh h = j"
      using chains_okD(2) [OF iv(3) j(1) jn(2)] bucket_linear [OF iv(2)] gc(2) by simp
    then show False using gc(3) jn(1) by simp
  qed
  then have zero: "{#n \<in># mset (concat ((lh_b lh)[nn := []])). ?P n#} = {#}"
    by (auto simp: filter_mset_eq_mempty_iff)
  have "mset (all_nodes lh) = mset (concat ((lh_b lh)[nn := []])) + mset ?c"
    using mset_concat_update [OF gc(1), of "[]"] by (simp add: all_nodes_def)
  then show ?thesis using one zero by simp
qed

lemma match_rest:
  assumes "{#n \<in># mset xs. P (node_data n)#} = {#old#}" "mset xs = add_mset old M"
  shows "node_data ` set_mset M = {x \<in> node_data ` set xs. \<not> P x}"
proof -
  have s: "set xs = insert old (set_mset M)" using arg_cong [OF assms(2), of set_mset] by simp
  have P: "P (node_data old)" using assms(1) by (metis filter_mset_eq_conv union_single_eq_member)
  have "{#n \<in># M. P (node_data n)#} = {#}" using assms P by simp
  then show ?thesis using s P by (auto simp: filter_mset_eq_mempty_iff)
qed

lemma set_mset_list: "mset xs = M \<Longrightarrow> set xs = set_mset M"
  by auto

lemma split_nth: "i < length xs \<Longrightarrow> mset xs = add_mset (xs ! i) (mset (take i xs @ drop (Suc i) xs))"
  by (metis id_take_nth_drop mset.simps(2) mset_append union_mset_add_mset_right)

lemma remove_node:
  assumes inv: "lh_inv lh" and g: "getrn lh d = (nn, i, h)" and f: "i \<noteq> length (lh_b lh ! nn)"
    and lh': "lh' = lh\<lparr>lh_b := (lh_b lh)[nn := take i (lh_b lh ! nn) @ drop (Suc i) (lh_b lh ! nn)],
      num_delete := k, num_items := num_items lh - 1\<rparr>"
  shows "lh_inv lh' \<and> lh_items lh' = {x \<in> lh_items lh. lh_comp lh x d \<noteq> 0}"
proof -
  note iv = lh_invD [OF inv] and gc = getrn_cases [OF inv g]
  let ?c = "lh_b lh ! nn"
  have fi: "i < length ?c" using gc(5) [OF f] by auto
  note cd = chains_okD [OF iv(3) gc(1)]
  have m: "mset (all_nodes lh) = add_mset (?c ! i) (mset (all_nodes lh'))"
    using mset_concat_update [OF gc(1), of "take i ?c @ drop (Suc i) ?c"] split_nth [OF fi]
    by (simp add: all_nodes_def lh')
  have "length (all_nodes lh) = Suc (length (all_nodes lh'))" using arg_cong [OF m, of size] by simp
  moreover have "chains_ok (lh_hash lh) (lh_comp lh) (linear (lh_p lh) (pmax lh)) ((lh_b lh)[nn := take i ?c @ drop (Suc i) ?c])"
  proof (rule chains_ok_update [OF iv(3) gc(1)])
    show "node_hash n = lh_hash lh (node_data n) \<and> linear (lh_p lh) (pmax lh) (unat (node_hash n)) = nn"
      if "n \<in> set (take i ?c @ drop (Suc i) ?c)" for n
      using cd(1,2) [of n] that by (auto dest: in_set_takeD in_set_dropD)
    show "sorted_wrt (\<lambda>x y. lh_comp lh (node_data x) (node_data y) \<noteq> 0) (take i ?c @ drop (Suc i) ?c)"
      using cd(3) id_take_nth_drop [OF fi] by (metis (no_types, lifting) list.set_intros(2) sorted_wrt.simps(2) sorted_wrt_append)
  qed
  ultimately have "lh_inv lh'" using iv by (intro lh_invI) (auto simp: lh' lh_shape_def)
  moreover have "lh_items lh' = {x \<in> lh_items lh. lh_comp lh x d \<noteq> 0}"
    using match_rest [of "\<lambda>x. lh_comp lh x d = 0", OF match_unique [OF inv g f] m] by (simp add: lh_items_def)
  ultimately show ?thesis ..
qed

lemma replace_node:
  assumes inv: "lh_inv lh" and g: "getrn lh d = (nn, i, h)" and f: "i \<noteq> length (lh_b lh ! nn)"
    and lh': "lh' = lh\<lparr>lh_b := (lh_b lh)[nn := (lh_b lh ! nn)[i := (lh_b lh ! nn ! i)\<lparr>node_data := d\<rparr>]], num_replace := k\<rparr>"
  shows "lh_inv lh' \<and> lh_items lh' = insert d {x \<in> lh_items lh. lh_comp lh x d \<noteq> 0}"
proof -
  note iv = lh_invD [OF inv] and gc = getrn_cases [OF inv g]
  let ?c = "lh_b lh ! nn"
  let ?new = "(?c ! i)\<lparr>node_data := d\<rparr>"
  have fi: "i < length ?c" "node_hash (?c ! i) = h" "lh_comp lh (node_data (?c ! i)) d = 0" using gc(5) [OF f] by auto
  note cd = chains_okD [OF iv(3) gc(1)]
  obtain M where M: "mset (all_nodes lh) = add_mset (?c ! i) M"
    by (metis all_nodesI [OF gc(1) fi(1)] multi_member_split set_mset_mset)
  have "mset (?c[i := ?new]) = add_mset ?new (mset (take i ?c @ drop (Suc i) ?c))"
    using fi(1) by (simp add: upd_conv_take_nth_drop)
  then have m: "mset (all_nodes lh') = add_mset ?new M"
    using mset_concat_update [OF gc(1), of "?c[i := ?new]"] split_nth [OF fi(1)] M
    by (simp add: all_nodes_def lh')
  have "length (all_nodes lh) = length (all_nodes lh')" using arg_cong [OF m, of size] arg_cong [OF M, of size] by simp
  moreover have "chains_ok (lh_hash lh) (lh_comp lh) (linear (lh_p lh) (pmax lh)) ((lh_b lh)[nn := ?c[i := ?new]])"
  proof (rule chains_ok_update [OF iv(3) gc(1)])
    show "node_hash n = lh_hash lh (node_data n) \<and> linear (lh_p lh) (pmax lh) (unat (node_hash n)) = nn"
      if "n \<in> set (?c[i := ?new])" for n
    proof (cases "n = ?new")
      case True
      then show ?thesis using cd(2) [of "?c ! i"] fi gc(2) by simp
    next
      case False
      then have "n \<in> set ?c" using that set_update_subset_insert [of ?c i ?new] by blast
      then show ?thesis using cd(1,2) by blast
    qed
    have "sorted_wrt (\<lambda>x y. lh_comp lh (node_data x) (node_data y) \<noteq> 0) (take i ?c @ ?c ! i # drop (Suc i) ?c)"
      using cd(3) id_take_nth_drop [OF fi(1)] by simp
    moreover have "lh_comp lh x d \<noteq> 0" if "lh_comp lh x (node_data (?c ! i)) \<noteq> 0" for x
      using that fi(3) lh_clientD(2,3) [OF iv(1)] by blast
    moreover have "lh_comp lh d x \<noteq> 0" if "lh_comp lh (node_data (?c ! i)) x \<noteq> 0" for x
      using that fi(3) lh_clientD(3) [OF iv(1)] by blast
    ultimately show "sorted_wrt (\<lambda>x y. lh_comp lh (node_data x) (node_data y) \<noteq> 0) (?c[i := ?new])"
      unfolding upd_conv_take_nth_drop [OF fi(1)] by (auto simp: sorted_wrt_append)
  qed
  ultimately have "lh_inv lh'" using iv by (intro lh_invI) (auto simp: lh' lh_shape_def)
  moreover have "lh_items lh' = insert d {x \<in> lh_items lh. lh_comp lh x d \<noteq> 0}"
    using match_rest [of "\<lambda>x. lh_comp lh x d = 0", OF match_unique [OF inv g f] M] set_mset_list [OF m]
    by (simp add: lh_items_def)
  ultimately show ?thesis ..
qed

lemma append_node:
  assumes inv: "lh_inv lh" and g: "getrn lh d = (nn, length (lh_b lh ! nn), h)"
    and lh': "lh' = lh\<lparr>lh_b := (lh_b lh)[nn := lh_b lh ! nn @ [\<lparr>node_data = d, node_hash = h\<rparr>]], num_insert := k,
      num_items := num_items lh + 1\<rparr>"
  shows "lh_inv lh' \<and> lh_items lh' = insert d {x \<in> lh_items lh. lh_comp lh x d \<noteq> 0}"
proof -
  note iv = lh_invD [OF inv] and gc = getrn_cases [OF inv g]
  let ?c = "lh_b lh ! nn" and ?new = "\<lparr>node_data = d, node_hash = h\<rparr>"
  note cd = chains_okD [OF iv(3) gc(1)]
  have no: "lh_comp lh (node_data x) d \<noteq> 0" if "x \<in> set (all_nodes lh)" for x using gc(4) [OF refl that] .
  have m: "mset (all_nodes lh') = add_mset ?new (mset (all_nodes lh))"
    using mset_concat_update [OF gc(1), of "?c @ [?new]"] by (simp add: all_nodes_def lh')
  have "length (all_nodes lh') = Suc (length (all_nodes lh))" using arg_cong [OF m, of size] by simp
  moreover have "chains_ok (lh_hash lh) (lh_comp lh) (linear (lh_p lh) (pmax lh)) ((lh_b lh)[nn := ?c @ [?new]])"
  proof (rule chains_ok_update [OF iv(3) gc(1)])
    show "node_hash n = lh_hash lh (node_data n) \<and> linear (lh_p lh) (pmax lh) (unat (node_hash n)) = nn"
      if "n \<in> set (?c @ [?new])" for n
      using cd(1,2) [of n] that gc(2,3) bucket_linear [OF iv(2)] by auto
    have "\<forall>x \<in> set ?c. lh_comp lh (node_data x) d \<noteq> 0" using no gc(1) by (auto simp: all_nodes_nth)
    then show "sorted_wrt (\<lambda>x y. lh_comp lh (node_data x) (node_data y) \<noteq> 0) (?c @ [?new])"
      using cd(3) by (simp add: sorted_wrt_append)
  qed
  ultimately have "lh_inv lh'" using iv by (intro lh_invI) (auto simp: lh' lh_shape_def)
  moreover have "lh_items lh' = insert d (lh_items lh)" using set_mset_list [OF m] by (simp add: lh_items_def)
  ultimately show ?thesis using no by (auto simp: lh_items_def)
qed

lemma items_mset: "mset (all_nodes a) = mset (all_nodes b) \<Longrightarrow> lh_items a = lh_items b"
  unfolding lh_items_def by (drule mset_eq_setD) simp

lemma lh_inv_error: "lh_inv lh \<Longrightarrow> lh_inv (lh\<lparr>lh_error := k\<rparr>)" "lh_items (lh\<lparr>lh_error := k\<rparr>) = lh_items lh"
proof -
  show "lh_inv lh \<Longrightarrow> lh_inv (lh\<lparr>lh_error := k\<rparr>)" by (erule lh_inv_cong) simp_all
qed (simp add: lh_items_def all_nodes_def)

text \<open>What the lookup returns depends on the entries only.\<close>

lemma retrieve_eq:
  assumes "lh_inv a" "lh_inv b" "lh_items a = lh_items b" "lh_comp a = lh_comp b"
  shows "fst (OPENSSL_LH_retrieve a k) = fst (OPENSSL_LH_retrieve b k)"
proof (cases "fst (OPENSSL_LH_retrieve a k)")
  case None
  then show ?thesis using retrieve_iff [OF assms(1), of k] retrieve_iff [OF assms(2), of k] assms(3,4)
    by (metis option.exhaust)
next
  case (Some d)
  then show ?thesis using retrieve_iff [OF assms(1), of k d] retrieve_iff [OF assms(2), of k d] assms(3,4) by simp
qed

lemma getrn_error [simp]: "getrn (lh\<lparr>lh_error := k\<rparr>) d = getrn lh d"
  by (simp add: getrn_def bucket_of_def Let_def)

lemma retrieve_getrn:
  assumes "getrn lh k = (nn, i, h)"
  shows "fst (OPENSSL_LH_retrieve lh k) = (if i = length (lh_b lh ! nn) then None else Some (node_data (lh_b lh ! nn ! i)))"
proof -
  have "getrn (lh\<lparr>lh_error := 0\<rparr>) k = (nn, i, h)" using assms by simp
  then show ?thesis by (simp add: OPENSSL_LH_retrieve_def Let_def)
qed

lemma store_ok:
  assumes inv: "lh_inv lh" and e0: "lh_error lh = 0" and s: "store e lh d = (r, lh')"
  shows "lh_inv lh' \<and> lh_comp lh' = lh_comp lh \<and>
    (if lh_error lh' = 0 then lh_items lh' = insert d {x \<in> lh_items lh. lh_comp lh x d \<noteq> 0} \<and> r = fst (OPENSSL_LH_retrieve lh d)
     else lh_items lh' = lh_items lh \<and> r = None)"
proof -
  obtain nn i h where g: "getrn lh d = (nn, i, h)" by (metis prod_cases3)
  note rg = retrieve_getrn [OF g]
  consider (full) "i = length (lh_b lh ! nn)" "\<not> node_ok e" | (new) "i = length (lh_b lh ! nn)" "node_ok e"
    | (old) "i \<noteq> length (lh_b lh ! nn)" by blast
  then show ?thesis
  proof cases
    case full
    then show ?thesis using s g e0 lh_inv_error [where lh = lh] inv by (auto simp: store_def Let_def)
  next
    case new
    have lh': "lh' = lh\<lparr>lh_b := (lh_b lh)[nn := lh_b lh ! nn @ [\<lparr>node_data = d, node_hash = h\<rparr>]],
        num_insert := num_insert lh + 1, num_items := num_items lh + 1\<rparr>" "r = None"
      using s g new by (auto simp: store_def Let_def)
    have "getrn lh d = (nn, length (lh_b lh ! nn), h)" using g new(1) by simp
    from append_node [OF inv this lh'(1)] show ?thesis using rg new(1) e0 lh' by simp
  next
    case old
    have lh': "lh' = lh\<lparr>lh_b := (lh_b lh)[nn := (lh_b lh ! nn)[i := (lh_b lh ! nn ! i)\<lparr>node_data := d\<rparr>]],
        num_replace := num_replace lh + 1\<rparr>" "r = Some (node_data (lh_b lh ! nn ! i))"
      using s g old by (auto simp: store_def Let_def)
    from replace_node [OF inv g old lh'(1)] show ?thesis using rg old e0 lh' by simp
  qed
qed

lemma lh_insert_ok:
  assumes inv: "lh_inv lh" and room: "lh_room lh" and s: "OPENSSL_LH_insert e lh d = (r, lh')"
  shows "lh_inv lh' \<and> lh_comp lh' = lh_comp lh \<and>
    (if lh_error lh' = 0 then lh_items lh' = insert d {x \<in> lh_items lh. lh_comp lh x d \<noteq> 0} \<and> r = fst (OPENSSL_LH_retrieve lh d)
     else lh_items lh' = lh_items lh \<and> r = None)"
proof -
  let ?l0 = "lh\<lparr>lh_error := 0\<rparr>"
  note inv0 = lh_inv_error(1) [OF inv, where k = 0] and it0 = lh_inv_error(2) [where lh = lh and k = 0]
  have room0: "lh_room ?l0" using room by (simp add: lh_room_def)
  obtain ok l1 where x: "(if up_load lh \<le> num_items lh * LH_LOAD_MULT div num_nodes lh then expand e ?l0 else (True, ?l0)) = (ok, l1)"
    by fastforce
  show ?thesis
  proof (cases ok)
    case False
    then have "expand e ?l0 = (False, l1)" using x by (auto split: if_splits)
    from expand_failure [OF lh_invD(2) [OF inv0] this] have l1: "l1 = lh\<lparr>lh_error := 1\<rparr>" by simp
    have "lh' = l1" "r = None" using s x False by (simp_all add: OPENSSL_LH_insert_def Let_def)
    then show ?thesis using l1 lh_inv_error [where lh = lh and k = 1] inv by simp
  next
    case True
    have "lh_inv l1 \<and> mset (all_nodes l1) = mset (all_nodes ?l0) \<and> same_settings l1 ?l0 \<and> lh_error l1 = 0"
      using expand_success [OF inv0 room0, of e l1] x True inv0 by (auto simp: same_settings_def split: if_splits)
    then have l1: "lh_inv l1" "lh_items l1 = lh_items lh" "lh_comp l1 = lh_comp lh" "lh_error l1 = 0"
      using it0 items_mset [of l1 ?l0] by (auto simp: same_settings_def)
    have "store e l1 d = (r, lh')" using s x True by (simp add: OPENSSL_LH_insert_def Let_def)
    from store_ok [OF l1(1,4) this] show ?thesis
      using l1(2,3) retrieve_eq [OF l1(1) inv l1(2,3), of d] by simp
  qed
qed

lemma contract_error: "lh_error lh = 0 \<Longrightarrow> lh_error (contract e lh) = 0 \<Longrightarrow> lh_p lh = 0 \<longrightarrow> shrink_ok e"
  by (rule ccontr) (simp add: contract_def Let_def split: if_splits)

lemma lh_delete_ok:
  assumes inv: "lh_inv lh" and s: "OPENSSL_LH_delete e lh d = (r, lh')" and e0: "lh_error lh' = 0"
  shows "lh_inv lh' \<and> lh_comp lh' = lh_comp lh \<and> lh_items lh' = {x \<in> lh_items lh. lh_comp lh x d \<noteq> 0}
    \<and> r = fst (OPENSSL_LH_retrieve lh d)"
proof -
  let ?l0 = "lh\<lparr>lh_error := 0\<rparr>"
  note inv0 = lh_inv_error(1) [OF inv, where k = 0] and it0 = lh_inv_error(2) [where lh = lh and k = 0]
  obtain nn i h where g: "getrn ?l0 d = (nn, i, h)" by (metis prod_cases3)
  have "getrn lh d = (nn, i, h)" using g by simp
  note rg = retrieve_getrn [OF this] and gc = getrn_cases [OF inv this]
  show ?thesis
  proof (cases "i = length (lh_b lh ! nn)")
    case True
    have lh': "lh' = ?l0\<lparr>num_no_delete := num_no_delete lh + 1\<rparr>" "r = None"
      using s g True by (auto simp: OPENSSL_LH_delete_def Let_def)
    have "lh_inv lh'" unfolding lh'(1) by (rule lh_inv_cong [OF inv]) simp_all
    moreover have "lh_items lh' = lh_items lh" by (simp add: lh'(1) lh_items_def all_nodes_def)
    moreover have "\<forall>x \<in> lh_items lh. lh_comp lh x d \<noteq> 0" using gc(4) [OF True] by (auto simp: lh_items_def)
    ultimately show ?thesis using rg True lh' by auto
  next
    case False
    define l1 where "l1 = ?l0\<lparr>lh_b := (lh_b ?l0)[nn := take i (lh_b ?l0 ! nn) @ drop (Suc i) (lh_b ?l0 ! nn)],
      num_delete := num_delete lh + 1, num_items := num_items ?l0 - 1\<rparr>"
    have l1: "lh_inv l1" "lh_items l1 = {x \<in> lh_items lh. lh_comp lh x d \<noteq> 0}"
      using remove_node [OF inv0 g _ l1_def] False it0 by simp_all
    have l1': "lh_error l1 = 0" "lh_comp l1 = lh_comp lh" by (simp_all add: l1_def)
    have lh': "lh' = (if num_nodes l1 > MIN_NODES \<and> down_load l1 \<ge> num_items l1 * LH_LOAD_MULT div num_nodes l1
        then contract e l1 else l1)" and r: "r = Some (node_data (lh_b lh ! nn ! i))"
      using s g False by (auto simp: OPENSSL_LH_delete_def Let_def l1_def)
    show ?thesis
    proof (cases "lh' = l1")
      case True
      then show ?thesis using l1 l1' rg False r by simp
    next
      case c: False
      then have c: "lh' = contract e l1" "num_nodes l1 > MIN_NODES" using lh' by (auto split: if_splits)
      from contract_success [OF l1(1) c(2), of e] contract_error [OF l1'(1), of e]
      have "lh_inv lh' \<and> mset (all_nodes lh') = mset (all_nodes l1) \<and> same_settings lh' l1" using e0 c(1) by blast
      then show ?thesis using l1 l1' rg False r items_mset [of lh' l1] by (simp add: same_settings_def)
    qed
  qed
qed

lemma new_ok:
  assumes "lh_client h c" "OPENSSL_LH_new ok h c = Some lh"
  shows "lh_inv lh \<and> lh_items lh = {} \<and> lh_comp lh = c"
proof -
  have b: "lh_b lh = replicate 16 []" "pmax lh = 8" "lh_p lh = 0" "num_alloc_nodes lh = 16" "num_nodes lh = 8"
    "lh_hash lh = h" "lh_comp lh = c" "num_items lh = 0"
    using assms(2) by (auto simp: OPENSSL_LH_new_def MIN_NODES_def split: if_splits)
  have "chains_ok h c (linear 0 8) (replicate 16 [])" by (simp add: chains_ok_def)
  then have "lh_inv lh" using assms(1) b by (intro lh_invI) (auto simp: lh_shape_def all_nodes_def intro: exI [of _ 0])
  then show ?thesis using b by (simp add: lh_items_def all_nodes_def)
qed

lemma contract_failure:
  assumes inv: "lh_inv lh" and p: "lh_p lh = 0" "\<not> shrink_ok e"
  shows "lh_items (contract e lh) = {x \<in> lh_items lh. bucket_of lh (lh_hash lh x) \<noteq> pmax lh - 1}"
proof -
  note iv = lh_invD [OF inv]
  have "0 < pmax lh" "pmax lh < 536870912" using iv(2) by (auto simp: lh_shape_def)
  then have c: "lh_b (contract e lh) = (lh_b lh)[pmax lh - 1 := []]" using p by (simp add: contract_def Let_def)
  have t: "pmax lh - 1 < length (lh_b lh)" using iv(2) by (auto simp: lh_shape_def)
  have nd: "n \<in> set (all_nodes (contract e lh)) \<longleftrightarrow> n \<in> set (all_nodes lh) \<and> bucket_of lh (lh_hash lh (node_data n)) \<noteq> pmax lh - 1" for n
  proof -
    have "bucket_of lh (lh_hash lh (node_data n)) = i" if "i < length (lh_b lh)" "n \<in> set (lh_b lh ! i)" for i
      using chains_okD(1,2) [OF iv(3) that] bucket_linear [OF iv(2)] by simp
    then show ?thesis unfolding all_nodes_nth c using t
      by (metis (no_types, lifting) empty_iff length_list_update list.set(1) nth_list_update_eq nth_list_update_neq)
  qed
  show ?thesis unfolding lh_items_def using nd by blast
qed

section \<open>The contract of a dictionary\<close>

text \<open>A dictionary whose keys are its entries, compared by \<open>eqv\<close>; an update may fail, and an
  insertion needs \<open>room\<close>.\<close>

locale dictionary =
  fixes inv :: "'t \<Rightarrow> bool"
    and room :: "'t \<Rightarrow> bool"
    and items :: "'t \<Rightarrow> 'a set"
    and eqv :: "'t \<Rightarrow> 'a \<Rightarrow> 'a \<Rightarrow> bool"
    and lookup :: "'t \<Rightarrow> 'a \<Rightarrow> 'a option"
    and put :: "'e \<Rightarrow> 't \<Rightarrow> 'a \<Rightarrow> 't"
    and remove :: "'e \<Rightarrow> 't \<Rightarrow> 'a \<Rightarrow> 't"
    and failed :: "'t \<Rightarrow> bool"
  assumes lookup_iff: "inv t \<Longrightarrow> lookup t k = Some d \<longleftrightarrow> d \<in> items t \<and> eqv t d k"
    and eqv_sym: "inv t \<Longrightarrow> eqv t x y \<Longrightarrow> eqv t y x"
    and eqv_trans: "inv t \<Longrightarrow> eqv t x y \<Longrightarrow> eqv t y z \<Longrightarrow> eqv t x z"
    and put_inv: "inv t \<Longrightarrow> room t \<Longrightarrow> inv (put e t d)"
    and put_eqv: "inv t \<Longrightarrow> room t \<Longrightarrow> eqv (put e t d) = eqv t"
    and put_items: "inv t \<Longrightarrow> room t \<Longrightarrow> \<not> failed (put e t d) \<Longrightarrow> items (put e t d) = insert d {x \<in> items t. \<not> eqv t x d}"
    and put_failed: "inv t \<Longrightarrow> room t \<Longrightarrow> failed (put e t d) \<Longrightarrow> items (put e t d) = items t"
    and remove_ok: "inv t \<Longrightarrow> \<not> failed (remove e t d) \<Longrightarrow>
      inv (remove e t d) \<and> eqv (remove e t d) = eqv t \<and> items (remove e t d) = {x \<in> items t. \<not> eqv t x d}"
begin

lemma lookup_put:
  assumes "inv t" "room t" "\<not> failed (put e t d)"
  shows "lookup (put e t d) k = (if eqv t d k then Some d else lookup t k)"
proof -
  note l = lookup_iff [OF put_inv [OF assms(1,2), of e d], of k] and l0 = lookup_iff [OF assms(1), of k]
  show ?thesis
  proof (cases "eqv t d k")
    case True
    then show ?thesis using l [of d] put_items [OF assms] put_eqv [OF assms(1,2)] by simp
  next
    case False
    have "\<not> eqv t x d" if "eqv t x k" for x
      using that False eqv_sym [OF assms(1)] eqv_trans [OF assms(1)] by blast
    then have "lookup (put e t d) k = Some x \<longleftrightarrow> lookup t k = Some x" for x
      using l [of x] l0 [of x] put_items [OF assms] put_eqv [OF assms(1,2)] False by auto
    then show ?thesis using False by (metis not_None_eq)
  qed
qed

lemma lookup_put_failed:
  assumes "inv t" "room t" "failed (put e t d)"
  shows "lookup (put e t d) k = lookup t k"
proof -
  have "lookup (put e t d) k = Some x \<longleftrightarrow> lookup t k = Some x" for x
    using lookup_iff [OF assms(1), of k x] lookup_iff [OF put_inv [OF assms(1,2), of e d], of k x]
      put_failed [OF assms] put_eqv [OF assms(1,2)] by simp
  then show ?thesis by (metis not_None_eq)
qed

lemma lookup_remove:
  assumes "inv t" "\<not> failed (remove e t d)"
  shows "lookup (remove e t d) k = (if eqv t d k then None else lookup t k)"
proof -
  note r = remove_ok [OF assms]
  then have l: "lookup (remove e t d) k = Some x \<longleftrightarrow> x \<in> items t \<and> \<not> eqv t x d \<and> eqv t x k" for x
    using lookup_iff [of "remove e t d" k x] by auto
  have "\<not> eqv t x d \<and> eqv t x k \<longleftrightarrow> \<not> eqv t d k \<and> eqv t x k" for x
    using eqv_sym [OF assms(1)] eqv_trans [OF assms(1)] by blast
  then have "lookup (remove e t d) k = Some x \<longleftrightarrow> \<not> eqv t d k \<and> lookup t k = Some x" for x
    using l [of x] lookup_iff [OF assms(1), of k x] by auto
  then show ?thesis by (metis not_None_eq)
qed

end

lemma insert_split: "OPENSSL_LH_insert e lh d = (fst (OPENSSL_LH_insert e lh d), snd (OPENSSL_LH_insert e lh d))"
  "OPENSSL_LH_delete e lh d = (fst (OPENSSL_LH_delete e lh d), snd (OPENSSL_LH_delete e lh d))"
  by simp_all

interpretation lh: dictionary lh_inv lh_room lh_items "\<lambda>lh x y. lh_comp lh x y = 0" "\<lambda>lh k. fst (OPENSSL_LH_retrieve lh k)"
  "\<lambda>e lh d. snd (OPENSSL_LH_insert e lh d)" "\<lambda>e lh d. snd (OPENSSL_LH_delete e lh d)" "\<lambda>lh. lh_error lh \<noteq> 0"
proof
  fix t :: "'a lhash" and e :: lh_env and d k x y z
  assume inv: "lh_inv t"
  note ins = lh_insert_ok [OF inv _ insert_split(1) [of e t d]] and cl = lh_invD(1) [OF inv]
  show "(fst (OPENSSL_LH_retrieve t k) = Some d) = (d \<in> lh_items t \<and> lh_comp t d k = 0)" by (rule retrieve_iff [OF inv])
  show "lh_comp t x y = 0 \<Longrightarrow> lh_comp t y x = 0" by (rule lh_clientD(2) [OF cl])
  show "lh_comp t x y = 0 \<Longrightarrow> lh_comp t y z = 0 \<Longrightarrow> lh_comp t x z = 0" by (rule lh_clientD(3) [OF cl])
  show "lh_room t \<Longrightarrow> lh_inv (snd (OPENSSL_LH_insert e t d))" using ins by blast
  show "lh_room t \<Longrightarrow> (\<lambda>x y. lh_comp (snd (OPENSSL_LH_insert e t d)) x y = 0) = (\<lambda>x y. lh_comp t x y = 0)" using ins by metis
  show "lh_room t \<Longrightarrow> \<not> lh_error (snd (OPENSSL_LH_insert e t d)) \<noteq> 0 \<Longrightarrow>
      lh_items (snd (OPENSSL_LH_insert e t d)) = insert d {x \<in> lh_items t. \<not> lh_comp t x d = 0}" using ins by metis
  show "lh_room t \<Longrightarrow> lh_error (snd (OPENSSL_LH_insert e t d)) \<noteq> 0 \<Longrightarrow> lh_items (snd (OPENSSL_LH_insert e t d)) = lh_items t" using ins by metis
  show "\<not> lh_error (snd (OPENSSL_LH_delete e t d)) \<noteq> 0 \<Longrightarrow> lh_inv (snd (OPENSSL_LH_delete e t d)) \<and>
      (\<lambda>x y. lh_comp (snd (OPENSSL_LH_delete e t d)) x y = 0) = (\<lambda>x y. lh_comp t x y = 0) \<and>
      lh_items (snd (OPENSSL_LH_delete e t d)) = {x \<in> lh_items t. \<not> lh_comp t x d = 0}"
    using lh_delete_ok [OF inv insert_split(2) [of e t d]] by simp
qed

section \<open>Properties\<close>

text \<open>A client's updates, run one after another until one of them reports an error.\<close>

datatype 'a lh_op = is_Insert: Insert 'a | Delete 'a

fun lh_run :: "(lh_env \<times> 'a lh_op) list \<Rightarrow> 'a lhash \<Rightarrow> 'a lhash option" where
  "lh_run [] lh = Some lh"
| "lh_run ((e, Insert d) # ops) lh =
     (let lh = snd (OPENSSL_LH_insert e lh d) in if OPENSSL_LH_error lh \<noteq> 0 then None else lh_run ops lh)"
| "lh_run ((e, Delete d) # ops) lh =
     (let lh = snd (OPENSSL_LH_delete e lh d) in if OPENSSL_LH_error lh \<noteq> 0 then None else lh_run ops lh)"

text \<open>The finite map the table stands for, and the same updates on it.\<close>

definition dict_step :: "('a \<Rightarrow> 'a \<Rightarrow> int) \<Rightarrow> 'a lh_op \<Rightarrow> ('a \<Rightarrow> 'a option) \<Rightarrow> 'a \<Rightarrow> 'a option" where
  "dict_step c oper m k =
     (case oper of
        Insert d \<Rightarrow> if c d k = 0 then Some d else m k
      | Delete d \<Rightarrow> if c d k = 0 then None else m k)"

text \<open>The number of buckets grows by at most one with an insertion and not with a deletion.\<close>

abbreviation inserts :: "(lh_env \<times> 'a lh_op) list \<Rightarrow> nat" where
  "inserts ops \<equiv> length (filter (\<lambda>p. is_Insert (snd p)) ops)"

lemma store_nodes: "num_nodes (snd (store e lh d)) = num_nodes lh"
  by (simp add: store_def Let_def split: prod.splits)

lemma expand_nodes: "num_nodes (snd (expand e lh)) \<le> num_nodes lh + 1"
  using uint32_le [of "Suc (num_nodes lh)"] by (simp add: expand_def Let_def split: prod.splits)

lemma insert_nodes: "num_nodes (snd (OPENSSL_LH_insert e lh d)) \<le> num_nodes lh + 1"
proof -
  obtain ok l1 where x: "(if up_load lh \<le> num_items lh * LH_LOAD_MULT div num_nodes lh
      then expand e (lh\<lparr>lh_error := 0\<rparr>) else (True, lh\<lparr>lh_error := 0\<rparr>)) = (ok, l1)" by fastforce
  then have "num_nodes l1 \<le> num_nodes lh + 1"
    using expand_nodes [of e "lh\<lparr>lh_error := 0\<rparr>"] by (auto split: if_splits)
  then show ?thesis using x store_nodes [of e l1 d] by (simp add: OPENSSL_LH_insert_def Let_def split: bool.splits)
qed

lemma delete_nodes: "num_nodes (snd (OPENSSL_LH_delete e lh d)) \<le> num_nodes lh"
  by (simp add: OPENSSL_LH_delete_def contract_def Let_def split: prod.splits)

lemma run_refines:
  assumes "lh_inv lh" "num_nodes lh + inserts ops < 2 ^ 29" "lh_run ops lh = Some lh'"
  shows "lh_inv lh' \<and> (\<lambda>k. fst (OPENSSL_LH_retrieve lh' k)) =
    fold (dict_step (lh_comp lh)) (map snd ops) (\<lambda>k. fst (OPENSSL_LH_retrieve lh k))"
  using assms
proof (induction ops lh rule: lh_run.induct)
  case (1 lh)
  then show ?case by simp
next
  case (2 e d ops lh)
  let ?t = "snd (OPENSSL_LH_insert e lh d)"
  have e0: "\<not> lh_error ?t \<noteq> 0" "lh_run ops ?t = Some lh'"
    using "2.prems"(3) by (auto simp: Let_def OPENSSL_LH_error_def split: if_splits)
  have room: "lh_room lh" "num_nodes ?t + inserts ops < 2 ^ 29"
    using "2.prems"(2) insert_nodes [of e lh d] by (simp_all add: lh_room_def)
  have "lh_inv ?t" "lh_comp ?t = lh_comp lh"
    using lh_insert_ok [OF "2.prems"(1) room(1) insert_split(1) [of e lh d]] by blast+
  moreover have "(\<lambda>k. fst (OPENSSL_LH_retrieve ?t k)) = dict_step (lh_comp lh) (Insert d) (\<lambda>k. fst (OPENSSL_LH_retrieve lh k))"
    using lh.lookup_put [OF "2.prems"(1) room(1) e0(1)] by (auto simp: dict_step_def)
  ultimately show ?case using "2.IH" [OF refl _ _ room(2)] e0 by (simp add: OPENSSL_LH_error_def)
next
  case (3 e d ops lh)
  let ?t = "snd (OPENSSL_LH_delete e lh d)"
  have e0: "\<not> lh_error ?t \<noteq> 0" "lh_run ops ?t = Some lh'"
    using "3.prems"(3) by (auto simp: Let_def OPENSSL_LH_error_def split: if_splits)
  have room: "num_nodes ?t + inserts ops < 2 ^ 29"
    using "3.prems"(2) delete_nodes [of e lh d] by simp
  have "lh_inv ?t" "lh_comp ?t = lh_comp lh" using lh_delete_ok [OF "3.prems"(1) insert_split(2) [of e lh d]] e0(1) by blast+
  moreover have "(\<lambda>k. fst (OPENSSL_LH_retrieve ?t k)) = dict_step (lh_comp lh) (Delete d) (\<lambda>k. fst (OPENSSL_LH_retrieve lh k))"
    using lh.lookup_remove [OF "3.prems"(1) e0(1)] by (auto simp: dict_step_def)
  ultimately show ?case using "3.IH" [OF refl _ _ room] e0 by (simp add: OPENSSL_LH_error_def)
qed

definition env_ok :: "lh_env \<Rightarrow> bool" where
  "env_ok e \<longleftrightarrow> node_ok e \<and> grow_ok e \<and> shrink_ok e"

lemma shape_sizes:
  assumes "lh_shape lh"
  shows "uint32 (num_alloc_nodes lh * 2) \<noteq> 0" "uint32 (sizeof_node_ptr * pmax lh) \<noteq> 0"
  using assms by (auto simp: lh_shape_def)

lemma expand_env_ok:
  "lh_shape lh \<Longrightarrow> grow_ok e \<Longrightarrow> fst (expand e lh) \<and> lh_error (snd (expand e lh)) = lh_error lh"
  using shape_sizes [of lh] by (simp add: expand_def Let_def split: prod.splits)

lemma insert_env_ok:
  assumes "lh_inv lh" "env_ok e"
  shows "lh_error (snd (OPENSSL_LH_insert e lh d)) = 0"
proof -
  have sh: "lh_shape (lh\<lparr>lh_error := 0\<rparr>)" using lh_invD(2) [OF assms(1)] by (simp add: lh_shape_def)
  obtain ok l1 where x: "(if up_load lh \<le> num_items lh * LH_LOAD_MULT div num_nodes lh
      then expand e (lh\<lparr>lh_error := 0\<rparr>) else (True, lh\<lparr>lh_error := 0\<rparr>)) = (ok, l1)" by fastforce
  then have "ok" "lh_error l1 = 0"
    using expand_env_ok [OF sh, of e] assms(2) by (auto simp: env_ok_def split: if_splits)
  then have "OPENSSL_LH_insert e lh d = store e l1 d" using x by (simp add: OPENSSL_LH_insert_def Let_def)
  then show ?thesis using \<open>lh_error l1 = 0\<close> assms(2) by (simp add: store_def Let_def env_ok_def split: prod.splits)
qed

lemma delete_env_ok:
  assumes "lh_inv lh" "env_ok e"
  shows "lh_error (snd (OPENSSL_LH_delete e lh d)) = 0"
proof -
  have "0 < uint32 (sizeof_node_ptr * pmax lh)" using shape_sizes [OF lh_invD(2) [OF assms(1)]] by simp
  then show ?thesis
    using assms(2) by (auto simp: OPENSSL_LH_delete_def contract_def Let_def env_ok_def split: prod.splits)
qed

lemma run_env_ok:
  assumes "lh_inv lh" "num_nodes lh + inserts ops < 2 ^ 29" "\<forall>p \<in> set ops. env_ok (fst p)"
  shows "\<exists>lh'. lh_run ops lh = Some lh'"
  using assms
proof (induction ops lh rule: lh_run.induct)
  case (2 e d ops lh)
  have e0: "lh_error (snd (OPENSSL_LH_insert e lh d)) = 0" using insert_env_ok [OF "2.prems"(1)] "2.prems"(3) by simp
  have room: "lh_room lh" "num_nodes (snd (OPENSSL_LH_insert e lh d)) + inserts ops < 2 ^ 29"
    using "2.prems"(2) insert_nodes [of e lh d] by (simp_all add: lh_room_def)
  have "lh_inv (snd (OPENSSL_LH_insert e lh d))"
    using lh_insert_ok [OF "2.prems"(1) room(1) insert_split(1)] by blast
  then show ?case using "2.IH" [OF refl _ _ room(2)] "2.prems"(3) e0 by (simp add: OPENSSL_LH_error_def Let_def)
next
  case (3 e d ops lh)
  have e0: "lh_error (snd (OPENSSL_LH_delete e lh d)) = 0" using delete_env_ok [OF "3.prems"(1)] "3.prems"(3) by simp
  have room: "num_nodes (snd (OPENSSL_LH_delete e lh d)) + inserts ops < 2 ^ 29"
    using "3.prems"(2) delete_nodes [of e lh d] by simp
  have "lh_inv (snd (OPENSSL_LH_delete e lh d))"
    using lh_delete_ok [OF "3.prems"(1) insert_split(2) e0] by blast
  then show ?case using "3.IH" [OF refl _ _ room] "3.prems"(3) e0 by (simp add: OPENSSL_LH_error_def Let_def)
qed simp

text \<open>C10. The hash table implements a finite map: starting from a new table, any sequence of
  insertions and deletions with fewer than 2^29 - 8 insertions and whose allocations succeed runs
  to its end, and every lookup afterwards returns what the same updates leave in the map that starts
  empty, however often the table has grown and shrunk in between. Below the bound no computation
  in \<^verbatim>\<open>unsigned int\<close> wraps; at 2^29 buckets the cast of the size in \<^verbatim>\<open>contract\<close> would.\<close>

theorem lhash_refines_map:
  assumes "lh_client h c" "OPENSSL_LH_new ok h c = Some lh" "\<forall>p \<in> set ops. env_ok (fst p)"
    "inserts ops < 2 ^ 29 - 8"
  shows "\<exists>lh'. lh_run ops lh = Some lh' \<and>
    (\<forall>k. fst (OPENSSL_LH_retrieve lh' k) = fold (dict_step c) (map snd ops) (\<lambda>_. None) k)"
proof -
  note n = new_ok [OF assms(1,2)]
  have "num_nodes lh = 8" using assms(2) by (auto simp: OPENSSL_LH_new_def MIN_NODES_def split: if_splits)
  then have b: "num_nodes lh + inserts ops < 2 ^ 29" using assms(4) by simp
  obtain lh' where r: "lh_run ops lh = Some lh'" using run_env_ok [OF conjunct1 [OF n] b assms(3)] by blast
  have "(\<lambda>k. fst (OPENSSL_LH_retrieve lh k)) = (\<lambda>_. None)"
    using retrieve_iff [of lh] n by (auto simp: fun_eq_iff) (metis option.exhaust)
  then have "(\<lambda>k. fst (OPENSSL_LH_retrieve lh' k)) = fold (dict_step c) (map snd ops) (\<lambda>_. None)"
    using run_refines [OF conjunct1 [OF n] b r] n by simp
  then show ?thesis using r by (metis (no_types))
qed

definition nat_comp :: "nat \<Rightarrow> nat \<Rightarrow> int" where
  "nat_comp x y = int (x div 2) - int (y div 2)"

definition nat_hash :: "nat \<Rightarrow> u64" where
  "nat_hash x = of_nat (x div 2)"

lemma nat_client: "lh_client nat_hash nat_comp"
  by (auto simp: lh_client_def nat_hash_def nat_comp_def)

abbreviation all_ok :: lh_env where
  "all_ok \<equiv> \<lparr>node_ok = True, grow_ok = True, shrink_ok = True\<rparr>"

theorem lhash_refines_map_witness:
  "\<exists>lh'. lh_run [(all_ok, Insert 6), (all_ok, Insert 22), (all_ok, Insert 7), (all_ok, Delete 23)]
       (the (OPENSSL_LH_new True nat_hash nat_comp)) = Some lh' \<and>
     fst (OPENSSL_LH_retrieve lh' 6) = Some 7 \<and> fst (OPENSSL_LH_retrieve lh' 22) = None"
proof -
  let ?ops = "[(all_ok, Insert 6), (all_ok, Insert 22), (all_ok, Insert 7), (all_ok, Delete 23)]"
  have n: "OPENSSL_LH_new True nat_hash nat_comp = Some (the (OPENSSL_LH_new True nat_hash nat_comp))"
    by (simp add: OPENSSL_LH_new_def)
  obtain lh' where "lh_run ?ops (the (OPENSSL_LH_new True nat_hash nat_comp)) = Some lh'"
    "\<forall>k. fst (OPENSSL_LH_retrieve lh' k) = fold (dict_step nat_comp) (map snd ?ops) (\<lambda>_. None) k"
    using lhash_refines_map [OF nat_client n, of ?ops] by (auto simp: env_ok_def)
  then show ?thesis by (simp add: dict_step_def nat_comp_def)
qed

text \<open>An insertion whose allocations fail reports an error and changes no lookup, one that succeeds
  returns the entry it replaced and is found by every key equal to the new entry; either way the
  table stays well formed.\<close>

theorem lhash_insert_errors:
  assumes "lh_inv lh" "lh_room lh" "OPENSSL_LH_insert e lh d = (r, lh')"
  shows "lh_inv lh' \<and>
    (if OPENSSL_LH_error lh' \<noteq> 0
     then r = None \<and> (\<forall>k. fst (OPENSSL_LH_retrieve lh' k) = fst (OPENSSL_LH_retrieve lh k))
     else r = fst (OPENSSL_LH_retrieve lh d) \<and>
       (\<forall>k. fst (OPENSSL_LH_retrieve lh' k) = (if lh_comp lh d k = 0 then Some d else fst (OPENSSL_LH_retrieve lh k))))"
proof -
  note i = lh_insert_ok [OF assms]
  have s: "snd (OPENSSL_LH_insert e lh d) = lh'" using assms(3) by simp
  show ?thesis
    using i lh.lookup_put [OF assms(1,2), of e d] lh.lookup_put_failed [OF assms(1,2), of e d]
    unfolding s OPENSSL_LH_error_def by metis
qed

theorem lhash_insert_errors_witness:
  "OPENSSL_LH_error (snd (OPENSSL_LH_insert (all_ok\<lparr>node_ok := False\<rparr>) (the (OPENSSL_LH_new True nat_hash nat_comp)) 6)) = 1 \<and>
   fst (OPENSSL_LH_retrieve (snd (OPENSSL_LH_insert (all_ok\<lparr>node_ok := False\<rparr>) (the (OPENSSL_LH_new True nat_hash nat_comp)) 6)) 6) = None"
proof -
  let ?lh = "the (OPENSSL_LH_new True nat_hash nat_comp)" and ?e = "all_ok\<lparr>node_ok := False\<rparr>"
  have inv: "lh_inv ?lh" "lh_items ?lh = {}"
    using new_ok [OF nat_client, of True ?lh] by (simp_all add: OPENSSL_LH_new_def)
  have room: "lh_room ?lh" by (simp add: lh_room_def OPENSSL_LH_new_def MIN_NODES_def)
  have e: "OPENSSL_LH_error (snd (OPENSSL_LH_insert ?e ?lh 6)) = 1" by code_simp
  have "fst (OPENSSL_LH_retrieve ?lh 6) = None" using retrieve_iff [OF inv(1)] inv(2) by (metis empty_iff not_Some_eq)
  then show ?thesis using lhash_insert_errors [OF inv(1) room insert_split(1), of ?e 6] e by simp
qed

text \<open>C11. When shrinking the bucket array fails, the table has already emptied its top bucket: every
  entry in it is lost, although only the deletion's own entry was to go.\<close>

theorem lhash_contract_loses_bucket:
  assumes "lh_inv lh" "lh_p lh = 0" "\<not> shrink_ok e"
  shows "lh_items (contract e lh) = {x \<in> lh_items lh. bucket_of lh (lh_hash lh x) \<noteq> pmax lh - 1}"
  using assms by (rule contract_failure)

text \<open>The cast of the size: a table with 2^29 (or a multiple) unsplit buckets that shrinks asks for
  0 bytes, so its array is freed although every count stays as it was.\<close>

lemma lhash_contract_frees_array:
  assumes "lh_p lh = 0" "2 ^ 29 dvd pmax lh"
  shows "lh_b (contract e lh) = [] \<and> lh_error (contract e lh) = lh_error lh + 1
    \<and> num_nodes (contract e lh) = num_nodes lh \<and> pmax (contract e lh) = pmax lh"
proof -
  have "uint32 (sizeof_node_ptr * pmax lh) = 0" using assms(2) by (auto simp: uint32_def dvd_def)
  then show ?thesis using assms(1) by (simp add: contract_def Let_def)
qed

text \<open>A table of 32 buckets with one entry, in the top bucket.\<close>

definition top_entry :: "nat lhash" where
  "top_entry = (the (OPENSSL_LH_new True nat_hash nat_comp))
     \<lparr>lh_b := (replicate 64 [])[31 := [\<lparr>node_data = 62, node_hash = 31\<rparr>]], num_nodes := 32, num_alloc_nodes := 64,
      pmax := 32, num_items := 1\<rparr>"

lemma top_entry_fields [simp]:
  "lh_b top_entry = (replicate 64 [])[31 := [\<lparr>node_data = 62, node_hash = 31\<rparr>]]" "num_nodes top_entry = 32"
  "num_alloc_nodes top_entry = 64" "pmax top_entry = 32" "num_items top_entry = 1" "lh_p top_entry = 0"
  "lh_hash top_entry = nat_hash" "lh_comp top_entry = nat_comp"
  by (simp_all add: top_entry_def OPENSSL_LH_new_def)

lemma top_entry_nodes: "all_nodes top_entry = [\<lparr>node_data = 62, node_hash = 31\<rparr>]"
  by (simp add: all_nodes_def) code_simp

lemma top_entry_inv: "lh_inv top_entry"
proof (rule lh_invI)
  have "chains_ok nat_hash nat_comp (linear 0 32) (replicate 64 [])" by (simp add: chains_ok_def)
  then show "chains_ok (lh_hash top_entry) (lh_comp top_entry) (linear (lh_p top_entry) (pmax top_entry)) (lh_b top_entry)"
    using chains_ok_update [of nat_hash nat_comp "linear 0 32" "replicate 64 []" 31 "[\<lparr>node_data = 62, node_hash = 31\<rparr>]"]
    by (simp add: nat_hash_def linear_def)
qed (simp_all add: nat_client lh_shape_def top_entry_nodes, rule exI [of _ 2], simp)

theorem lhash_contract_loses_bucket_witness:
  "lh_items top_entry = {62} \<and> lh_items (contract (all_ok\<lparr>shrink_ok := False\<rparr>) top_entry) = {}"
  using lhash_contract_loses_bucket [OF top_entry_inv, of "all_ok\<lparr>shrink_ok := False\<rparr>"]
  by (simp add: lh_items_def top_entry_nodes bucket_of_def nat_hash_def)

lemma tolower_zero: "ossl_tolower c = 0 \<longleftrightarrow> c = 0"
proof -
  have "(c XOR 0x20) XOR 0x20 = c" by (simp add: xor.assoc)
  then have "c XOR 0x20 = 0 \<Longrightarrow> c = 0x20" by (metis xor.left_neutral)
  then show ?thesis by (auto simp: ossl_tolower_def)
qed

lemma strcasehash_loop_eq: "strcasehash_loop cs n ret = strhash_loop (map ossl_tolower cs) n ret"
  by (induction cs n ret rule: strcasehash_loop.induct) (simp_all add: tolower_zero)

text \<open>The case-insensitive string hash is the string hash of the string in lower case, so names
  that differ only in case fall into the same bucket.\<close>

theorem strcasehash_is_strhash_lower:
  "openssl_lh_strcasehash c = OPENSSL_LH_strhash (map_option (map ossl_tolower) c)"
  by (auto simp: openssl_lh_strcasehash_def OPENSSL_LH_strhash_def strcasehash_loop_eq tolower_zero hd_map
      split: option.splits)

end
