(* ===== verification/SM4.thy ===== *)
theory SM4
  imports Prelude
begin

text \<open>
  The block cipher SM4, \<^verbatim>\<open>crypto/sm4/sm4.c\<close>. Blocks and keys are lists of bytes, the state is four 32-bit
  words. The cipher applies its round function byte by byte in the first and last four rounds and
  through a table of precomputed words in the others.
\<close>

section \<open>Tables\<close>

definition SM4_S :: "u8 list" where
  "SM4_S =
    [0xD6, 0x90, 0xE9, 0xFE, 0xCC, 0xE1, 0x3D, 0xB7, 0x16, 0xB6, 0x14, 0xC2, 0x28, 0xFB, 0x2C, 0x05,
     0x2B, 0x67, 0x9A, 0x76, 0x2A, 0xBE, 0x04, 0xC3, 0xAA, 0x44, 0x13, 0x26, 0x49, 0x86, 0x06, 0x99,
     0x9C, 0x42, 0x50, 0xF4, 0x91, 0xEF, 0x98, 0x7A, 0x33, 0x54, 0x0B, 0x43, 0xED, 0xCF, 0xAC, 0x62,
     0xE4, 0xB3, 0x1C, 0xA9, 0xC9, 0x08, 0xE8, 0x95, 0x80, 0xDF, 0x94, 0xFA, 0x75, 0x8F, 0x3F, 0xA6,
     0x47, 0x07, 0xA7, 0xFC, 0xF3, 0x73, 0x17, 0xBA, 0x83, 0x59, 0x3C, 0x19, 0xE6, 0x85, 0x4F, 0xA8,
     0x68, 0x6B, 0x81, 0xB2, 0x71, 0x64, 0xDA, 0x8B, 0xF8, 0xEB, 0x0F, 0x4B, 0x70, 0x56, 0x9D, 0x35,
     0x1E, 0x24, 0x0E, 0x5E, 0x63, 0x58, 0xD1, 0xA2, 0x25, 0x22, 0x7C, 0x3B, 0x01, 0x21, 0x78, 0x87,
     0xD4, 0x00, 0x46, 0x57, 0x9F, 0xD3, 0x27, 0x52, 0x4C, 0x36, 0x02, 0xE7, 0xA0, 0xC4, 0xC8, 0x9E,
     0xEA, 0xBF, 0x8A, 0xD2, 0x40, 0xC7, 0x38, 0xB5, 0xA3, 0xF7, 0xF2, 0xCE, 0xF9, 0x61, 0x15, 0xA1,
     0xE0, 0xAE, 0x5D, 0xA4, 0x9B, 0x34, 0x1A, 0x55, 0xAD, 0x93, 0x32, 0x30, 0xF5, 0x8C, 0xB1, 0xE3,
     0x1D, 0xF6, 0xE2, 0x2E, 0x82, 0x66, 0xCA, 0x60, 0xC0, 0x29, 0x23, 0xAB, 0x0D, 0x53, 0x4E, 0x6F,
     0xD5, 0xDB, 0x37, 0x45, 0xDE, 0xFD, 0x8E, 0x2F, 0x03, 0xFF, 0x6A, 0x72, 0x6D, 0x6C, 0x5B, 0x51,
     0x8D, 0x1B, 0xAF, 0x92, 0xBB, 0xDD, 0xBC, 0x7F, 0x11, 0xD9, 0x5C, 0x41, 0x1F, 0x10, 0x5A, 0xD8,
     0x0A, 0xC1, 0x31, 0x88, 0xA5, 0xCD, 0x7B, 0xBD, 0x2D, 0x74, 0xD0, 0x12, 0xB8, 0xE5, 0xB4, 0xB0,
     0x89, 0x69, 0x97, 0x4A, 0x0C, 0x96, 0x77, 0x7E, 0x65, 0xB9, 0xF1, 0x09, 0xC5, 0x6E, 0xC6, 0x84,
     0x18, 0xF0, 0x7D, 0xEC, 0x3A, 0xDC, 0x4D, 0x20, 0x79, 0xEE, 0x5F, 0x3E, 0xD7, 0xCB, 0x39, 0x48]"

definition SM4_SBOX_T :: "u32 list" where
  "SM4_SBOX_T =
    [0x8ED55B5B, 0xD0924242, 0x4DEAA7A7, 0x06FDFBFB, 0xFCCF3333, 0x65E28787,
     0xC93DF4F4, 0x6BB5DEDE, 0x4E165858, 0x6EB4DADA, 0x44145050, 0xCAC10B0B,
     0x8828A0A0, 0x17F8EFEF, 0x9C2CB0B0, 0x11051414, 0x872BACAC, 0xFB669D9D,
     0xF2986A6A, 0xAE77D9D9, 0x822AA8A8, 0x46BCFAFA, 0x14041010, 0xCFC00F0F,
     0x02A8AAAA, 0x54451111, 0x5F134C4C, 0xBE269898, 0x6D482525, 0x9E841A1A,
     0x1E061818, 0xFD9B6666, 0xEC9E7272, 0x4A430909, 0x10514141, 0x24F7D3D3,
     0xD5934646, 0x53ECBFBF, 0xF89A6262, 0x927BE9E9, 0xFF33CCCC, 0x04555151,
     0x270B2C2C, 0x4F420D0D, 0x59EEB7B7, 0xF3CC3F3F, 0x1CAEB2B2, 0xEA638989,
     0x74E79393, 0x7FB1CECE, 0x6C1C7070, 0x0DABA6A6, 0xEDCA2727, 0x28082020,
     0x48EBA3A3, 0xC1975656, 0x80820202, 0xA3DC7F7F, 0xC4965252, 0x12F9EBEB,
     0xA174D5D5, 0xB38D3E3E, 0xC33FFCFC, 0x3EA49A9A, 0x5B461D1D, 0x1B071C1C,
     0x3BA59E9E, 0x0CFFF3F3, 0x3FF0CFCF, 0xBF72CDCD, 0x4B175C5C, 0x52B8EAEA,
     0x8F810E0E, 0x3D586565, 0xCC3CF0F0, 0x7D196464, 0x7EE59B9B, 0x91871616,
     0x734E3D3D, 0x08AAA2A2, 0xC869A1A1, 0xC76AADAD, 0x85830606, 0x7AB0CACA,
     0xB570C5C5, 0xF4659191, 0xB2D96B6B, 0xA7892E2E, 0x18FBE3E3, 0x47E8AFAF,
     0x330F3C3C, 0x674A2D2D, 0xB071C1C1, 0x0E575959, 0xE99F7676, 0xE135D4D4,
     0x661E7878, 0xB4249090, 0x360E3838, 0x265F7979, 0xEF628D8D, 0x38596161,
     0x95D24747, 0x2AA08A8A, 0xB1259494, 0xAA228888, 0x8C7DF1F1, 0xD73BECEC,
     0x05010404, 0xA5218484, 0x9879E1E1, 0x9B851E1E, 0x84D75353, 0x00000000,
     0x5E471919, 0x0B565D5D, 0xE39D7E7E, 0x9FD04F4F, 0xBB279C9C, 0x1A534949,
     0x7C4D3131, 0xEE36D8D8, 0x0A020808, 0x7BE49F9F, 0x20A28282, 0xD4C71313,
     0xE8CB2323, 0xE69C7A7A, 0x42E9ABAB, 0x43BDFEFE, 0xA2882A2A, 0x9AD14B4B,
     0x40410101, 0xDBC41F1F, 0xD838E0E0, 0x61B7D6D6, 0x2FA18E8E, 0x2BF4DFDF,
     0x3AF1CBCB, 0xF6CD3B3B, 0x1DFAE7E7, 0xE5608585, 0x41155454, 0x25A38686,
     0x60E38383, 0x16ACBABA, 0x295C7575, 0x34A69292, 0xF7996E6E, 0xE434D0D0,
     0x721A6868, 0x01545555, 0x19AFB6B6, 0xDF914E4E, 0xFA32C8C8, 0xF030C0C0,
     0x21F6D7D7, 0xBC8E3232, 0x75B3C6C6, 0x6FE08F8F, 0x691D7474, 0x2EF5DBDB,
     0x6AE18B8B, 0x962EB8B8, 0x8A800A0A, 0xFE679999, 0xE2C92B2B, 0xE0618181,
     0xC0C30303, 0x8D29A4A4, 0xAF238C8C, 0x07A9AEAE, 0x390D3434, 0x1F524D4D,
     0x764F3939, 0xD36EBDBD, 0x81D65757, 0xB7D86F6F, 0xEB37DCDC, 0x51441515,
     0xA6DD7B7B, 0x09FEF7F7, 0xB68C3A3A, 0x932FBCBC, 0x0F030C0C, 0x03FCFFFF,
     0xC26BA9A9, 0xBA73C9C9, 0xD96CB5B5, 0xDC6DB1B1, 0x375A6D6D, 0x15504545,
     0xB98F3636, 0x771B6C6C, 0x13ADBEBE, 0xDA904A4A, 0x57B9EEEE, 0xA9DE7777,
     0x4CBEF2F2, 0x837EFDFD, 0x55114444, 0xBDDA6767, 0x2C5D7171, 0x45400505,
     0x631F7C7C, 0x50104040, 0x325B6969, 0xB8DB6363, 0x220A2828, 0xC5C20707,
     0xF531C4C4, 0xA88A2222, 0x31A79696, 0xF9CE3737, 0x977AEDED, 0x49BFF6F6,
     0x992DB4B4, 0xA475D1D1, 0x90D34343, 0x5A124848, 0x58BAE2E2, 0x71E69797,
     0x64B6D2D2, 0x70B2C2C2, 0xAD8B2626, 0xCD68A5A5, 0xCB955E5E, 0x624B2929,
     0x3C0C3030, 0xCE945A5A, 0xAB76DDDD, 0x867FF9F9, 0xF1649595, 0x5DBBE6E6,
     0x35F2C7C7, 0x2D092424, 0xD1C61717, 0xD66FB9B9, 0xDEC51B1B, 0x94861212,
     0x78186060, 0x30F3C3C3, 0x897CF5F5, 0x5CEFB3B3, 0xD23AE8E8, 0xACDF7373,
     0x794C3535, 0xA0208080, 0x9D78E5E5, 0x56EDBBBB, 0x235E7D7D, 0xC63EF8F8,
     0x8BD45F5F, 0xE7C82F2F, 0xDD39E4E4, 0x68492121]"

definition FK :: "u32 list" where
  "FK = [0xa3b1bac6, 0x56aa3350, 0x677d9197, 0xb27022dc]"

definition CK :: "u32 list" where
  "CK =
    [0x00070E15, 0x1C232A31, 0x383F464D, 0x545B6269,
     0x70777E85, 0x8C939AA1, 0xA8AFB6BD, 0xC4CBD2D9,
     0xE0E7EEF5, 0xFC030A11, 0x181F262D, 0x343B4249,
     0x50575E65, 0x6C737A81, 0x888F969D, 0xA4ABB2B9,
     0xC0C7CED5, 0xDCE3EAF1, 0xF8FF060D, 0x141B2229,
     0x30373E45, 0x4C535A61, 0x686F767D, 0x848B9299,
     0xA0A7AEB5, 0xBCC3CAD1, 0xD8DFE6ED, 0xF4FB0209,
     0x10171E25, 0x2C333A41, 0x484F565D, 0x646B7279]"

section \<open>Rounds\<close>

definition rotl :: "u32 \<Rightarrow> nat \<Rightarrow> u32" where
  "rotl a n = push_bit n a OR drop_bit (32 - n) a"

definition load_u32_be :: "bytes \<Rightarrow> nat \<Rightarrow> u32" where
  "load_u32_be b n =
     push_bit 24 (ucast (b ! (4 * n))) OR push_bit 16 (ucast (b ! (4 * n + 1))) OR
     push_bit 8 (ucast (b ! (4 * n + 2))) OR ucast (b ! (4 * n + 3))"

definition store_u32_be :: "u32 \<Rightarrow> bytes" where
  "store_u32_be v = [ucast (drop_bit 24 v), ucast (drop_bit 16 v), ucast (drop_bit 8 v), ucast v]"

text \<open>The substitution of the four bytes of a word, and the linear transformation after it.\<close>

definition sm4_sub :: "u32 \<Rightarrow> u32" where
  "sm4_sub X =
     push_bit 24 (ucast (SM4_S ! unat (ucast (drop_bit 24 X) :: u8))) OR
     push_bit 16 (ucast (SM4_S ! unat (ucast (drop_bit 16 X) :: u8))) OR
     push_bit 8 (ucast (SM4_S ! unat (ucast (drop_bit 8 X) :: u8))) OR
     ucast (SM4_S ! unat (ucast X :: u8))"

definition sm4_linear :: "u32 \<Rightarrow> u32" where
  "sm4_linear t = t XOR rotl t 2 XOR rotl t 10 XOR rotl t 18 XOR rotl t 24"

definition SM4_T_slow :: "u32 \<Rightarrow> u32" where
  "SM4_T_slow X = sm4_linear (sm4_sub X)"

definition SM4_T :: "u32 \<Rightarrow> u32" where
  "SM4_T X =
     SM4_SBOX_T ! unat (ucast (drop_bit 24 X) :: u8) XOR
     rotl (SM4_SBOX_T ! unat (ucast (drop_bit 16 X) :: u8)) 24 XOR
     rotl (SM4_SBOX_T ! unat (ucast (drop_bit 8 X) :: u8)) 16 XOR
     rotl (SM4_SBOX_T ! unat (ucast X :: u8)) 8"

text \<open>The key schedule: the loop over \<open>i\<close> with the key words \<open>K\<close>, returning the round keys.\<close>

fun set_key_loop :: "u32 list \<Rightarrow> nat list \<Rightarrow> u32 list" where
  "set_key_loop K [] = []"
| "set_key_loop K (i # is) =
     (let X = K ! ((i + 1) mod 4) XOR K ! ((i + 2) mod 4) XOR K ! ((i + 3) mod 4) XOR CK ! i;
          t = sm4_sub X;
          t = t XOR rotl t 13 XOR rotl t 23;
          K = K[i mod 4 := K ! (i mod 4) XOR t] in
      K ! (i mod 4) # set_key_loop K is)"

definition SM4_set_key :: "bytes \<Rightarrow> u32 list" where
  "SM4_set_key key = set_key_loop (map (\<lambda>i. load_u32_be key i XOR FK ! i) [0..<4]) [0..<32]"

type_synonym sm4_state = "u32 \<times> u32 \<times> u32 \<times> u32"

fun SM4_RNDS :: "u32 list \<Rightarrow> nat \<Rightarrow> nat \<Rightarrow> nat \<Rightarrow> nat \<Rightarrow> (u32 \<Rightarrow> u32) \<Rightarrow> sm4_state \<Rightarrow> sm4_state" where
  "SM4_RNDS rk k0 k1 k2 k3 F (B0, B1, B2, B3) =
     (let B0 = B0 XOR F (B1 XOR B2 XOR B3 XOR rk ! k0);
          B1 = B1 XOR F (B0 XOR B2 XOR B3 XOR rk ! k1);
          B2 = B2 XOR F (B0 XOR B1 XOR B3 XOR rk ! k2);
          B3 = B3 XOR F (B0 XOR B1 XOR B2 XOR rk ! k3) in
      (B0, B1, B2, B3))"

definition load_block :: "bytes \<Rightarrow> sm4_state" where
  "load_block b = (load_u32_be b 0, load_u32_be b 1, load_u32_be b 2, load_u32_be b 3)"

fun store_block :: "sm4_state \<Rightarrow> bytes" where
  "store_block (B0, B1, B2, B3) = store_u32_be B3 @ store_u32_be B2 @ store_u32_be B1 @ store_u32_be B0"

definition SM4_encrypt :: "u32 list \<Rightarrow> bytes \<Rightarrow> bytes" where
  "SM4_encrypt rk inp =
     (let s = load_block inp;
          s = SM4_RNDS rk 0 1 2 3 SM4_T_slow s;
          s = SM4_RNDS rk 4 5 6 7 SM4_T s;
          s = SM4_RNDS rk 8 9 10 11 SM4_T s;
          s = SM4_RNDS rk 12 13 14 15 SM4_T s;
          s = SM4_RNDS rk 16 17 18 19 SM4_T s;
          s = SM4_RNDS rk 20 21 22 23 SM4_T s;
          s = SM4_RNDS rk 24 25 26 27 SM4_T s;
          s = SM4_RNDS rk 28 29 30 31 SM4_T_slow s in
      store_block s)"

definition SM4_decrypt :: "u32 list \<Rightarrow> bytes \<Rightarrow> bytes" where
  "SM4_decrypt rk inp =
     (let s = load_block inp;
          s = SM4_RNDS rk 31 30 29 28 SM4_T_slow s;
          s = SM4_RNDS rk 27 26 25 24 SM4_T s;
          s = SM4_RNDS rk 23 22 21 20 SM4_T s;
          s = SM4_RNDS rk 19 18 17 16 SM4_T s;
          s = SM4_RNDS rk 15 14 13 12 SM4_T s;
          s = SM4_RNDS rk 11 10 9 8 SM4_T s;
          s = SM4_RNDS rk 7 6 5 4 SM4_T s;
          s = SM4_RNDS rk 3 2 1 0 SM4_T_slow s in
      store_block s)"

section \<open>The table of precomputed words\<close>

lemma sbox_table: "SM4_SBOX_T = map (\<lambda>s. sm4_linear (push_bit 24 (ucast s))) SM4_S"
  by (simp add: SM4_SBOX_T_def SM4_S_def sm4_linear_def rotl_def)

lemma length_SM4_S: "length SM4_S = 256"
  by (simp add: SM4_S_def)

lemma sbox_nth: "SM4_SBOX_T ! unat b = sm4_linear (push_bit 24 (ucast (SM4_S ! unat (b :: u8))))"
  using unat_lt_256 [of b] by (simp add: sbox_table length_SM4_S)

lemma bit_rotl:
  assumes "n < 32"
  shows "bit (rotl a n) i \<longleftrightarrow> i < 32 \<and> bit a (if n \<le> i then i - n else i + (32 - n))"
proof -
  have "\<not> bit a (i + (32 - n))" if "n \<le> i" using that assms bit_imp_le_length [of a "i + (32 - n)"] by auto
  then show ?thesis using assms
    by (auto simp: rotl_def bit_simps not_le ac_simps dest: bit_imp_le_length)
qed

lemma rotl_rotl:
  assumes "m < 32" "n < 32"
  shows "rotl (rotl a m) n = rotl a ((m + n) mod 32)"
proof (rule bit_word_eqI)
  fix i assume "i < LENGTH(32)"
  then show "bit (rotl (rotl a m) n) i = bit (rotl a ((m + n) mod 32)) i"
    using assms by (auto simp: bit_rotl mod_if ac_simps) 
qed

lemma rotl_xor: "n < 32 \<Longrightarrow> rotl (a XOR b) n = rotl a n XOR rotl b n"
  by (rule bit_word_eqI) (simp add: bit_rotl bit_xor_iff)

lemma linear_xor: "sm4_linear (a XOR b) = sm4_linear a XOR sm4_linear b"
  by (simp add: sm4_linear_def rotl_xor ac_simps)

lemma linear_rotl: "n < 32 \<Longrightarrow> sm4_linear (rotl a n) = rotl (sm4_linear a) n"
  by (simp add: sm4_linear_def rotl_xor rotl_rotl add.commute)

lemma rotl_byte:
  fixes s :: u8
  shows "rotl (push_bit 24 (ucast s)) 24 = push_bit 16 (ucast s)" "rotl (push_bit 24 (ucast s)) 16 = push_bit 8 (ucast s)"
    "rotl (push_bit 24 (ucast s)) 8 = ucast s"
  by (rule bit_word_eqI, auto simp: bit_rotl bit_simps dest: bit_imp_le_length [where 'a = 8])+

lemma bytes_or_xor:
  fixes a b c d :: u8
  shows "push_bit 24 (ucast a) OR push_bit 16 (ucast b) OR push_bit 8 (ucast c) OR ucast d =
    (push_bit 24 (ucast a) XOR push_bit 16 (ucast b) XOR push_bit 8 (ucast c) XOR ucast d :: u32)"
  by (rule bit_word_eqI) (auto simp: bit_simps dest: bit_imp_le_length [where 'a = 8])

lemma SM4_T_eq: "SM4_T X = SM4_T_slow X"
  unfolding SM4_T_def SM4_T_slow_def sm4_sub_def bytes_or_xor sbox_nth linear_xor
  by (simp add: linear_rotl [symmetric] rotl_byte)

section \<open>Inverting the rounds\<close>

fun rev_state :: "sm4_state \<Rightarrow> sm4_state" where
  "rev_state (B0, B1, B2, B3) = (B3, B2, B1, B0)"

lemma xor_cancel: "(a XOR b) XOR b = (a :: 'a::len word)"
  by (simp add: xor.assoc)

lemma rounds_inverse: "SM4_RNDS rk k3 k2 k1 k0 F (rev_state (SM4_RNDS rk k0 k1 k2 k3 F s)) = rev_state s"
proof (cases s)
  case (fields a b c d)
  define a' where "a' = a XOR F (b XOR c XOR d XOR rk ! k0)"
  define b' where "b' = b XOR F (a' XOR c XOR d XOR rk ! k1)"
  define c' where "c' = c XOR F (a' XOR b' XOR d XOR rk ! k2)"
  define d' where "d' = d XOR F (a' XOR b' XOR c' XOR rk ! k3)"
  have r: "SM4_RNDS rk k0 k1 k2 k3 F s = (a', b', c', d')"
    by (simp add: fields Let_def a'_def b'_def c'_def d'_def)
  have "d' XOR F (c' XOR b' XOR a' XOR rk ! k3) = d" by (simp add: d'_def xor_cancel ac_simps)
  moreover have "c' XOR F (d XOR b' XOR a' XOR rk ! k2) = c" by (simp add: c'_def xor_cancel ac_simps)
  moreover have "b' XOR F (d XOR c XOR a' XOR rk ! k1) = b" by (simp add: b'_def xor_cancel ac_simps)
  moreover have "a' XOR F (d XOR c XOR b XOR rk ! k0) = a" by (simp add: a'_def xor_cancel ac_simps)
  ultimately show ?thesis unfolding r by (simp add: fields Let_def)
qed

lemma byte_high: "8 \<le> i \<Longrightarrow> \<not> bit (b :: u8) i"
  using bit_imp_le_length [of b i] by auto

lemma load_store: "load_u32_be (store_u32_be v) 0 = v"
proof (rule bit_word_eqI)
  fix n assume "n < LENGTH(32)"
  then consider "24 \<le> n" "n < 32" | "16 \<le> n" "n < 24" | "8 \<le> n" "n < 16" | "n < 8" by fastforce
  then show "bit (load_u32_be (store_u32_be v) 0) n = bit v n"
    by cases (auto simp: load_u32_be_def store_u32_be_def bit_simps)
qed

lemma store_load:
  assumes "4 * n + 3 < length b"
  shows "store_u32_be (load_u32_be b n) = [b ! (4 * n), b ! (4 * n + 1), b ! (4 * n + 2), b ! (4 * n + 3)]"
  by (auto simp: load_u32_be_def store_u32_be_def bit_simps byte_high intro!: bit_word_eqI)

lemma length_store: "length (store_u32_be v) = 4"
  by (simp add: store_u32_be_def)

lemma length_store_block: "length (store_block s) = 16"
  by (cases s) (simp add: length_store)

lemma load_append:
  "load_u32_be (store_u32_be v @ b) 0 = v" "load_u32_be (store_u32_be v @ b) (Suc n) = load_u32_be b n"
  using load_store [of v] by (simp_all add: load_u32_be_def store_u32_be_def nth_append add.commute)

lemma load_store_block: "load_block (store_block s) = rev_state s"
proof (cases s)
  case (fields a b c d)
  show ?thesis
    using load_append(1) [of a "[]"]
    by (simp add: fields load_block_def load_append numeral_eq_Suc)
qed

lemma store_load_block:
  assumes "length b = 16"
  shows "store_block (rev_state (load_block b)) = b"
proof -
  have "[b ! 0, b ! 1, b ! 2, b ! 3] @ [b ! 4, b ! 5, b ! 6, b ! 7] @ [b ! 8, b ! 9, b ! 10, b ! 11]
      @ [b ! 12, b ! 13, b ! 14, b ! 15] = map ((!) b) [0..<16]"
    by (simp add: upt_rec numeral_eq_Suc)
  also have "\<dots> = b" using assms map_nth [of b] by simp
  finally show ?thesis using assms by (simp add: load_block_def store_load numeral_2_eq_2)
qed

lemma sm4_inverse:
  assumes "length b = 16"
  shows "SM4_decrypt rk (SM4_encrypt rk b) = b \<and> length (SM4_encrypt rk b) = 16"
proof
  define s where "s = SM4_RNDS rk 28 29 30 31 SM4_T_slow (SM4_RNDS rk 24 25 26 27 SM4_T (SM4_RNDS rk 20 21 22 23 SM4_T
    (SM4_RNDS rk 16 17 18 19 SM4_T (SM4_RNDS rk 12 13 14 15 SM4_T (SM4_RNDS rk 8 9 10 11 SM4_T (SM4_RNDS rk 4 5 6 7 SM4_T
    (SM4_RNDS rk 0 1 2 3 SM4_T_slow (load_block b))))))))"
  have e: "SM4_encrypt rk b = store_block s" by (simp add: SM4_encrypt_def s_def Let_def)
  have "SM4_decrypt rk (store_block s) = store_block (rev_state (load_block b))"
    unfolding SM4_decrypt_def Let_def load_store_block s_def rounds_inverse ..
  then show "SM4_decrypt rk (SM4_encrypt rk b) = b" using e store_load_block [OF assms] by simp
  show "length (SM4_encrypt rk b) = 16" unfolding e by (rule length_store_block)
qed

text \<open>C12. SM4 decryption undoes SM4 encryption: for every key schedule and every block of 16 bytes.\<close>

theorem sm4_decrypt_encrypt:
  assumes "length b = 16"
  shows "SM4_decrypt rk (SM4_encrypt rk b) = b \<and> length (SM4_encrypt rk b) = 16"
  using assms by (rule sm4_inverse)

theorem sm4_decrypt_encrypt_witness:
  "SM4_decrypt (SM4_set_key (replicate 16 0xA5)) (SM4_encrypt (SM4_set_key (replicate 16 0xA5)) (replicate 16 0x5A)) = replicate 16 0x5A"
  using sm4_decrypt_encrypt [of "replicate 16 0x5A" "SM4_set_key (replicate 16 0xA5)"] by simp

text \<open>One round as the standard has it, with the state rotated.\<close>

definition sm4_round :: "u32 list \<Rightarrow> nat \<Rightarrow> sm4_state \<Rightarrow> sm4_state" where
  "sm4_round rk i s = (case s of (X0, X1, X2, X3) \<Rightarrow>
     (X1, X2, X3, X0 XOR sm4_linear (sm4_sub (X1 XOR X2 XOR X3 XOR rk ! i))))"

lemma four_rounds:
  "SM4_RNDS rk i (i + 1) (i + 2) (i + 3) F s = fold (sm4_round rk) [i, i + 1, i + 2, i + 3] s"
  if "\<And>X. F X = SM4_T_slow X"
  by (cases s) (simp add: that sm4_round_def SM4_T_slow_def Let_def ac_simps)

text \<open>C13. The table look-ups of the middle rounds compute the round function of the standard: SM4
  encryption is 32 rounds of the byte substitution followed by the linear transformation.\<close>

theorem sm4_encrypt_standard:
  "SM4_encrypt rk b = store_block (fold (sm4_round rk) [0..<32] (load_block b))"
proof -
  have "[0..<32] = [0, 0 + 1, 0 + 2, 0 + 3] @ [4, 4 + 1, 4 + 2, 4 + 3] @ [8, 8 + 1, 8 + 2, 8 + 3] @
      [12, 12 + 1, 12 + 2, 12 + 3] @ [16, 16 + 1, 16 + 2, 16 + 3] @ [20, 20 + 1, 20 + 2, 20 + 3] @
      [24, 24 + 1, 24 + 2, 24 + 3] @ [28, 28 + 1, 28 + 2, 28 + (3 :: nat)]"
    by code_simp
  then show ?thesis
    unfolding SM4_encrypt_def Let_def
    by (simp only: fold_append comp_def four_rounds [OF SM4_T_eq, symmetric] four_rounds [OF refl, symmetric])
      (simp add: SM4_T_eq [abs_def] numeral_2_eq_2)
qed

end
