(* ===== verification/Modes.thy ===== *)
theory Modes
  imports SM4
begin

text \<open>
  Block cipher modes, \<^verbatim>\<open>crypto/modes\<close>: CBC (\<^verbatim>\<open>cbc128.c\<close>), CFB (\<^verbatim>\<open>cfb128.c\<close>), OFB (\<^verbatim>\<open>ofb128.c\<close>), counter mode
  (\<^verbatim>\<open>ctr128.c\<close>) and key wrapping (\<^verbatim>\<open>wrap128.c\<close>). The cipher with its key is a function on blocks of 16
  bytes, a parameter as in the source. Buffers are lists; the loops that combine two machine words at a
  time act on the bytes of the block. On the configured target \<^verbatim>\<open>STRICT_ALIGNMENT\<close> is not set.
\<close>

section \<open>Stream modes\<close>

definition xor_bytes :: "bytes \<Rightarrow> bytes \<Rightarrow> bytes" where
  "xor_bytes xs ys = map2 (\<lambda>x y. x XOR y) xs ys"

text \<open>CFB, OFB and counter mode share the shape of their loops. A state is refilled by a call of the
  block cipher before byte 0 of a block, and \<open>upd st n x\<close> is the output byte and the new state for
  the input byte \<open>x\<close> at offset \<open>n\<close>; \<open>full\<close> does a whole block. First the loop over single bytes.\<close>

fun byte_loop :: "('s \<Rightarrow> 's) \<Rightarrow> ('s \<Rightarrow> nat \<Rightarrow> u8 \<Rightarrow> u8 \<times> 's) \<Rightarrow> bytes \<Rightarrow> 's \<Rightarrow> nat \<Rightarrow> bytes \<times> 's \<times> nat" where
  "byte_loop refill upd [] st n = ([], st, n)"
| "byte_loop refill upd (x # xs) st n =
     (let st = (if n = 0 then refill st else st) in
      case upd st n x of
        (y, st) \<Rightarrow> case byte_loop refill upd xs st ((n + 1) mod 16) of (ys, r) \<Rightarrow> (y # ys, r))"

text \<open>The fast path: the rest of a started block, whole blocks, and the beginning of the last one.\<close>

fun head_loop :: "('s \<Rightarrow> nat \<Rightarrow> u8 \<Rightarrow> u8 \<times> 's) \<Rightarrow> bytes \<Rightarrow> 's \<Rightarrow> nat \<Rightarrow> bytes \<times> bytes \<times> 's \<times> nat" where
  "head_loop upd [] st n = ([], [], st, n)"
| "head_loop upd (x # xs) st n =
     (if n = 0 then ([], x # xs, st, n)
      else case upd st n x of
        (y, st) \<Rightarrow> case head_loop upd xs st ((n + 1) mod 16) of (ys, r) \<Rightarrow> (y # ys, r))"

fun block_loop :: "('s \<Rightarrow> 's) \<Rightarrow> ('s \<Rightarrow> bytes \<Rightarrow> bytes \<times> 's) \<Rightarrow> bytes \<Rightarrow> 's \<Rightarrow> bytes \<times> bytes \<times> 's" where
  "block_loop refill full xs st =
     (if length xs \<ge> 16
      then case full (refill st) (take 16 xs) of
        (y, st) \<Rightarrow> case block_loop refill full (drop 16 xs) st of (ys, r) \<Rightarrow> (y @ ys, r)
      else ([], xs, st))"

declare block_loop.simps [simp del]

fun tail_loop :: "('s \<Rightarrow> nat \<Rightarrow> u8 \<Rightarrow> u8 \<times> 's) \<Rightarrow> bytes \<Rightarrow> 's \<Rightarrow> nat \<Rightarrow> bytes \<times> 's \<times> nat" where
  "tail_loop upd [] st n = ([], st, n)"
| "tail_loop upd (x # xs) st n =
     (case upd st n x of (y, st) \<Rightarrow> case tail_loop upd xs st (n + 1) of (ys, r) \<Rightarrow> (y # ys, r))"

definition fast_loop :: "('s \<Rightarrow> 's) \<Rightarrow> ('s \<Rightarrow> bytes \<Rightarrow> bytes \<times> 's) \<Rightarrow> ('s \<Rightarrow> nat \<Rightarrow> u8 \<Rightarrow> u8 \<times> 's)
    \<Rightarrow> bytes \<Rightarrow> 's \<Rightarrow> nat \<Rightarrow> bytes \<times> 's \<times> nat" where
  "fast_loop refill full upd inp st n =
     (case head_loop upd inp st n of
        (out0, rest, st, n) \<Rightarrow>
          (case block_loop refill full rest st of
             (out1, rest, st) \<Rightarrow>
               if rest \<noteq> [] then
                 (case tail_loop upd rest (refill st) n of (out2, st, n) \<Rightarrow> (out0 @ out1 @ out2, st, n))
               else (out0 @ out1, st, n)))"

subsection \<open>Output feedback\<close>

definition ofb_byte :: "bytes \<Rightarrow> nat \<Rightarrow> u8 \<Rightarrow> u8 \<times> bytes" where
  "ofb_byte ivec n x = (x XOR ivec ! n, ivec)"

definition ofb_block :: "bytes \<Rightarrow> bytes \<Rightarrow> bytes \<times> bytes" where
  "ofb_block ivec xs = (xor_bytes xs ivec, ivec)"

definition CRYPTO_ofb128_encrypt :: "(bytes \<Rightarrow> bytes) \<Rightarrow> bytes \<Rightarrow> bytes \<Rightarrow> nat \<Rightarrow> bytes \<times> bytes \<times> nat" where
  "CRYPTO_ofb128_encrypt block inp ivec num = fast_loop block ofb_block ofb_byte inp ivec num"

definition ofb128_bytewise :: "(bytes \<Rightarrow> bytes) \<Rightarrow> bytes \<Rightarrow> bytes \<Rightarrow> nat \<Rightarrow> bytes \<times> bytes \<times> nat" where
  "ofb128_bytewise block inp ivec num = byte_loop block ofb_byte inp ivec num"

subsection \<open>Cipher feedback\<close>

definition cfb_enc_byte :: "bytes \<Rightarrow> nat \<Rightarrow> u8 \<Rightarrow> u8 \<times> bytes" where
  "cfb_enc_byte ivec n x = (let c = ivec ! n XOR x in (c, ivec[n := c]))"

definition cfb_enc_block :: "bytes \<Rightarrow> bytes \<Rightarrow> bytes \<times> bytes" where
  "cfb_enc_block ivec xs = (let ivec = xor_bytes ivec xs in (ivec, ivec))"

definition cfb_dec_byte :: "bytes \<Rightarrow> nat \<Rightarrow> u8 \<Rightarrow> u8 \<times> bytes" where
  "cfb_dec_byte ivec n c = (ivec ! n XOR c, ivec[n := c])"

definition cfb_dec_block :: "bytes \<Rightarrow> bytes \<Rightarrow> bytes \<times> bytes" where
  "cfb_dec_block ivec xs = (xor_bytes ivec xs, xs)"

definition CRYPTO_cfb128_encrypt :: "(bytes \<Rightarrow> bytes) \<Rightarrow> bool \<Rightarrow> bytes \<Rightarrow> bytes \<Rightarrow> nat \<Rightarrow> bytes \<times> bytes \<times> nat" where
  "CRYPTO_cfb128_encrypt block enc inp ivec num =
     (if enc then fast_loop block cfb_enc_block cfb_enc_byte inp ivec num
      else fast_loop block cfb_dec_block cfb_dec_byte inp ivec num)"

definition cfb128_bytewise :: "(bytes \<Rightarrow> bytes) \<Rightarrow> bool \<Rightarrow> bytes \<Rightarrow> bytes \<Rightarrow> nat \<Rightarrow> bytes \<times> bytes \<times> nat" where
  "cfb128_bytewise block enc inp ivec num =
     (if enc then byte_loop block cfb_enc_byte inp ivec num
      else byte_loop block cfb_dec_byte inp ivec num)"

text \<open>Feedback of \<open>nbits\<close> bits: the vector is shifted left by that much, the new bits come from the
  ciphertext.\<close>

definition cfbr_encrypt_block :: "(bytes \<Rightarrow> bytes) \<Rightarrow> bool \<Rightarrow> nat \<Rightarrow> bytes \<Rightarrow> bytes \<Rightarrow> bytes \<times> bytes" where
  "cfbr_encrypt_block block enc nbits inp ivec =
     (if nbits = 0 \<or> nbits > 128 then ([], ivec)
      else
        let iv = block ivec;
            x = take ((nbits + 7) div 8) inp;
            out = xor_bytes x iv;
            ovec = ivec @ (if enc then out else x);
            rem = nbits mod 8;
            num = nbits div 8 in
        (out,
         if rem = 0 then take 16 (drop num ovec)
         else map (\<lambda>n. push_bit rem (ovec ! (n + num)) OR drop_bit (8 - rem) (ovec ! (n + num + 1))) [0..<16]))"

fun CRYPTO_cfb128_8_encrypt :: "(bytes \<Rightarrow> bytes) \<Rightarrow> bool \<Rightarrow> bytes \<Rightarrow> bytes \<Rightarrow> bytes \<times> bytes" where
  "CRYPTO_cfb128_8_encrypt block enc [] ivec = ([], ivec)"
| "CRYPTO_cfb128_8_encrypt block enc (x # xs) ivec =
     (case cfbr_encrypt_block block enc 8 [x] ivec of
        (out, ivec) \<Rightarrow> case CRYPTO_cfb128_8_encrypt block enc xs ivec of (outs, r) \<Rightarrow> (out @ outs, r))"

text \<open>One bit at a time, the first bit of a byte first; the other bits of the output are kept.\<close>

fun cfb1_loop :: "(bytes \<Rightarrow> bytes) \<Rightarrow> bool \<Rightarrow> bytes \<Rightarrow> nat list \<Rightarrow> bytes \<Rightarrow> bytes \<Rightarrow> bytes \<times> bytes" where
  "cfb1_loop block enc inp [] out ivec = (out, ivec)"
| "cfb1_loop block enc inp (n # ns) out ivec =
     (let c = (if bit (inp ! (n div 8)) (7 - n mod 8) then 0x80 else 0) in
      case cfbr_encrypt_block block enc 1 [c] ivec of
        (d, ivec) \<Rightarrow>
          cfb1_loop block enc inp ns
            (out[n div 8 := (out ! (n div 8) AND NOT (push_bit (7 - n mod 8) 1)) OR drop_bit (n mod 8) (d ! 0 AND 0x80)])
            ivec)"

definition CRYPTO_cfb128_1_encrypt :: "(bytes \<Rightarrow> bytes) \<Rightarrow> bool \<Rightarrow> bytes \<Rightarrow> bytes \<Rightarrow> nat \<Rightarrow> bytes \<Rightarrow> bytes \<times> bytes" where
  "CRYPTO_cfb128_1_encrypt block enc inp out bits ivec = cfb1_loop block enc inp [0..<bits] out ivec"

subsection \<open>Counter mode\<close>

text \<open>The loop that adds the carry \<open>c\<close> to the last \<open>n\<close> bytes of a counter.\<close>

fun inc_loop :: "nat \<Rightarrow> u32 \<Rightarrow> bytes \<Rightarrow> bytes" where
  "inc_loop 0 c counter = counter"
| "inc_loop (Suc n) c counter =
     (let c = c + ucast (counter ! n) in inc_loop n (drop_bit 8 c) (counter[n := ucast c]))"

definition ctr128_inc :: "bytes \<Rightarrow> bytes" where
  "ctr128_inc counter = inc_loop 16 1 counter"

definition ctr96_inc :: "bytes \<Rightarrow> bytes" where
  "ctr96_inc counter = inc_loop 12 1 counter"

text \<open>The state is the counter block and the encrypted counter in use.\<close>

definition ctr_refill :: "(bytes \<Rightarrow> bytes) \<Rightarrow> bytes \<times> bytes \<Rightarrow> bytes \<times> bytes" where
  "ctr_refill block s = (case s of (ivec, ecount_buf) \<Rightarrow> (ctr128_inc ivec, block ivec))"

definition ctr_byte :: "bytes \<times> bytes \<Rightarrow> nat \<Rightarrow> u8 \<Rightarrow> u8 \<times> bytes \<times> bytes" where
  "ctr_byte s n x = (x XOR snd s ! n, s)"

definition ctr_block :: "bytes \<times> bytes \<Rightarrow> bytes \<Rightarrow> bytes \<times> bytes \<times> bytes" where
  "ctr_block s xs = (xor_bytes xs (snd s), s)"

definition CRYPTO_ctr128_encrypt ::
  "(bytes \<Rightarrow> bytes) \<Rightarrow> bytes \<Rightarrow> bytes \<times> bytes \<Rightarrow> nat \<Rightarrow> bytes \<times> (bytes \<times> bytes) \<times> nat" where
  "CRYPTO_ctr128_encrypt block inp s num = fast_loop (ctr_refill block) ctr_block ctr_byte inp s num"

definition ctr128_bytewise ::
  "(bytes \<Rightarrow> bytes) \<Rightarrow> bytes \<Rightarrow> bytes \<times> bytes \<Rightarrow> nat \<Rightarrow> bytes \<times> (bytes \<times> bytes) \<times> nat" where
  "ctr128_bytewise block inp s num = byte_loop (ctr_refill block) ctr_byte inp s num"

text \<open>Counter mode for ciphers that encrypt several blocks per call: \<open>func inp blocks ivec\<close> runs on the last
  32 bits of the counter, the caller sees to the rest of it.\<close>

definition GETU32 :: "bytes \<Rightarrow> u32" where
  "GETU32 p = load_u32_be p 0"

definition PUTU32 :: "u32 \<Rightarrow> bytes" where
  "PUTU32 v = store_u32_be v"

definition set_ctr32 :: "bytes \<Rightarrow> u32 \<Rightarrow> bytes" where
  "set_ctr32 ivec c = (let ivec = take 12 ivec @ PUTU32 c in if c = 0 then ctr96_inc ivec else ivec)"

definition ctr32_blocks :: "nat \<Rightarrow> u32 \<Rightarrow> nat \<times> u32" where
  "ctr32_blocks len ctr32 =
     (let blocks = len div 16;
          blocks = (if blocks > 2 ^ 28 then 2 ^ 28 else blocks);
          ctr32 = ctr32 + of_nat blocks in
      if unat ctr32 < blocks then (blocks - unat ctr32, 0) else (blocks, ctr32))"

lemma ctr32_blocks_pos: "16 \<le> len \<Longrightarrow> 0 < fst (ctr32_blocks len c)"
  by (auto simp: ctr32_blocks_def Let_def)

function ctr32_loop :: "(bytes \<Rightarrow> nat \<Rightarrow> bytes \<Rightarrow> bytes) \<Rightarrow> bytes \<Rightarrow> bytes \<Rightarrow> u32 \<Rightarrow> bytes \<times> bytes \<times> bytes \<times> u32" where
  "ctr32_loop func inp ivec ctr32 =
     (if length inp \<ge> 16 then
        (case ctr32_blocks (length inp) ctr32 of
           (blocks, ctr32) \<Rightarrow>
             let out = func (take (blocks * 16) inp) blocks ivec in
             case ctr32_loop func (drop (blocks * 16) inp) (set_ctr32 ivec ctr32) ctr32 of
               (outs, r) \<Rightarrow> (out @ outs, r))
      else ([], inp, ivec, ctr32))"
  by pat_completeness auto
termination
proof (relation "measure (\<lambda>(func, inp, ivec, ctr32). length inp)")
  fix func :: "bytes \<Rightarrow> nat \<Rightarrow> bytes \<Rightarrow> bytes" and inp ivec out :: bytes and ctr32 c :: u32 and blocks
  assume "16 \<le> length inp" "(blocks, c) = ctr32_blocks (length inp) ctr32"
  then have "0 < blocks" using ctr32_blocks_pos [of "length inp" ctr32] by (metis fst_conv)
  then show "((func, drop (blocks * 16) inp, set_ctr32 ivec c, c), func, inp, ivec, ctr32)
      \<in> measure (\<lambda>(func, inp, ivec, ctr32). length inp)"
    using \<open>16 \<le> length inp\<close> by simp
qed simp

declare ctr32_loop.simps [simp del]

definition CRYPTO_ctr128_encrypt_ctr32 ::
  "(bytes \<Rightarrow> nat \<Rightarrow> bytes \<Rightarrow> bytes) \<Rightarrow> bytes \<Rightarrow> bytes \<times> bytes \<Rightarrow> nat \<Rightarrow> bytes \<times> (bytes \<times> bytes) \<times> nat" where
  "CRYPTO_ctr128_encrypt_ctr32 func inp s num =
     (case head_loop ctr_byte inp s num of
        (out0, rest, (ivec, ecount_buf), n) \<Rightarrow>
          (case ctr32_loop func rest ivec (GETU32 (drop 12 ivec)) of
             (out1, rest, ivec, ctr32) \<Rightarrow>
               if rest \<noteq> [] then
                 let ecount_buf = func (replicate 16 0) 1 ivec;
                     ivec = set_ctr32 ivec (ctr32 + 1) in
                 (case tail_loop ctr_byte rest (ivec, ecount_buf) n of
                    (out2, s, n) \<Rightarrow> (out0 @ out1 @ out2, s, n))
               else (out0 @ out1, (ivec, ecount_buf), n)))"

section \<open>Cipher block chaining\<close>

text \<open>Encryption: the loop over whole blocks, then the loop that fills up the last one with bytes of the
  previous ciphertext block. The second loop does whole blocks too where the first is compiled out.\<close>

fun cbc_enc_blocks :: "(bytes \<Rightarrow> bytes) \<Rightarrow> bytes \<Rightarrow> bytes \<Rightarrow> bytes \<times> bytes \<times> bytes" where
  "cbc_enc_blocks block inp iv =
     (if length inp \<ge> 16 then
        let out = block (xor_bytes (take 16 inp) iv) in
        case cbc_enc_blocks block (drop 16 inp) out of (outs, r) \<Rightarrow> (out @ outs, r)
      else ([], inp, iv))"

fun cbc_enc_tail :: "(bytes \<Rightarrow> bytes) \<Rightarrow> bytes \<Rightarrow> bytes \<Rightarrow> bytes \<times> bytes" where
  "cbc_enc_tail block inp iv =
     (if inp = [] then ([], iv)
      else
        let x = xor_bytes (take 16 inp) iv;
            out = block (x @ drop (length x) iv) in
        if length inp \<le> 16 then (out, out)
        else case cbc_enc_tail block (drop 16 inp) out of (outs, r) \<Rightarrow> (out @ outs, r))"

declare cbc_enc_blocks.simps [simp del] cbc_enc_tail.simps [simp del]

definition CRYPTO_cbc128_encrypt :: "(bytes \<Rightarrow> bytes) \<Rightarrow> bytes \<Rightarrow> bytes \<Rightarrow> bytes \<times> bytes" where
  "CRYPTO_cbc128_encrypt block inp ivec =
     (if inp = [] then ([], ivec)
      else case cbc_enc_blocks block inp ivec of
        (out0, rest, iv) \<Rightarrow> case cbc_enc_tail block rest iv of (out1, iv) \<Rightarrow> (out0 @ out1, iv))"

text \<open>Decryption into another buffer: \<open>inp\<close> has whole blocks, \<open>len\<close> of its bytes are wanted.\<close>

fun cbc_dec_blocks :: "(bytes \<Rightarrow> bytes) \<Rightarrow> bytes \<Rightarrow> nat \<Rightarrow> bytes \<Rightarrow> bytes \<times> bytes \<times> nat \<times> bytes" where
  "cbc_dec_blocks block inp len iv =
     (if len \<ge> 16 then
        let out = xor_bytes (block (take 16 inp)) iv in
        case cbc_dec_blocks block (drop 16 inp) (len - 16) (take 16 inp) of (outs, r) \<Rightarrow> (out @ outs, r)
      else ([], inp, len, iv))"

fun cbc_dec_tail :: "(bytes \<Rightarrow> bytes) \<Rightarrow> bytes \<Rightarrow> nat \<Rightarrow> bytes \<Rightarrow> bytes \<times> bytes" where
  "cbc_dec_tail block inp len ivec =
     (if len = 0 then ([], ivec)
      else
        let out = take len (xor_bytes (block (take 16 inp)) ivec) in
        if len \<le> 16 then (out, take 16 inp)
        else case cbc_dec_tail block (drop 16 inp) (len - 16) (take 16 inp) of (outs, r) \<Rightarrow> (out @ outs, r))"

declare cbc_dec_blocks.simps [simp del] cbc_dec_tail.simps [simp del]

text \<open>Decryption in place: the block at \<open>pos\<close> of the buffer is read, saved as the next vector and
  overwritten.\<close>

definition put_at :: "bytes \<Rightarrow> nat \<Rightarrow> bytes \<Rightarrow> bytes" where
  "put_at buf pos xs = take pos buf @ xs @ drop (pos + length xs) buf"

fun cbc_inplace_blocks :: "(bytes \<Rightarrow> bytes) \<Rightarrow> bytes \<Rightarrow> nat \<Rightarrow> nat \<Rightarrow> bytes \<Rightarrow> bytes \<times> nat \<times> nat \<times> bytes" where
  "cbc_inplace_blocks block buf pos len ivec =
     (if len \<ge> 16 then
        let c = take 16 (drop pos buf);
            tmp = block c in
        cbc_inplace_blocks block (put_at buf pos (xor_bytes tmp ivec)) (pos + 16) (len - 16) c
      else (buf, pos, len, ivec))"

fun cbc_inplace_tail :: "(bytes \<Rightarrow> bytes) \<Rightarrow> bytes \<Rightarrow> nat \<Rightarrow> nat \<Rightarrow> bytes \<Rightarrow> bytes \<times> bytes" where
  "cbc_inplace_tail block buf pos len ivec =
     (if len = 0 then (buf, ivec)
      else
        let c = take 16 (drop pos buf);
            buf = put_at buf pos (take len (xor_bytes (block c) ivec)) in
        if len \<le> 16 then (buf, c)
        else cbc_inplace_tail block buf (pos + 16) (len - 16) c)"

declare cbc_inplace_blocks.simps [simp del] cbc_inplace_tail.simps [simp del]

definition CRYPTO_cbc128_decrypt :: "(bytes \<Rightarrow> bytes) \<Rightarrow> bytes \<Rightarrow> nat \<Rightarrow> bytes \<Rightarrow> bytes \<times> bytes" where
  "CRYPTO_cbc128_decrypt block inp len ivec =
     (if len = 0 then ([], ivec)
      else case cbc_dec_blocks block inp len ivec of
        (out0, rest, l, iv) \<Rightarrow> case cbc_dec_tail block rest l iv of (out1, iv) \<Rightarrow> (out0 @ out1, iv))"

definition cbc128_decrypt_inplace :: "(bytes \<Rightarrow> bytes) \<Rightarrow> bytes \<Rightarrow> nat \<Rightarrow> bytes \<Rightarrow> bytes \<times> bytes" where
  "cbc128_decrypt_inplace block buf len ivec =
     (if len = 0 then (buf, ivec)
      else case cbc_inplace_blocks block buf 0 len ivec of
        (buf, pos, l, iv) \<Rightarrow> cbc_inplace_tail block buf pos l iv)"

section \<open>Key wrapping\<close>

definition default_iv :: bytes where
  "default_iv = replicate 8 0xA6"

definition default_aiv :: bytes where
  "default_aiv = [0xA6, 0x59, 0x59, 0xA6]"

definition CRYPTO128_WRAP_MAX :: nat where
  "CRYPTO128_WRAP_MAX = 2 ^ 31"

text \<open>The step counter \<open>t\<close> is combined with the last four bytes of \<open>A\<close>.\<close>

definition xor_t :: "bytes \<Rightarrow> nat \<Rightarrow> bytes" where
  "xor_t A t =
     (let A = A[7 := A ! 7 XOR of_nat (t mod 256)] in
      if t > 255 then
        let A = A[6 := A ! 6 XOR of_nat (t div 2 ^ 8 mod 256)];
            A = A[5 := A ! 5 XOR of_nat (t div 2 ^ 16 mod 256)] in
        A[4 := A ! 4 XOR of_nat (t div 2 ^ 24 mod 256)]
      else A)"

text \<open>One pass over the 8-byte registers, forwards, with the counter going up.\<close>

fun wrap_pass :: "(bytes \<Rightarrow> bytes) \<Rightarrow> bytes list \<Rightarrow> bytes \<Rightarrow> nat \<Rightarrow> bytes list \<times> bytes \<times> nat" where
  "wrap_pass block [] A t = ([], A, t)"
| "wrap_pass block (R # Rs) A t =
     (let B = block (A @ R) in
      case wrap_pass block Rs (xor_t (take 8 B) t) (t + 1) of (Rs, r) \<Rightarrow> (drop 8 B # Rs, r))"

text \<open>The bytes of a buffer as 8-byte registers.\<close>

fun registers :: "bytes \<Rightarrow> bytes list" where
  "registers bs = (if length bs \<ge> 8 then take 8 bs # registers (drop 8 bs) else [])"

declare registers.simps [simp del]

fun wrap_rounds :: "(bytes \<Rightarrow> bytes) \<Rightarrow> nat \<Rightarrow> bytes list \<Rightarrow> bytes \<Rightarrow> nat \<Rightarrow> bytes list \<times> bytes" where
  "wrap_rounds block 0 Rs A t = (Rs, A)"
| "wrap_rounds block (Suc j) Rs A t = (case wrap_pass block Rs A t of (Rs, A, t) \<Rightarrow> wrap_rounds block j Rs A t)"

text \<open>The result is the length of the output (0 for an error) and the output.\<close>

definition CRYPTO_128_wrap :: "(bytes \<Rightarrow> bytes) \<Rightarrow> bytes option \<Rightarrow> bytes \<Rightarrow> nat \<times> bytes" where
  "CRYPTO_128_wrap block iv inp =
     (let inlen = length inp in
      if inlen mod 8 \<noteq> 0 \<or> inlen < 16 \<or> inlen > CRYPTO128_WRAP_MAX then (0, [])
      else case wrap_rounds block 6 (registers inp) (case iv of None \<Rightarrow> default_iv | Some iv \<Rightarrow> iv) 1 of
        (Rs, A) \<Rightarrow> (inlen + 8, A @ concat Rs))"

text \<open>Unwrapping goes backwards; a pass takes the registers from the last to the first.\<close>

fun unwrap_pass :: "(bytes \<Rightarrow> bytes) \<Rightarrow> bytes list \<Rightarrow> bytes \<Rightarrow> nat \<Rightarrow> bytes list \<times> bytes \<times> nat" where
  "unwrap_pass block [] A t = ([], A, t)"
| "unwrap_pass block (R # Rs) A t =
     (let B = block (xor_t A t @ R) in
      case unwrap_pass block Rs (take 8 B) (t - 1) of (Rs, r) \<Rightarrow> (drop 8 B # Rs, r))"

fun unwrap_rounds :: "(bytes \<Rightarrow> bytes) \<Rightarrow> nat \<Rightarrow> bytes list \<Rightarrow> bytes \<Rightarrow> nat \<Rightarrow> bytes list \<times> bytes" where
  "unwrap_rounds block 0 Rs A t = (Rs, A)"
| "unwrap_rounds block (Suc j) Rs A t =
     (case unwrap_pass block (rev Rs) A t of (Rs, A, t) \<Rightarrow> unwrap_rounds block j (rev Rs) A t)"

text \<open>The result is the length of the output, the vector found and the output. \<open>inlen - 8\<close> wraps around for
  an input of fewer than 8 bytes and is then beyond the limit.\<close>

definition crypto_128_unwrap_raw :: "(bytes \<Rightarrow> bytes) \<Rightarrow> bytes \<Rightarrow> nat \<times> bytes \<times> bytes" where
  "crypto_128_unwrap_raw block inp =
     (let inlen = unat (of_nat (length inp) - 8 :: u64) in
      if inlen mod 8 \<noteq> 0 \<or> inlen < 16 \<or> inlen > CRYPTO128_WRAP_MAX then (0, [], [])
      else case unwrap_rounds block 6 (registers (drop 8 inp)) (take 8 inp) (6 * (inlen div 8)) of
        (Rs, A) \<Rightarrow> (inlen, A, concat Rs))"

definition CRYPTO_128_unwrap :: "(bytes \<Rightarrow> bytes) \<Rightarrow> bytes option \<Rightarrow> bytes \<Rightarrow> nat \<times> bytes" where
  "CRYPTO_128_unwrap block iv inp =
     (case crypto_128_unwrap_raw block inp of
        (ret, got_iv, out) \<Rightarrow>
          if ret = 0 then (0, out)
          else if got_iv \<noteq> (case iv of None \<Rightarrow> default_iv | Some iv \<Rightarrow> iv) then (0, replicate ret 0)
          else (ret, out))"

text \<open>Wrapping with padding keeps its result in an \<^verbatim>\<open>int\<close> before it returns it as a \<^verbatim>\<open>size_t\<close>.\<close>

definition CRYPTO_128_wrap_pad :: "(bytes \<Rightarrow> bytes) \<Rightarrow> bytes option \<Rightarrow> bytes \<Rightarrow> nat \<times> bytes" where
  "CRYPTO_128_wrap_pad block icv inp =
     (let inlen = length inp;
          padded_len = (inlen + 7) div 8 * 8;
          padding_len = padded_len - inlen in
      if inlen = 0 \<or> inlen \<ge> CRYPTO128_WRAP_MAX then (0, [])
      else
        let aiv = (case icv of None \<Rightarrow> default_aiv | Some icv \<Rightarrow> icv) @
              [of_nat (inlen div 2 ^ 24 mod 256), of_nat (inlen div 2 ^ 16 mod 256), of_nat (inlen div 2 ^ 8 mod 256),
               of_nat (inlen mod 256)];
            (ret, out) = (if padded_len = 8
              then (16, block (aiv @ inp @ replicate padding_len 0))
              else CRYPTO_128_wrap block (Some aiv) (inp @ replicate padding_len 0)) in
        (unat (scast (of_nat ret :: u32) :: u64), out))"

definition CRYPTO_128_unwrap_pad :: "(bytes \<Rightarrow> bytes) \<Rightarrow> bytes option \<Rightarrow> bytes \<Rightarrow> nat \<times> bytes" where
  "CRYPTO_128_unwrap_pad block icv inp =
     (let inlen = length inp; n = inlen div 8 - 1 in
      if inlen mod 8 \<noteq> 0 \<or> inlen < 16 \<or> inlen \<ge> CRYPTO128_WRAP_MAX then (0, [])
      else
        case (if inlen = 16 then
                let buff = block inp in (8, 8, take 8 buff, drop 8 buff)
              else case crypto_128_unwrap_raw block inp of (ret, aiv, out) \<Rightarrow> (inlen - 8, ret, aiv, out)) of
          (padded_len, ret, aiv, out) \<Rightarrow>
            if padded_len \<noteq> ret then (0, replicate inlen 0)
            else if take 4 aiv \<noteq> (case icv of None \<Rightarrow> default_aiv | Some icv \<Rightarrow> icv) then (0, replicate inlen 0)
            else
              let ptext_len = be_nat (drop 4 aiv) in
              if 8 * (n - 1) \<ge> ptext_len \<or> ptext_len > 8 * n then (0, replicate inlen 0)
              else if drop ptext_len out \<noteq> replicate (padded_len - ptext_len) 0 then (0, replicate inlen 0)
              else (ptext_len, out))"

section \<open>The fast paths\<close>

lemma byte_loop_within:
  assumes "0 < n" "n < 16" "n + length xs \<le> 16"
  shows "byte_loop refill upd xs st n = (fst (tail_loop upd xs st n), fst (snd (tail_loop upd xs st n)), (n + length xs) mod 16)"
  using assms
proof (induction xs arbitrary: st n)
  case (Cons x xs)
  obtain y st' where u: "upd st n x = (y, st')" by fastforce
  show ?case
  proof (cases "n + 1 = 16")
    case True
    then show ?thesis using Cons.prems u by simp
  next
    case False
    then show ?thesis using Cons.prems Cons.IH [of "n + 1" st'] u by (simp split: prod.splits)
  qed
qed simp

lemma byte_loop_begin:
  assumes "xs \<noteq> []" "length xs \<le> 16"
  shows "byte_loop refill upd xs st 0 =
    (fst (tail_loop upd xs (refill st) 0), fst (snd (tail_loop upd xs (refill st) 0)), length xs mod 16)"
proof (cases xs)
  case (Cons x xs')
  obtain y st' where u: "upd (refill st) 0 x = (y, st')" by fastforce
  show ?thesis using assms(2) byte_loop_within [of 1 xs' refill upd st'] u by (simp add: Cons split: prod.splits)
qed (use assms in simp)

lemma tail_loop_count: "snd (snd (tail_loop upd xs st n)) = n + length xs"
proof (induction xs arbitrary: st n)
  case (Cons x xs)
  obtain y st' where "upd st n x = (y, st')" by fastforce
  then show ?case using Cons.IH [of st' "n + 1"] by (cases "tail_loop upd xs st' (Suc n)") auto
qed simp

lemma head_byte_loop:
  assumes "head_loop upd xs st n = (a, rest, st', n')" "n < 16"
  shows "(rest = [] \<or> n' = 0) \<and> n' < 16 \<and>
    byte_loop refill upd xs st n = (case byte_loop refill upd rest st' n' of (b, r) \<Rightarrow> (a @ b, r))"
  using assms
proof (induction xs arbitrary: st n a)
  case (Cons x xs)
  show ?case
  proof (cases "n = 0")
    case False
    obtain y st1 where u: "upd st n x = (y, st1)" by fastforce
    obtain a' where h: "head_loop upd xs st1 ((n + 1) mod 16) = (a', rest, st', n')" "a = y # a'"
      using Cons.prems(1) False u by (auto split: prod.splits)
    show ?thesis using Cons.IH [OF h(1)] h(2) False u by (simp split: prod.splits)
  qed (use Cons.prems in auto)
qed simp

lemma byte_loop_append:
  "byte_loop refill upd (xs @ ys) st n =
    (case byte_loop refill upd xs st n of
       (a, st, n) \<Rightarrow> case byte_loop refill upd ys st n of (b, r) \<Rightarrow> (a @ b, r))"
  by (induction xs arbitrary: st n) (auto split: prod.splits simp: Let_def)

text \<open>What the fast path relies on: a whole block is its 16 bytes one after another, in states that
  the other operations keep.\<close>

locale stream_mode =
  fixes full :: "'s \<Rightarrow> bytes \<Rightarrow> bytes \<times> 's"
    and upd :: "'s \<Rightarrow> nat \<Rightarrow> u8 \<Rightarrow> u8 \<times> 's"
    and good :: "'s \<Rightarrow> bool"
  assumes good_upd: "good st \<Longrightarrow> good (snd (upd st n x))"
    and full_eq: "good st \<Longrightarrow> length xs = 16 \<Longrightarrow>
      full st xs = (fst (tail_loop upd xs st 0), fst (snd (tail_loop upd xs st 0)))"
begin

lemma good_tail: "good st \<Longrightarrow> good (fst (snd (tail_loop upd xs st n)))"
proof (induction xs arbitrary: st n)
  case (Cons x xs)
  obtain y st' where "upd st n x = (y, st')" by fastforce
  then show ?case using Cons good_upd [of st n x] by (simp split: prod.splits) (metis fst_conv snd_conv)
qed simp

lemma good_head: "good st \<Longrightarrow> head_loop upd xs st n = (a, rest, st', n') \<Longrightarrow> good st'"
proof (induction xs arbitrary: st n a)
  case (Cons x xs)
  obtain y st1 where u: "upd st n x = (y, st1)" by fastforce
  show ?case using Cons.prems Cons.IH [of st1] good_upd [of st n x] u
    by (auto split: prod.splits if_splits)
qed simp

lemma block_byte_loop:
  assumes good_refill: "\<And>st. good st \<Longrightarrow> good (refill st)"
  shows "good st \<Longrightarrow> block_loop refill full xs st = (a, rest, st') \<Longrightarrow>
    good st' \<and> length rest < 16 \<and>
    byte_loop refill upd xs st 0 = (case byte_loop refill upd rest st' 0 of (b, r) \<Rightarrow> (a @ b, r))"
proof (induction "length xs" arbitrary: xs st a rule: less_induct)
  case less
  show ?case
  proof (cases "length xs \<ge> 16")
    case False
    then show ?thesis using less.prems by (auto simp: block_loop.simps [of _ _ xs])
  next
    case True
    let ?t = "tail_loop upd (take 16 xs) (refill st) 0"
    have g: "good (refill st)" using good_refill less.prems(1) .
    have f: "full (refill st) (take 16 xs) = (fst ?t, fst (snd ?t))" using full_eq [OF g] True by simp
    obtain ys where b: "block_loop refill full (drop 16 xs) (fst (snd ?t)) = (ys, rest, st')" "a = fst ?t @ ys"
      using less.prems(2) True f by (auto simp: block_loop.simps [of _ _ xs] split: prod.splits)
    have "byte_loop refill upd (take 16 xs @ drop 16 xs) st 0 =
        (case byte_loop refill upd (drop 16 xs) (fst (snd ?t)) 0 of (b, r) \<Rightarrow> (fst ?t @ b, r))"
    proof -
      have "take 16 xs \<noteq> []" using True by auto
      then show ?thesis unfolding byte_loop_append
        using True byte_loop_begin [of "take 16 xs" refill upd st] by simp
    qed
    then show ?thesis
      using less.hyps [OF _ good_tail [OF g] b(1)] True b(2) by (simp split: prod.splits)
  qed
qed

lemma fast_eq_bytewise:
  assumes good_refill: "\<And>st. good st \<Longrightarrow> good (refill st)" and "good st" "n < 16"
  shows "fast_loop refill full upd xs st n = byte_loop refill upd xs st n"
proof -
  obtain a r1 st1 n1 where h: "head_loop upd xs st n = (a, r1, st1, n1)" by (metis prod_cases4)
  obtain b r2 st2 where k: "block_loop refill full r1 st1 = (b, r2, st2)" by (metis prod_cases3)
  note hb = head_byte_loop [OF h assms(3), of refill]
    and kb = block_byte_loop [OF good_refill good_head [OF assms(2) h] k]
  show ?thesis
  proof (cases "r1 = []")
    case True
    then show ?thesis using h k hb by (simp add: fast_loop_def block_loop.simps)
  next
    case False
    then have n1: "n1 = 0" using hb by simp
    show ?thesis
    proof (cases "r2 = []")
      case True
      then show ?thesis using h k hb kb n1 by (simp add: fast_loop_def)
    next
      case False
      let ?t = "tail_loop upd r2 (refill st2) 0"
      have "byte_loop refill upd r2 st2 0 = ?t"
        using byte_loop_begin [OF False, of refill upd st2] kb tail_loop_count [of upd r2 "refill st2" 0]
        by (simp add: prod_eq_iff)
      then show ?thesis using h k hb kb n1 False by (simp add: fast_loop_def split: prod.splits)
    qed
  qed
qed

end

section \<open>The stream modes as instances\<close>

text \<open>A cipher maps blocks to blocks.\<close>

definition block128 :: "(bytes \<Rightarrow> bytes) \<Rightarrow> bool" where
  "block128 block \<longleftrightarrow> (\<forall>b. length b = 16 \<longrightarrow> length (block b) = 16)"

lemma length_xor_bytes [simp]: "length (xor_bytes xs ys) = min (length xs) (length ys)"
  by (simp add: xor_bytes_def)

lemma xor_bytes_Cons: "xor_bytes (x # xs) (y # ys) = (x XOR y) # xor_bytes xs ys" "xor_bytes [] ys = []" "xor_bytes xs [] = []"
  by (simp_all add: xor_bytes_def)

lemma xor_bytes_cancel: "length xs \<le> length ys \<Longrightarrow> xor_bytes (xor_bytes xs ys) ys = xs"
proof (induction xs arbitrary: ys)
  case (Cons x xs)
  then show ?case by (cases ys) (simp_all add: xor_bytes_Cons xor_cancel)
qed (simp add: xor_bytes_Cons)

lemma xor_bytes_append: "xor_bytes (xs @ ys) zs = xor_bytes xs zs @ xor_bytes ys (drop (length xs) zs)"
proof (induction xs arbitrary: zs)
  case (Cons x xs)
  then show ?case by (cases zs) (simp_all add: xor_bytes_Cons)
qed (simp add: xor_bytes_Cons)

lemma length_inc_loop [simp]: "length (inc_loop n c counter) = length counter"
  by (induction n c counter rule: inc_loop.induct) (simp_all add: Let_def)

lemma length_ctr_inc [simp]: "length (ctr128_inc c) = length c" "length (ctr96_inc c) = length c"
  by (simp_all add: ctr128_inc_def ctr96_inc_def)

lemma ofb_tail:
  "n + length xs \<le> length iv \<Longrightarrow> tail_loop ofb_byte xs iv n = (xor_bytes xs (drop n iv), iv, n + length xs)"
  by (induction xs arbitrary: n) (simp_all add: ofb_byte_def xor_bytes_Cons Cons_nth_drop_Suc [symmetric])

lemma ctr_tail:
  "n + length xs \<le> length (snd s) \<Longrightarrow> tail_loop ctr_byte xs s n = (xor_bytes xs (drop n (snd s)), s, n + length xs)"
  by (induction xs arbitrary: n) (simp_all add: ctr_byte_def xor_bytes_Cons Cons_nth_drop_Suc [symmetric])

lemma cfb_enc_tail:
  "n + length xs \<le> length iv \<Longrightarrow> tail_loop cfb_enc_byte xs iv n =
    (xor_bytes (drop n iv) xs, take n iv @ xor_bytes (drop n iv) xs @ drop (n + length xs) iv, n + length xs)"
proof (induction xs arbitrary: n iv)
  case (Cons x xs)
  then show ?case
    by (simp add: cfb_enc_byte_def Let_def xor_bytes_Cons Cons_nth_drop_Suc [symmetric] take_Suc_conv_app_nth)
qed (simp add: xor_bytes_Cons)

lemma cfb_dec_tail:
  "n + length xs \<le> length iv \<Longrightarrow> tail_loop cfb_dec_byte xs iv n =
    (xor_bytes (drop n iv) xs, take n iv @ xs @ drop (n + length xs) iv, n + length xs)"
proof (induction xs arbitrary: n iv)
  case (Cons x xs)
  then show ?case
    by (simp add: cfb_dec_byte_def xor_bytes_Cons Cons_nth_drop_Suc [symmetric] take_Suc_conv_app_nth)
qed (simp add: xor_bytes_Cons)

interpretation ofb: stream_mode ofb_block ofb_byte "\<lambda>iv. length iv = 16"
  by unfold_locales (simp_all add: ofb_byte_def ofb_block_def ofb_tail)

interpretation cfb_enc: stream_mode cfb_enc_block cfb_enc_byte "\<lambda>iv. length iv = 16"
  by unfold_locales (simp_all add: cfb_enc_byte_def cfb_enc_block_def cfb_enc_tail Let_def)

interpretation cfb_dec: stream_mode cfb_dec_block cfb_dec_byte "\<lambda>iv. length iv = 16"
  by unfold_locales (simp_all add: cfb_dec_byte_def cfb_dec_block_def cfb_dec_tail)

interpretation ctr: stream_mode ctr_block ctr_byte "\<lambda>s. length (fst s) = 16 \<and> length (snd s) = 16"
  by unfold_locales (simp_all add: ctr_byte_def ctr_block_def ctr_tail)

lemma block128_length: "block128 block \<Longrightarrow> length b = 16 \<Longrightarrow> length (block b) = 16"
  by (simp add: block128_def)

lemma ctr_refill_length:
  "block128 block \<Longrightarrow> length (fst s) = 16 \<and> length (snd s) = 16 \<Longrightarrow>
    length (fst (ctr_refill block s)) = 16 \<and> length (snd (ctr_refill block s)) = 16"
  by (cases s) (simp add: ctr_refill_def block128_def)

lemma stream_fast:
  assumes "block128 block" "num < 16"
  shows "length iv = 16 \<Longrightarrow> CRYPTO_ofb128_encrypt block inp iv num = ofb128_bytewise block inp iv num"
    "length iv = 16 \<Longrightarrow> CRYPTO_cfb128_encrypt block enc inp iv num = cfb128_bytewise block enc inp iv num"
    "length (fst s) = 16 \<and> length (snd s) = 16 \<Longrightarrow> CRYPTO_ctr128_encrypt block inp s num = ctr128_bytewise block inp s num"
  using ofb.fast_eq_bytewise [OF block128_length [OF assms(1)] _ assms(2)]
    cfb_enc.fast_eq_bytewise [OF block128_length [OF assms(1)] _ assms(2)]
    cfb_dec.fast_eq_bytewise [OF block128_length [OF assms(1)] _ assms(2)]
    ctr.fast_eq_bytewise [OF ctr_refill_length [OF assms(1)] _ assms(2)]
  by (simp_all add: CRYPTO_ofb128_encrypt_def ofb128_bytewise_def CRYPTO_cfb128_encrypt_def cfb128_bytewise_def
      CRYPTO_ctr128_encrypt_def ctr128_bytewise_def)

text \<open>Where one byte is undone by another operation, so is the loop.\<close>

lemma byte_loop_inverse:
  assumes "\<And>st n x. upd' st n (fst (upd st n x)) = (x, snd (upd st n x))"
  shows "byte_loop refill upd' (fst (byte_loop refill upd xs st n)) st n = (xs, snd (byte_loop refill upd xs st n))"
proof (induction xs arbitrary: st n)
  case (Cons x xs)
  define s where "s = (if n = 0 then refill st else st)"
  show ?case using Cons.IH [of "snd (upd s n x)" "(n + 1) mod 16"] assms [of s n x]
    by (simp add: Let_def case_prod_beta s_def [symmetric])
qed simp

lemma stream_inverse:
  "byte_loop refill ofb_byte (fst (byte_loop refill ofb_byte xs iv n)) iv n = (xs, snd (byte_loop refill ofb_byte xs iv n))"
  "byte_loop refill cfb_dec_byte (fst (byte_loop refill cfb_enc_byte xs iv n)) iv n = (xs, snd (byte_loop refill cfb_enc_byte xs iv n))"
  "byte_loop refill' ctr_byte (fst (byte_loop refill' ctr_byte xs s n)) s n = (xs, snd (byte_loop refill' ctr_byte xs s n))"
proof -
  have x: "a XOR b XOR a = b" for a b :: u8 by (simp add: ac_simps)
  show "byte_loop refill ofb_byte (fst (byte_loop refill ofb_byte xs iv n)) iv n = (xs, snd (byte_loop refill ofb_byte xs iv n))"
    by (rule byte_loop_inverse) (simp add: ofb_byte_def xor_cancel)
  show "byte_loop refill cfb_dec_byte (fst (byte_loop refill cfb_enc_byte xs iv n)) iv n = (xs, snd (byte_loop refill cfb_enc_byte xs iv n))"
    by (rule byte_loop_inverse) (simp add: cfb_enc_byte_def cfb_dec_byte_def Let_def ac_simps)
  show "byte_loop refill' ctr_byte (fst (byte_loop refill' ctr_byte xs s n)) s n = (xs, snd (byte_loop refill' ctr_byte xs s n))"
    by (rule byte_loop_inverse) (simp add: ctr_byte_def xor_cancel)
qed

text \<open>The counter as a number.\<close>

lemma inc_loop_drop: "n \<le> length counter \<Longrightarrow> drop n (inc_loop n c counter) = drop n counter"
proof (induction n arbitrary: c counter)
  case (Suc n)
  let ?u = "counter[n := ucast (c + ucast (counter ! n))]"
  have "drop n (inc_loop n (drop_bit 8 (c + ucast (counter ! n))) ?u) = drop n ?u" using Suc by simp
  then have "drop 1 (drop n (inc_loop n (drop_bit 8 (c + ucast (counter ! n))) ?u)) = drop 1 (drop n ?u)" by simp
  then show ?case by (simp add: Let_def)
qed simp

lemma inc_carry:
  fixes c :: u32 and b :: u8
  assumes "unat c \<le> 1"
  shows "unat (drop_bit 8 (c + ucast b)) = (unat c + unat b) div 256" "unat (ucast (c + ucast b) :: u8) = (unat c + unat b) mod 256"
    "(unat c + unat b) div 256 \<le> 1"
proof -
  have u: "unat (c + ucast b) = unat c + unat b"
    using assms unat_lt_256 [of b] by (subst unat_add_lem [THEN iffD1]) (simp_all add: unsigned_ucast_eq take_bit_nat_eq_self)
  show "unat (drop_bit 8 (c + ucast b)) = (unat c + unat b) div 256"
    by (simp add: drop_bit_eq_div unat_div u)
  show "unat (ucast (c + ucast b) :: u8) = (unat c + unat b) mod 256"
    by (simp add: unsigned_ucast_eq take_bit_eq_mod u)
  show "(unat c + unat b) div 256 \<le> 1" using assms unat_lt_256 [of b] by simp
qed

lemma inc_loop_nat:
  "n \<le> length counter \<Longrightarrow> unat c \<le> 1 \<Longrightarrow>
    be_nat (take n (inc_loop n c counter)) = (be_nat (take n counter) + unat c) mod 256 ^ n"
proof (induction n arbitrary: c counter)
  case (Suc n)
  let ?s = "c + ucast (counter ! n)"
  let ?r = "inc_loop n (drop_bit 8 ?s) (counter[n := ucast ?s])"
  note ic = inc_carry [OF Suc.prems(2), of "counter ! n"]
  have "drop n ?r = drop n (counter[n := ucast ?s])" using Suc.prems by (intro inc_loop_drop) simp
  then have "?r ! n = ucast ?s"
    using Suc.prems(1) by (metis (no_types, lifting) Suc_le_lessD length_inc_loop length_list_update hd_drop_conv_nth nth_list_update_eq)
  then have t: "take (Suc n) ?r = take n ?r @ [ucast ?s]" using Suc.prems(1) by (simp add: take_Suc_conv_app_nth)
  have "be_nat (take n ?r) = (be_nat (take n counter) + (unat c + unat (counter ! n)) div 256) mod 256 ^ n"
    using Suc.IH [of "counter[n := ucast ?s]" "drop_bit 8 ?s"] Suc.prems ic by simp
  then have "be_nat (take (Suc n) (inc_loop (Suc n) c counter)) =
      (be_nat (take n counter) + (unat c + unat (counter ! n)) div 256) mod 256 ^ n * 256 + (unat c + unat (counter ! n)) mod 256"
    using t ic by (simp add: Let_def be_nat_append)
  also have "\<dots> = (be_nat (take n counter) * 256 + (unat c + unat (counter ! n))) mod 256 ^ Suc n"
  proof -
    let ?a = "be_nat (take n counter)" and ?b = "unat c + unat (counter ! n)"
    have "(?a * 256 + ?b) mod (256 * 256 ^ n) = 256 * ((?a * 256 + ?b) div 256 mod 256 ^ n) + (?a * 256 + ?b) mod 256"
      by (rule mod_mult2_eq)
    then show ?thesis by (simp add: mult.commute)
  qed
  finally show ?case using Suc.prems(1) by (simp add: take_Suc_conv_app_nth be_nat_append add.assoc add.commute)
qed simp

lemma ctr128_inc_nat: "length c = 16 \<Longrightarrow> be_nat (ctr128_inc c) = (be_nat c + 1) mod 2 ^ 128"
  using inc_loop_nat [of 16 c 1] by (simp add: ctr128_inc_def)

section \<open>The 32-bit counter\<close>

lemma u32_bound: "unat (c :: u32) < 2 ^ 32"
  using unsigned_less [of c] by simp

lemma nat_be_4:
  "nat_be 4 n = [of_nat (n div 2 ^ 24 mod 256), of_nat (n div 2 ^ 16 mod 256), of_nat (n div 2 ^ 8 mod 256), of_nat (n mod 256)]"
proof -
  have four: "(4 :: nat) = Suc (Suc (Suc (Suc 0)))" by simp
  show ?thesis unfolding four nat_be.simps by (simp add: div_mult2_eq [symmetric])
qed

lemma store_nat_be: "store_u32_be v = nat_be 4 (unat v)"
proof -
  have b: "ucast (drop_bit n v) = (of_nat (unat v div 2 ^ n mod 256) :: u8)" for n
    by (rule word_unat_eq_iff [THEN iffD2])
      (simp only: unsigned_ucast_eq unat_drop_bit, simp add: take_bit_eq_mod unat_of_nat)
  show ?thesis using b [of 24] b [of 16] b [of 8] b [of 0] by (simp add: store_u32_be_def nat_be_4)
qed

lemma be_nat_PUTU32: "be_nat (PUTU32 c) = unat c"
  using u32_bound [of c] by (simp add: PUTU32_def store_nat_be be_nat_nat_be)

lemma unat_GETU32:
  assumes "length p = 4"
  shows "unat (GETU32 p) = be_nat p"
proof -
  have "PUTU32 (GETU32 p) = p"
    using assms store_load [of 0 p] map_nth [of p] by (simp add: PUTU32_def GETU32_def upt_rec numeral_2_eq_2 numeral_3_eq_3)
  then show ?thesis by (metis be_nat_PUTU32)
qed

lemma length_PUTU32 [simp]: "length (PUTU32 c) = 4"
  by (simp add: PUTU32_def length_store)

lemma length_set_ctr32: "length iv = 16 \<Longrightarrow> length (set_ctr32 iv c) = 16"
  by (simp add: set_ctr32_def Let_def)

lemma be_nat_take_drop: "be_nat xs = be_nat (take n xs) * 256 ^ length (drop n xs) + be_nat (drop n xs)"
  by (metis append_take_drop_id be_nat_append)

lemma ctr96_inc_nat:
  assumes "length iv = 16"
  shows "be_nat (ctr96_inc iv) = (be_nat (take 12 iv) + 1) mod 2 ^ 96 * 2 ^ 32 + be_nat (drop 12 iv)"
  using be_nat_take_drop [of "ctr96_inc iv" 12] inc_loop_nat [of 12 iv 1] inc_loop_drop [of 12 iv 1] assms
  by (simp add: ctr96_inc_def)

lemma split_increment:
  fixes hi g m k :: nat
  assumes "g < k" "hi < m"
  shows "(hi * k + g + 1) mod (m * k) = (if g + 1 = k then (hi + 1) mod m * k else hi * k + (g + 1))"
proof (cases "g + 1 = k")
  case True
  then have "hi * k + g + 1 = (hi + 1) * k" by (simp add: algebra_simps)
  then show ?thesis using True by (metis mod_mult_mult2)
next
  case False
  have "(hi + 1) * k \<le> m * k" using assms(2) by (intro mult_right_mono) simp_all
  then have "hi * k + g + 1 < m * k" using False assms(1) by simp
  then show ?thesis using False by simp
qed

text \<open>Incrementing the 128-bit counter is incrementing its last word, with the carry handed on.\<close>

lemma ctr128_inc_split:
  assumes iv: "length iv = 16"
  shows "ctr128_inc iv = set_ctr32 iv (GETU32 (drop 12 iv) + 1)"
proof (rule be_nat_inject)
  show "length (ctr128_inc iv) = length (set_ctr32 iv (GETU32 (drop 12 iv) + 1))"
    using iv length_set_ctr32 [OF iv] by simp
  define hi where "hi = be_nat (take 12 iv)"
  define g where "g = GETU32 (drop 12 iv)"
  have "unat g = be_nat (drop 12 iv)" using iv by (simp add: unat_GETU32 g_def)
  then have split: "be_nat iv = hi * 2 ^ 32 + unat g" using be_nat_take_drop [of iv 12] iv by (simp add: hi_def)
  have hi: "hi < 2 ^ 96" using be_nat_bound [of "take 12 iv"] iv by (simp add: hi_def)
  have "(2 :: nat) ^ 128 = 2 ^ 96 * 2 ^ 32" by simp
  then have inc: "be_nat (ctr128_inc iv) = (if unat g + 1 = 2 ^ 32 then (hi + 1) mod 2 ^ 96 * 2 ^ 32 else hi * 2 ^ 32 + (unat g + 1))"
    using ctr128_inc_nat [OF iv] split split_increment [OF u32_bound [of g] hi] by (simp only:)
  have u: "unat (g + 1) = (if unat g + 1 = 2 ^ 32 then 0 else unat g + 1)"
  proof -
    have "unat (g + 1) = (unat g + 1) mod 2 ^ 32" by (simp add: unat_word_ariths)
    then show ?thesis using u32_bound [of g] by (auto simp: less_Suc_eq)
  qed
  have "be_nat (set_ctr32 iv (g + 1)) = (if unat g + 1 = 2 ^ 32 then (hi + 1) mod 2 ^ 96 * 2 ^ 32 else hi * 2 ^ 32 + (unat g + 1))"
  proof (cases "unat g + 1 = 2 ^ 32")
    case True
    then have z: "g + 1 = 0" using u by (simp add: unat_eq_zero)
    have "be_nat (set_ctr32 iv (g + 1)) = be_nat (ctr96_inc (take 12 iv @ PUTU32 0))"
      unfolding z set_ctr32_def Let_def by simp
    also have "\<dots> = (hi + 1) mod 2 ^ 96 * 2 ^ 32"
      using ctr96_inc_nat [of "take 12 iv @ PUTU32 0"] iv be_nat_PUTU32 [of 0] by (simp add: hi_def)
    finally show ?thesis unfolding if_P [OF True] .
  next
    case False
    have "unat (g + 1) = unat g + 1" using u unfolding if_not_P [OF False] .
    then have "g + 1 \<noteq> 0" by (metis One_nat_def add_is_0 one_neq_zero unat_0)
    then have "be_nat (set_ctr32 iv (g + 1)) = hi * 2 ^ 32 + unat (g + 1)"
      using iv by (simp add: set_ctr32_def Let_def be_nat_append be_nat_PUTU32 hi_def)
    then show ?thesis unfolding u using False by (simp only: if_False)
  qed
  then show "be_nat (ctr128_inc iv) = be_nat (set_ctr32 iv (GETU32 (drop 12 iv) + 1))"
    unfolding g_def [symmetric] using inc by (simp only:)
qed

text \<open>What the caller relies on in a multi-block function: it encrypts \<open>blocks\<close> counter blocks that
  differ in the last 32 bits, counting modulo 2^32.\<close>

fun ctr32_stream :: "(bytes \<Rightarrow> bytes) \<Rightarrow> bytes \<Rightarrow> nat \<Rightarrow> bytes \<Rightarrow> bytes" where
  "ctr32_stream block inp 0 ivec = []"
| "ctr32_stream block inp (Suc blocks) ivec =
     xor_bytes (take 16 inp) (block ivec) @
     ctr32_stream block (drop 16 inp) blocks (take 12 ivec @ PUTU32 (GETU32 (drop 12 ivec) + 1))"

definition ctr128_f :: "(bytes \<Rightarrow> bytes) \<Rightarrow> (bytes \<Rightarrow> nat \<Rightarrow> bytes \<Rightarrow> bytes) \<Rightarrow> bool" where
  "ctr128_f block func \<longleftrightarrow> (\<forall>inp blocks ivec. length ivec = 16 \<longrightarrow> length inp = blocks * 16 \<longrightarrow>
     func inp blocks ivec = ctr32_stream block inp blocks ivec)"

lemma GETU32_PUTU32: "GETU32 (PUTU32 c) = c"
  using load_store by (simp add: GETU32_def PUTU32_def)

lemma PUTU32_GETU32: "length p = 4 \<Longrightarrow> PUTU32 (GETU32 p) = p"
  by (rule be_nat_inject) (simp_all add: be_nat_PUTU32 unat_GETU32)

lemma ctr_block_loop_Suc:
  assumes "length xs \<ge> 16"
  shows "block_loop (ctr_refill block) ctr_block xs (iv, ec) =
    (case block_loop (ctr_refill block) ctr_block (drop 16 xs) (ctr128_inc iv, block iv) of
       (ys, r) \<Rightarrow> (xor_bytes (take 16 xs) (block iv) @ ys, r))"
  using assms by (simp add: block_loop.simps [of _ _ xs] ctr_refill_def ctr_block_def)

text \<open>The last word after the increments: zero exactly when the carry was handed on.\<close>

lemma GETU32_set:
  assumes "length iv = 16"
  shows "GETU32 (drop 12 (set_ctr32 iv c)) = c"
proof (cases "c = 0")
  case True
  have "drop 12 (ctr96_inc (take 12 iv @ PUTU32 0)) = PUTU32 0"
    using inc_loop_drop [of 12 "take 12 iv @ PUTU32 0" 1] assms by (simp add: ctr96_inc_def)
  then show ?thesis using True by (simp add: set_ctr32_def GETU32_PUTU32)
qed (use assms in \<open>simp add: set_ctr32_def GETU32_PUTU32\<close>)

text \<open>\<open>k\<close> blocks at once, up to the point where the 32-bit counter comes to zero.\<close>

lemma ctr32_run:
  assumes "length iv = 16" "0 < k" "k * 16 \<le> length xs" "unat (GETU32 (drop 12 iv)) + k \<le> 2 ^ 32"
  shows "\<exists>ec'. block_loop (ctr_refill block) ctr_block xs (iv, ec) =
    (case block_loop (ctr_refill block) ctr_block (drop (k * 16) xs) (set_ctr32 iv (GETU32 (drop 12 iv) + of_nat k), ec') of
       (ys, r) \<Rightarrow> (ctr32_stream block (take (k * 16) xs) k iv @ ys, r))"
  using assms
proof (induction k arbitrary: xs iv ec)
  case (Suc k)
  let ?g = "GETU32 (drop 12 iv)"
  let ?iv = "take 12 iv @ PUTU32 (?g + 1)"
  have xs: "length xs \<ge> 16" using Suc.prems by simp
  show ?case
  proof (cases "k = 0")
    case True
    then show ?thesis using ctr_block_loop_Suc [OF xs, of block iv ec] ctr128_inc_split [OF Suc.prems(1)] by auto
  next
    case False
    have "unat ?g + 1 < 2 ^ 32" using Suc.prems(4) False by linarith
    then have u: "unat (?g + 1) = unat ?g + 1" by (simp add: unat_word_ariths)
    then have "?g + 1 \<noteq> 0" by (metis One_nat_def add_is_0 one_neq_zero unat_0)
    then have inc: "ctr128_inc iv = ?iv" using ctr128_inc_split [OF Suc.prems(1)] by (simp add: set_ctr32_def)
    have g: "GETU32 (drop 12 ?iv) = ?g + 1" using Suc.prems(1) by (simp add: GETU32_PUTU32)
    have "length ?iv = 16" using Suc.prems(1) by simp
    moreover have "0 < k" "k * 16 \<le> length (drop 16 xs)" using Suc.prems(3) False by simp_all
    moreover have "unat (GETU32 (drop 12 ?iv)) + k \<le> 2 ^ 32" unfolding g u using Suc.prems(4) by linarith
    ultimately obtain ec' where r:
      "block_loop (ctr_refill block) ctr_block (drop 16 xs) (?iv, block iv) =
        (case block_loop (ctr_refill block) ctr_block (drop (k * 16) (drop 16 xs)) (set_ctr32 ?iv (?g + 1 + of_nat k), ec') of
         (ys, r) \<Rightarrow> (ctr32_stream block (take (k * 16) (drop 16 xs)) k ?iv @ ys, r))"
      using Suc.IH [of ?iv "drop 16 xs" "block iv"] unfolding g by blast
    have d: "drop (k * 16) (drop 16 xs) = drop (Suc k * 16) xs" by (simp add: add.commute)
    have c: "set_ctr32 ?iv (?g + 1 + of_nat k) = set_ctr32 iv (?g + of_nat (Suc k))"
      using Suc.prems(1) by (simp add: set_ctr32_def add.assoc)
    have "ctr32_stream block (take (Suc k * 16) xs) (Suc k) iv =
        xor_bytes (take 16 xs) (block iv) @ ctr32_stream block (take (k * 16) (drop 16 xs)) k ?iv"
      by (simp add: drop_take min_def)
    then show ?thesis
      unfolding ctr_block_loop_Suc [OF xs, of block iv ec] inc r d c
      by (intro exI [of _ ec']) (simp only: split_beta fst_conv snd_conv append_assoc)
  qed
qed simp

lemma ctr32_blocks_ok:
  assumes "ctr32_blocks len g = (blocks, c)" "16 \<le> len"
  shows "0 < blocks" "blocks * 16 \<le> len" "unat g + blocks \<le> 2 ^ 32" "c = g + of_nat blocks"
proof -
  define b where "b = (if len div 16 > 2 ^ 28 then 2 ^ 28 else len div 16)"
  have b: "b * 16 \<le> len" "b \<le> 2 ^ 28" by (auto simp: b_def)
  have r: "(blocks, c) = (if unat (g + of_nat b) < b then (b - unat (g + of_nat b), 0) else (b, g + of_nat b))"
    using assms(1) unfolding ctr32_blocks_def Let_def b_def [symmetric] by simp
  have u: "unat (g + of_nat b) = (unat g + b) mod 2 ^ 32"
    using b(2) by (simp add: unat_word_ariths unat_of_nat mod_add_right_eq)
  show "0 < blocks" using ctr32_blocks_pos [OF assms(2), of g] assms(1) by simp
  show "blocks * 16 \<le> len" using r b(1) by (auto split: if_splits)
  consider (fits) "unat g + b < 2 ^ 32" | (wraps) "2 ^ 32 \<le> unat g + b" by linarith
  then have "unat g + blocks \<le> 2 ^ 32 \<and> c = g + of_nat blocks"
  proof cases
    case fits
    then show ?thesis using r u by simp
  next
    case wraps
    then have v: "unat (g + of_nat b) = unat g + b - 2 ^ 32"
      using u u32_bound [of g] b(2) by (simp add: le_mod_geq)
    then have "unat (g + of_nat b) < b" using wraps u32_bound [of g] by linarith
    then have bc: "blocks = b - unat (g + of_nat b)" "c = 0" using r by (simp_all split: if_splits)
    then have s: "unat g + blocks = 2 ^ 32" using v wraps u32_bound [of g] by linarith
    have "g + of_nat blocks = of_nat (unat g + blocks)" by simp
    also have "\<dots> = 0" unfolding s by simp
    finally show ?thesis using s bc(2) by (metis order_refl)
  qed
  then show "unat g + blocks \<le> 2 ^ 32" "c = g + of_nat blocks" by auto
qed

lemma ctr32_loop_eq:
  assumes "ctr128_f block func" "length iv = 16" "ctr32_loop func xs iv (GETU32 (drop 12 iv)) = (ys, rest, iv', c)"
  shows "length rest < 16 \<and> length iv' = 16 \<and> c = GETU32 (drop 12 iv') \<and>
    (\<exists>ec'. block_loop (ctr_refill block) ctr_block xs (iv, ec) = (ys, rest, iv', ec') \<and> (rest = xs \<longrightarrow> ec' = ec))"
  using assms(2,3)
proof (induction "length xs" arbitrary: xs iv ys ec rule: less_induct)
  case less
  let ?g = "GETU32 (drop 12 iv)"
  show ?case
  proof (cases "length xs \<ge> 16")
    case False
    then show ?thesis using less.prems by (auto simp: ctr32_loop.simps [of _ xs] block_loop.simps [of _ _ rest])
  next
    case True
    obtain k d where kd: "ctr32_blocks (length xs) ?g = (k, d)" by fastforce
    note k = ctr32_blocks_ok [OF kd True]
    let ?iv = "set_ctr32 iv d"
    have f: "func (take (k * 16) xs) k iv = ctr32_stream block (take (k * 16) xs) k iv"
      using assms(1) less.prems(1) k(2) by (simp add: ctr128_f_def)
    obtain zs where z: "ctr32_loop func (drop (k * 16) xs) ?iv d = (zs, rest, iv', c)"
      "ys = ctr32_stream block (take (k * 16) xs) k iv @ zs"
      using less.prems(2) True kd f by (auto simp: ctr32_loop.simps [of _ xs] Let_def split: prod.splits)
    have l: "length (drop (k * 16) xs) < length xs" using k(1) True by simp
    have iv: "length ?iv = 16" "GETU32 (drop 12 ?iv) = d"
      using length_set_ctr32 [OF less.prems(1)] GETU32_set [OF less.prems(1)] by simp_all
    obtain ec1 where b: "block_loop (ctr_refill block) ctr_block xs (iv, ec) =
        (case block_loop (ctr_refill block) ctr_block (drop (k * 16) xs) (?iv, ec1) of
           (ys, r) \<Rightarrow> (ctr32_stream block (take (k * 16) xs) k iv @ ys, r))"
      using ctr32_run [OF less.prems(1) k(1,2,3), of block ec] k(4) by blast
    have h: "length rest < 16 \<and> length iv' = 16 \<and> c = GETU32 (drop 12 iv') \<and>
        (\<exists>ec'. block_loop (ctr_refill block) ctr_block (drop (k * 16) xs) (?iv, ec1) = (zs, rest, iv', ec')
           \<and> (rest = drop (k * 16) xs \<longrightarrow> ec' = ec1))"
      by (rule less.hyps [OF l iv(1)]) (simp add: iv(2) z(1))
    then have "rest \<noteq> xs" using True by auto
    then show ?thesis using h b z(2) by auto
  qed
qed

lemma xor_bytes_zero: "xor_bytes (replicate (length ys) 0) ys = ys"
  by (induction ys) (simp_all add: xor_bytes_Cons)

lemma ctr32_eq:
  assumes f: "ctr128_f block func" "block128 block" and iv: "length (fst s) = 16" "length (snd s) = 16" and n: "num < 16"
    and a: "CRYPTO_ctr128_encrypt_ctr32 func inp s num = (out, (iv1, ec1), n1)"
    and b: "CRYPTO_ctr128_encrypt block inp s num = (out', (iv2, ec2), n2)"
  shows "out = out' \<and> iv1 = iv2 \<and> n1 = n2 \<and> (n1 \<noteq> 0 \<longrightarrow> ec1 = ec2)"
proof -
  obtain o0 r0 v0 e0 n0 where h: "head_loop ctr_byte inp s num = (o0, r0, (v0, e0), n0)" by (metis prod_cases4 surj_pair)
  have g: "length v0 = 16" "length e0 = 16" using ctr.good_head [OF _ h] iv by simp_all
  have n0: "r0 = [] \<or> n0 = 0" using head_byte_loop [OF h n] by blast
  obtain o1 r1 v1 c1 where l: "ctr32_loop func r0 v0 (GETU32 (drop 12 v0)) = (o1, r1, v1, c1)" by (metis prod_cases4)
  obtain e1 where e: "length r1 < 16" "length v1 = 16" "c1 = GETU32 (drop 12 v1)"
    "block_loop (ctr_refill block) ctr_block r0 (v0, e0) = (o1, r1, v1, e1)" "r1 = r0 \<longrightarrow> e1 = e0"
    using ctr32_loop_eq [OF f(1) g(1) l, of e0] by blast
  show ?thesis
  proof (cases "r1 = []")
    case True
    then have "n0 \<noteq> 0 \<longrightarrow> e1 = e0" using n0 e(5) by auto
    then show ?thesis using a b h l e(4) True
      by (simp add: CRYPTO_ctr128_encrypt_ctr32_def CRYPTO_ctr128_encrypt_def fast_loop_def)
  next
    case False
    have "func (replicate 16 0) 1 v1 = xor_bytes (replicate 16 0) (block v1)"
      using f(1) e(2) by (simp add: ctr128_f_def)
    also have "\<dots> = block v1" using xor_bytes_zero [of "block v1"] block128_length [OF f(2) e(2)] by simp
    finally have "(set_ctr32 v1 (c1 + 1), func (replicate 16 0) 1 v1) = ctr_refill block (v1, e1)"
      using ctr128_inc_split [OF e(2)] e(3) by (simp add: ctr_refill_def)
    then show ?thesis using a b h l e(4) False
      by (simp add: CRYPTO_ctr128_encrypt_ctr32_def CRYPTO_ctr128_encrypt_def fast_loop_def Let_def)
  qed
qed

section \<open>Chaining\<close>

text \<open>The contract of a block cipher with its inverse.\<close>

locale block_cipher =
  fixes enc :: "bytes \<Rightarrow> bytes" and dec :: "bytes \<Rightarrow> bytes"
  assumes length_enc: "length b = 16 \<Longrightarrow> length (enc b) = 16"
    and dec_enc: "length b = 16 \<Longrightarrow> dec (enc b) = b"
begin

lemma cbc_blocks:
  assumes "length iv = 16" "cbc_enc_blocks enc inp iv = (out, rest, iv')"
  shows "length iv' = 16 \<and> length rest < 16 \<and> 16 dvd length out \<and> length inp = length out + length rest \<and> inp = take (length out) inp @ rest \<and>
    cbc_dec_blocks dec (out @ more) (length inp) iv = (take (length out) inp, more, length rest, iv')"
  using assms
proof (induction "length inp" arbitrary: inp iv out rule: less_induct)
  case less
  show ?case
  proof (cases "length inp \<ge> 16")
    case False
    then show ?thesis using less.prems by (auto simp: cbc_enc_blocks.simps [of _ inp] cbc_dec_blocks.simps [of _ _ "length rest"])
  next
    case True
    let ?o = "enc (xor_bytes (take 16 inp) iv)"
    have x: "length (xor_bytes (take 16 inp) iv) = 16" using True less.prems(1) by simp
    have l: "length ?o = 16" using length_enc [OF x] .
    obtain outs where e: "cbc_enc_blocks enc (drop 16 inp) ?o = (outs, rest, iv')" "out = ?o @ outs"
      using less.prems(2) True by (auto simp: cbc_enc_blocks.simps [of _ inp] Let_def split: prod.splits)
    have ih: "length iv' = 16 \<and> length rest < 16 \<and> 16 dvd length outs \<and> length (drop 16 inp) = length outs + length rest \<and>
        drop 16 inp = take (length outs) (drop 16 inp) @ rest \<and>
        cbc_dec_blocks dec (outs @ more) (length (drop 16 inp)) ?o = (take (length outs) (drop 16 inp), more, length rest, iv')"
      by (rule less.hyps [OF _ l e(1)]) (use True in simp)
    have "xor_bytes (dec ?o) iv = take 16 inp"
      using dec_enc [OF x] True less.prems(1) by (simp add: xor_bytes_cancel)
    then have "cbc_dec_blocks dec (out @ more) (length inp) iv = (take 16 inp @ take (length outs) (drop 16 inp), more, length rest, iv')"
    proof -
      have "cbc_dec_blocks dec (outs @ more) (length inp - 16) ?o = (take (length outs) (drop 16 inp), more, length rest, iv')"
        using ih unfolding length_drop by blast
      then show ?thesis using \<open>xor_bytes (dec ?o) iv = take 16 inp\<close> True l e(2)
        by (simp add: cbc_dec_blocks.simps [of _ _ "length inp"] Let_def)
    qed
    moreover have "take (length out) inp = take 16 inp @ take (length outs) (drop 16 inp)" using l e(2) by (simp add: take_add)
    moreover have "inp = take 16 inp @ take (length outs) (drop 16 inp) @ rest" using ih by (metis append_take_drop_id)
    ultimately show ?thesis using ih True l e(2) by auto
  qed
qed

lemma cbc_tail:
  assumes "length iv = 16" "length inp < 16" "cbc_enc_tail enc inp iv = (out, iv')"
  shows "cbc_dec_tail dec (out @ more) (length inp) iv = (inp, iv') \<and> length out = (if inp = [] then 0 else 16)"
proof (cases "inp = []")
  case True
  then show ?thesis using assms by (simp add: cbc_enc_tail.simps cbc_dec_tail.simps)
next
  case False
  let ?x = "xor_bytes inp iv"
  have l: "length ?x = length inp" using assms by simp
  then have x: "length (?x @ drop (length ?x) iv) = 16" using assms by simp
  have o: "out = enc (?x @ drop (length ?x) iv)" "iv' = out"
    using assms(2,3) False by (auto simp: cbc_enc_tail.simps Let_def)
  have "take (length inp) (xor_bytes (?x @ drop (length ?x) iv) iv) = xor_bytes ?x iv"
    using l by (simp add: xor_bytes_append)
  then have "take (length inp) (xor_bytes (dec out) iv) = inp"
    using dec_enc [OF x] o(1) assms by (simp add: xor_bytes_cancel)
  then show ?thesis using o length_enc [OF x] assms(2) False by (simp add: cbc_dec_tail.simps Let_def)
qed

lemma cbc_roundtrip:
  assumes "length iv = 16" "CRYPTO_cbc128_encrypt enc inp iv = (out, iv')"
  shows "CRYPTO_cbc128_decrypt dec (out @ more) (length inp) iv = (inp, iv') \<and> length out = (length inp + 15) div 16 * 16"
proof (cases "inp = []")
  case True
  then show ?thesis using assms by (simp add: CRYPTO_cbc128_encrypt_def CRYPTO_cbc128_decrypt_def)
next
  case False
  obtain o0 rest iv1 where b: "cbc_enc_blocks enc inp iv = (o0, rest, iv1)" by (metis prod_cases3)
  obtain o1 iv2 where t: "cbc_enc_tail enc rest iv1 = (o1, iv2)" by fastforce
  have o: "out = o0 @ o1" "iv' = iv2" using assms(2) False b t by (simp_all add: CRYPTO_cbc128_encrypt_def)
  note c = cbc_blocks [OF assms(1) b, of "o1 @ more"]
  have d: "cbc_dec_blocks dec (out @ more) (length inp) iv = (take (length o0) inp, o1 @ more, length rest, iv1)"
    and r: "inp = take (length o0) inp @ rest" using c unfolding o append_assoc by blast+
  have t': "cbc_dec_tail dec (o1 @ more) (length rest) iv1 = (rest, iv2)" "length o1 = (if rest = [] then 0 else 16)"
    using cbc_tail [of iv1 rest o1 iv2 more] t c by auto
  have "length out = (length inp + 15) div 16 * 16"
  proof -
    obtain k where k: "length o0 = 16 * k" using c by (auto elim: dvdE)
    have "(length inp + 15) div 16 = k + (length rest + 15) div 16" using c k by (simp add: add.assoc)
    moreover have "(length rest + 15) div 16 = (if rest = [] then 0 else 1)"
    proof (cases "rest = []")
      case False
      then have "0 < length rest" "length rest < 16" using c by auto
      then show ?thesis using False by presburger
    qed simp
    ultimately show ?thesis using o(1) k t'(2) by (simp add: algebra_simps)
  qed
  moreover have "CRYPTO_cbc128_decrypt dec (out @ more) (length inp) iv = (inp, iv')"
    using d t'(1) o(2) False r by (simp add: CRYPTO_cbc128_decrypt_def)
  ultimately show ?thesis by blast
qed

end

interpretation sm4: block_cipher "SM4_encrypt rk" "SM4_decrypt rk" for rk
  by unfold_locales (use sm4_inverse in blast)+

text \<open>Decryption in place does what decryption into another buffer does, and leaves the bytes after
  the wanted ones alone.\<close>

lemma put_at_append: "put_at (pre @ inp) (length pre) xs = pre @ xs @ drop (length xs) inp"
  by (simp add: put_at_def)

lemma inplace_blocks:
  assumes "block128 block" "length iv = 16" "len \<le> length inp" "cbc_dec_blocks block inp len iv = (out, rest, l, iv')"
  shows "length iv' = 16 \<and> l < 16 \<and> 16 dvd length out \<and> len = length out + l \<and> rest = drop (length out) inp \<and>
    cbc_inplace_blocks block (pre @ inp) (length pre) len iv = (pre @ out @ rest, length pre + length out, l, iv')"
  using assms(2-4)
proof (induction len arbitrary: inp iv out pre rule: less_induct)
  case (less len)
  show ?case
  proof (cases "len \<ge> 16")
    case False
    then show ?thesis using less.prems
      by (auto simp: cbc_dec_blocks.simps [of _ _ len] cbc_inplace_blocks.simps [of _ _ _ l])
  next
    case True
    let ?c = "take 16 inp"
    let ?o = "xor_bytes (block ?c) iv"
    have c: "length ?c = 16" using True less.prems(2) by simp
    have o: "length ?o = 16" using block128_length [OF assms(1) c] less.prems(1) by simp
    obtain outs where d: "cbc_dec_blocks block (drop 16 inp) (len - 16) ?c = (outs, rest, l, iv')" "out = ?o @ outs"
      using less.prems(3) True by (auto simp: cbc_dec_blocks.simps [of _ _ len] Let_def split: prod.splits)
    have ih: "length iv' = 16 \<and> l < 16 \<and> 16 dvd length outs \<and> len - 16 = length outs + l \<and> rest = drop (length outs) (drop 16 inp) \<and>
        cbc_inplace_blocks block ((pre @ ?o) @ drop 16 inp) (length (pre @ ?o)) (len - 16) ?c =
          ((pre @ ?o) @ outs @ rest, length (pre @ ?o) + length outs, l, iv')"
      by (rule less.IH [OF _ c _ d(1)]) (use True less.prems(2) in simp_all)
    have "cbc_inplace_blocks block (pre @ inp) (length pre) len iv =
        cbc_inplace_blocks block ((pre @ ?o) @ drop 16 inp) (length (pre @ ?o)) (len - 16) ?c"
      using True o by (simp add: cbc_inplace_blocks.simps [of _ _ _ len] Let_def put_at_append)
    moreover have "len = length out + l" using ih d(2) o True by (metis add.assoc length_append le_add_diff_inverse)
    ultimately show ?thesis using ih d(2) o by (simp add: add.commute)
  qed
qed

lemma inplace_tail:
  assumes "block128 block" "length iv = 16" "len < 16" "0 < len \<longrightarrow> 16 \<le> length inp" "cbc_dec_tail block inp len iv = (out, iv')"
  shows "cbc_inplace_tail block (pre @ inp) (length pre) len iv = (pre @ out @ drop len inp, iv') \<and> length out = len"
proof (cases "len = 0")
  case True
  then show ?thesis using assms(5) by (simp add: cbc_dec_tail.simps cbc_inplace_tail.simps)
next
  case False
  then have "length (block (take 16 inp)) = 16" using block128_length [OF assms(1)] assms(4) by simp
  then show ?thesis using assms(2,3,5) False
    by (auto simp: cbc_dec_tail.simps cbc_inplace_tail.simps Let_def put_at_append)
qed

lemma cbc_inplace_eq:
  assumes "block128 block" "length iv = 16" "(len + 15) div 16 * 16 \<le> length buf"
  shows "cbc128_decrypt_inplace block buf len iv =
    (fst (CRYPTO_cbc128_decrypt block buf len iv) @ drop len buf, snd (CRYPTO_cbc128_decrypt block buf len iv))"
proof (cases "len = 0")
  case True
  then show ?thesis by (simp add: cbc128_decrypt_inplace_def CRYPTO_cbc128_decrypt_def)
next
  case False
  obtain o0 rest l iv1 where b: "cbc_dec_blocks block buf len iv = (o0, rest, l, iv1)" by (metis prod_cases4)
  obtain o1 iv2 where t: "cbc_dec_tail block rest l iv1 = (o1, iv2)" by fastforce
  have "len \<le> length buf" using assms(3) by linarith
  note c = inplace_blocks [OF assms(1,2) this b, of "[]"]
  have "16 \<le> length rest" if "0 < l"
  proof -
    obtain k where k: "length o0 = 16 * k" using c by (auto elim: dvdE)
    have "(len + 15) div 16 = k + (l + 15) div 16" using c k by (simp add: add.assoc)
    moreover have "1 \<le> (l + 15) div 16" using that by simp
    ultimately have "(k + 1) * 16 \<le> (len + 15) div 16 * 16" by (intro mult_le_mono1) linarith
    then have "(k + 1) * 16 \<le> length buf" using assms(3) by linarith
    then show ?thesis using c k by simp
  qed
  then have "cbc_inplace_tail block (o0 @ rest) (length o0) l iv1 = (o0 @ o1 @ drop l rest, iv2)"
    using inplace_tail [OF assms(1), of iv1 l rest o1 iv2 o0] c t by simp
  moreover have "drop l rest = drop len buf" using c by (simp add: add.commute)
  moreover have "cbc_inplace_blocks block buf 0 len iv = (o0 @ rest, length o0, l, iv1)"
    by (rule c [THEN conjunct2, THEN conjunct2, THEN conjunct2, THEN conjunct2, THEN conjunct2, unfolded append_Nil list.size add_0_left])
  ultimately show ?thesis using False b t by (simp add: cbc128_decrypt_inplace_def CRYPTO_cbc128_decrypt_def)
qed

section \<open>Wrapping\<close>

lemma length_xor_t [simp]: "length (xor_t A t) = length A"
  by (simp add: xor_t_def Let_def)

lemma xor_t_cancel: "length A = 8 \<Longrightarrow> xor_t (xor_t A t) t = A"
  by (rule nth_equalityI) (auto simp: xor_t_def Let_def nth_list_update xor_cancel)

lemma unwrap_pass_append:
  "unwrap_pass block (xs @ ys) A t =
    (case unwrap_pass block xs A t of
       (a, A, t) \<Rightarrow> case unwrap_pass block ys A t of (b, r) \<Rightarrow> (a @ b, r))"
  by (induction xs arbitrary: A t) (auto simp: Let_def split: prod.splits)

lemma unwrap_pass_count: "unwrap_pass block Rs A t = (Rs', A', t') \<Longrightarrow> length Rs' = length Rs \<and> t' = t - length Rs"
proof (induction Rs arbitrary: A t Rs')
  case (Cons R Rs)
  let ?B = "block (xor_t A t @ R)"
  obtain Rs1 where "unwrap_pass block Rs (take 8 ?B) (t - 1) = (Rs1, A', t')" "Rs' = drop 8 ?B # Rs1"
    using Cons.prems by (auto simp: Let_def split: prod.splits)
  then show ?case using Cons.IH [of "take 8 ?B" "t - 1" Rs1] by simp
qed simp

lemma unwrap_rounds_snoc:
  "unwrap_rounds block (Suc j) Rs A t =
    (case unwrap_rounds block j Rs A t of
       (Rs', A') \<Rightarrow> case unwrap_pass block (rev Rs') A' (t - j * length Rs) of (Rs'', A'', t') \<Rightarrow> (rev Rs'', A''))"
proof (induction j arbitrary: Rs A t)
  case (Suc j)
  obtain Rs1 A1 t1 where p: "unwrap_pass block (rev Rs) A t = (Rs1, A1, t1)" by (metis prod_cases3)
  then have "length Rs1 = length Rs" "t1 = t - length Rs" using unwrap_pass_count [OF p] by simp_all
  then show ?case using Suc.IH [of "rev Rs1" A1 t1] p by (simp add: algebra_simps split: prod.splits)
qed (simp split: prod.splits)

lemma registers_concat: "(\<And>R. R \<in> set Rs \<Longrightarrow> length R = 8) \<Longrightarrow> registers (concat Rs) = Rs"
proof (induction Rs)
  case (Cons R Rs)
  then show ?case by (simp add: registers.simps [of "R @ concat Rs"])
qed (simp add: registers.simps)

lemma concat_registers: "8 dvd length bs \<Longrightarrow> concat (registers bs) = bs"
proof (induction bs rule: registers.induct)
  case (1 bs)
  show ?case
  proof (cases "length bs \<ge> 8")
    case True
    then have "8 dvd length (drop 8 bs)" using 1(2) by (simp add: dvd_diff_nat)
    then show ?thesis using 1(1) True by (simp add: registers.simps [of bs])
  next
    case False
    then have "bs = []" using 1(2) by (auto dest: dvd_imp_le)
    then show ?thesis by (simp add: registers.simps)
  qed
qed

lemma registers_length: "R \<in> set (registers bs) \<Longrightarrow> length R = 8"
  by (induction bs rule: registers.induct) (subst (asm) registers.simps, auto split: if_splits)

lemma length_concat_eq: "(\<And>R. R \<in> set Rs \<Longrightarrow> length R = 8) \<Longrightarrow> length (concat Rs) = 8 * length Rs"
  by (induction Rs) simp_all

lemma unat_scast_small:
  assumes "n < 2 ^ 31"
  shows "unat (scast (of_nat n :: u32) :: u64) = n"
proof -
  have s: "sint (of_nat n :: u32) = int n" using assms by (simp add: signed_of_nat signed_take_bit_int_eq_self)
  have "scast (of_nat n :: u32) = (of_int (sint (of_nat n :: u32)) :: u64)" by simp
  also have "\<dots> = of_nat n" unfolding s by simp
  finally show ?thesis using assms by (simp add: unat_of_nat)
qed

lemma unat_scast_large:
  assumes "2 ^ 31 \<le> n" "n < 2 ^ 32"
  shows "unat (scast (of_nat n :: u32) :: u64) = 2 ^ 64 - 2 ^ 32 + n"
proof -
  let ?m = "2 ^ 64 - 2 ^ 32 + n"
  have "(int n + 2 ^ 31 - 2 ^ 32 + 2 ^ 32) mod 2 ^ 32 = int n + 2 ^ 31 - 2 ^ 32"
    unfolding mod_add_self2 using assms by (intro mod_pos_pos_trivial) simp_all
  then have s: "sint (of_nat n :: u32) = int n - 2 ^ 32"
    by (simp add: signed_of_nat signed_take_bit_eq_take_bit_shift take_bit_eq_mod add.commute)
  have m: "(of_nat ?m :: u64) = of_int (int n - 2 ^ 32)"
    by simp
  have "scast (of_nat n :: u32) = (of_int (sint (of_nat n :: u32)) :: u64)" by simp
  then have "unat (scast (of_nat n :: u32) :: u64) = unat (of_nat ?m :: u64)" by (simp only: s m)
  also have "\<dots> = ?m" unfolding unat_of_nat using assms by simp
  finally show ?thesis .
qed

context block_cipher
begin

lemma pass_inverse:
  assumes "wrap_pass enc Rs A t = (Rs', A', t')" "\<And>R. R \<in> set Rs \<Longrightarrow> length R = 8" "length A = 8" "0 < t"
  shows "unwrap_pass dec (rev Rs') A' (t' - 1) = (rev Rs, A, t - 1) \<and> length Rs' = length Rs \<and> t' = t + length Rs \<and>
    length A' = 8 \<and> (\<forall>R \<in> set Rs'. length R = 8)"
  using assms
proof (induction Rs arbitrary: A t Rs')
  case (Cons R Rs)
  let ?B = "enc (A @ R)"
  have ar: "length (A @ R) = 16" using Cons.prems by simp
  have b: "length ?B = 16" using length_enc [OF ar] .
  obtain Rs1 where w: "wrap_pass enc Rs (xor_t (take 8 ?B) t) (t + 1) = (Rs1, A', t')" "Rs' = drop 8 ?B # Rs1"
    using Cons.prems(1) by (auto simp: Let_def split: prod.splits)
  have ih: "unwrap_pass dec (rev Rs1) A' (t' - 1) = (rev Rs, xor_t (take 8 ?B) t, t + 1 - 1) \<and> length Rs1 = length Rs \<and>
      t' = t + 1 + length Rs \<and> length A' = 8 \<and> (\<forall>R \<in> set Rs1. length R = 8)"
    by (rule Cons.IH [OF w(1)]) (use Cons.prems b in auto)
  have "xor_t (xor_t (take 8 ?B) t) t @ drop 8 ?B = ?B" using b by (simp add: xor_t_cancel)
  then have one: "unwrap_pass dec [drop 8 ?B] (xor_t (take 8 ?B) t) t = ([R], A, t - 1)"
    using dec_enc [OF ar] Cons.prems(2,3) by simp
  have "unwrap_pass dec (rev Rs1) A' (t' - 1) = (rev Rs, xor_t (take 8 ?B) t, t)"
    using conjunct1 [OF ih] by simp
  then have "unwrap_pass dec (rev Rs1 @ [drop 8 ?B]) A' (t' - 1) = (rev Rs @ [R], A, t - 1)"
    using one unfolding unwrap_pass_append by simp
  then have "unwrap_pass dec (rev Rs') A' (t' - 1) = (rev (R # Rs), A, t - 1)" using w(2) by simp
  moreover have "length Rs' = length (R # Rs) \<and> t' = t + length (R # Rs) \<and> length A' = 8 \<and> (\<forall>R \<in> set Rs'. length R = 8)"
    using conjunct2 [OF ih] b w(2) by simp
  ultimately show ?case by blast
qed simp

lemma rounds_inverse_wrap:
  assumes "wrap_rounds enc j Rs A t = (Rs', A')" "\<And>R. R \<in> set Rs \<Longrightarrow> length R = 8" "length A = 8" "0 < t"
  shows "unwrap_rounds dec j Rs' A' (t + j * length Rs - 1) = (Rs, A) \<and> length Rs' = length Rs \<and> length A' = 8 \<and>
    (\<forall>R \<in> set Rs'. length R = 8)"
  using assms
proof (induction j arbitrary: Rs A t)
  case (Suc j)
  obtain Rs1 A1 t1 where p: "wrap_pass enc Rs A t = (Rs1, A1, t1)" by (metis prod_cases3)
  note pi = pass_inverse [OF p Suc.prems(2-4)]
  have w: "wrap_rounds enc j Rs1 A1 t1 = (Rs', A')" using Suc.prems(1) p by simp
  have ih: "unwrap_rounds dec j Rs' A' (t1 + j * length Rs1 - 1) = (Rs1, A1) \<and> length Rs' = length Rs1 \<and> length A' = 8 \<and>
      (\<forall>R \<in> set Rs'. length R = 8)"
    using Suc.IH [OF w] pi Suc.prems(4) by auto
  have e: "t1 + j * length Rs1 - 1 = t + Suc j * length Rs - 1" "t + Suc j * length Rs - 1 - j * length Rs' = t1 - 1"
    using pi ih Suc.prems(4) by (simp_all add: algebra_simps)
  have "unwrap_rounds dec (Suc j) Rs' A' (t + Suc j * length Rs - 1) = (Rs, A)"
    unfolding unwrap_rounds_snoc e(2) using conjunct1 [OF ih] conjunct1 [OF pi] unfolding e(1) by simp
  then show ?case using ih pi by metis
qed simp

lemma wrap_unwrap_raw:
  assumes "length iv = 8" "8 dvd length inp" "16 \<le> length inp" "length inp \<le> CRYPTO128_WRAP_MAX"
  shows "\<exists>out. CRYPTO_128_wrap enc (Some iv) inp = (length inp + 8, out) \<and> length out = length inp + 8 \<and>
    crypto_128_unwrap_raw dec out = (length inp, iv, inp)"
proof -
  obtain Rs A where w: "wrap_rounds enc 6 (registers inp) iv 1 = (Rs, A)" by fastforce
  note r = rounds_inverse_wrap [OF w registers_length assms(1)]
  have n: "8 * length (registers inp) = length inp"
    using length_concat_eq [of "registers inp"] registers_length [of _ inp] concat_registers [OF assms(2)] by simp
  have lA: "length A = 8" and lR: "\<forall>R \<in> set Rs. length R = 8" and lRs: "length Rs = length (registers inp)" using r by auto
  have out: "length (A @ concat Rs) = length inp + 8" using length_concat_eq [of Rs] lA lR lRs n by simp
  have "CRYPTO_128_wrap enc (Some iv) inp = (length inp + 8, A @ concat Rs)"
    using w assms(2-4) by (simp add: CRYPTO_128_wrap_def Let_def dvd_eq_mod_eq_0)
  moreover have "unat (of_nat (length (A @ concat Rs)) - 8 :: u64) = length inp"
    unfolding out using assms(4) by (simp add: unat_of_nat CRYPTO128_WRAP_MAX_def)
  moreover have "unwrap_rounds dec 6 (registers (concat Rs)) A (6 * (length inp div 8)) = (registers inp, iv)"
    using r n registers_concat [of Rs] lR by (simp add: n [symmetric])
  ultimately show ?thesis using out assms lA
    by (intro exI [of _ "A @ concat Rs"]) (simp add: crypto_128_unwrap_raw_def dvd_eq_mod_eq_0 concat_registers)
qed

lemma wrap_pad_overflow:
  assumes icv: "case icv of None \<Rightarrow> True | Some v \<Rightarrow> length v = 4" and n: "2 ^ 31 - 15 \<le> length inp"
    "length inp < CRYPTO128_WRAP_MAX" and w: "CRYPTO_128_wrap_pad enc icv inp = (ret, out)"
  shows "length out = (length inp + 7) div 8 * 8 + 8 \<and> ret = 2 ^ 64 - 2 ^ 32 + length out"
proof -
  let ?n = "length inp"
  let ?p = "inp @ replicate ((?n + 7) div 8 * 8 - ?n) 0"
  define aiv where "aiv = (case icv of None \<Rightarrow> default_aiv | Some icv \<Rightarrow> icv) @ nat_be 4 ?n"
  have aiv: "length aiv = 8" using icv by (auto simp: aiv_def default_aiv_def split: option.splits)
  have p: "length ?p = (?n + 7) div 8 * 8" by simp
  have lim: "8 dvd length ?p" "16 \<le> length ?p" "length ?p \<le> CRYPTO128_WRAP_MAX"
    using n unfolding p by (simp_all add: CRYPTO128_WRAP_MAX_def)
  obtain out' where o: "CRYPTO_128_wrap enc (Some aiv) ?p = (length ?p + 8, out')" "length out' = length ?p + 8"
    using wrap_unwrap_raw [OF aiv lim] by blast
  have "?n \<noteq> 0" "\<not> CRYPTO128_WRAP_MAX \<le> ?n" "(?n + 7) div 8 * 8 \<noteq> 8" using n lim(2) p by auto
  then have "(ret, out) = (unat (scast (of_nat (length ?p + 8) :: u32) :: u64), out')"
    using w o(1) unfolding CRYPTO_128_wrap_pad_def Let_def nat_be_4 [symmetric] aiv_def [symmetric] by simp
  moreover have "unat (scast (of_nat (length ?p + 8) :: u32) :: u64) = 2 ^ 64 - 2 ^ 32 + (length ?p + 8)"
    by (rule unat_scast_large) (use n in \<open>simp_all add: CRYPTO128_WRAP_MAX_def\<close>)
  ultimately show ?thesis using o(2) p by simp
qed

lemma wrap_pad_roundtrip:
  assumes icv: "case icv of None \<Rightarrow> True | Some v \<Rightarrow> length v = 4" and n: "0 < length inp" "length inp \<le> 2 ^ 31 - 16"
    and w: "CRYPTO_128_wrap_pad enc icv inp = (ret, out)"
  shows "ret = length out \<and>
    CRYPTO_128_unwrap_pad dec icv out = (length inp, inp @ replicate ((length inp + 7) div 8 * 8 - length inp) 0)"
proof -
  let ?n = "length inp"
  define pad where "pad = (?n + 7) div 8 * 8 - ?n"
  define v where "v = (case icv of None \<Rightarrow> default_aiv | Some icv \<Rightarrow> icv)"
  define aiv where "aiv = v @ nat_be 4 ?n"
  define p where "p = inp @ replicate pad 0"
  have v: "length v = 4" using icv by (auto simp: v_def default_aiv_def split: option.splits)
  have pl: "length p = (?n + 7) div 8 * 8" by (simp add: p_def pad_def)
  have lim: "8 dvd length p" "?n \<le> length p" "length p < ?n + 8" "length p \<le> 2147483632"
    using pl n(2) by simp_all
  have aiv: "length aiv = 8" "take 4 aiv = v" "be_nat (drop 4 aiv) = ?n"
    using v n(2) by (simp_all add: aiv_def be_nat_nat_be)
  have "?n \<noteq> 0" "\<not> CRYPTO128_WRAP_MAX \<le> ?n" using n by (auto simp: CRYPTO128_WRAP_MAX_def)
  moreover have "inp @ replicate (length p - ?n) 0 = p" by (simp add: p_def)
  ultimately have body: "CRYPTO_128_wrap_pad enc icv inp =
      (case (if length p = 8 then (16, enc (aiv @ p)) else CRYPTO_128_wrap enc (Some aiv) p) of
         (ret, out) \<Rightarrow> (unat (scast (of_nat ret :: u32) :: u64), out))"
    unfolding CRYPTO_128_wrap_pad_def Let_def v_def [symmetric] nat_be_4 [symmetric] aiv_def [symmetric] pl [symmetric] by auto
  have ret: "unat (scast (of_nat (length p + 8) :: u32) :: u64) = length p + 8"
    by (rule unat_scast_small) (use lim(4) in simp)
  have drp: "drop ?n p = replicate pad 0" "length p - ?n = pad" by (simp_all add: p_def)
  have final: "CRYPTO_128_unwrap_pad dec icv out = (?n, p)"
    if "length out = length p + 8"
      "(if length out = 16 then let buff = dec out in (8, 8, take 8 buff, drop 8 buff)
        else case crypto_128_unwrap_raw dec out of (ret, aiv, out') \<Rightarrow> (length out - 8, ret, aiv, out')) = (length p, length p, aiv, p)"
  proof -
    have m: "8 * (length out div 8 - Suc 0) = length p" "8 * (length out div 8 - Suc (Suc 0)) = length p - 8"
      using that(1) lim(1) by (auto elim!: dvdE)
    have "length out mod 8 = 0" "\<not> length out < 16" "\<not> CRYPTO128_WRAP_MAX \<le> length out"
      using that(1) lim n(1) by (auto simp: CRYPTO128_WRAP_MAX_def elim!: dvdE)
    moreover have "\<not> ?n \<le> length p - 8" "\<not> length p < ?n" using lim(2,3) n(1) by linarith+
    ultimately show ?thesis unfolding CRYPTO_128_unwrap_pad_def Let_def that(2) [unfolded Let_def] v_def [symmetric]
      by (simp add: aiv m drp)
  qed
  show ?thesis
  proof (cases "length p = 8")
    case True
    have l: "length (aiv @ p) = 16" using aiv(1) True by simp
    have o: "out = enc (aiv @ p)" "ret = 16" using w body True ret by simp_all
    have "length out = 16" "dec out = aiv @ p" using o(1) length_enc [OF l] dec_enc [OF l] by simp_all
    then show ?thesis using final o(2) True aiv(1) by (simp add: p_def pad_def)
  next
    case False
    have "16 \<le> length p"
    proof -
      obtain k where k: "length p = 8 * k" using lim(1) by (auto elim: dvdE)
      have "k \<noteq> 0" using k lim(2) n(1) by (metis leD mult_0_right)
      then show ?thesis using k False by simp
    qed
    then obtain out' where "CRYPTO_128_wrap enc (Some aiv) p = (length p + 8, out')" "length out' = length p + 8"
      "crypto_128_unwrap_raw dec out' = (length p, aiv, p)"
      using wrap_unwrap_raw [OF aiv(1) lim(1)] lim(4) by (auto simp: CRYPTO128_WRAP_MAX_def)
    moreover have "out = out'" "ret = length p + 8" using calculation(1) w body False ret by simp_all
    ultimately show ?thesis using final False by (simp add: p_def pad_def)
  qed
qed

end

text \<open>When a check of the unwrapped key fails, as many bytes as the input has are cleared, 8 more than the
  plaintext buffer is said to need.\<close>

lemma unwrap_pad_clears_input_length:
  assumes "length inp mod 8 = 0" "16 \<le> length inp" "length inp < CRYPTO128_WRAP_MAX" "fst (CRYPTO_128_unwrap_pad block icv inp) = 0"
  shows "snd (CRYPTO_128_unwrap_pad block icv inp) = replicate (length inp) 0"
proof -
  obtain pl ret aiv out where x: "(if length inp = 16 then (8, 8, take 8 (block inp), drop 8 (block inp))
      else case crypto_128_unwrap_raw block inp of (ret, aiv, out) \<Rightarrow> (length inp - 8, ret, aiv, out)) = (pl, ret, aiv, out)"
    by (metis prod_cases4)
  define v where "v = (case icv of None \<Rightarrow> default_aiv | Some icv \<Rightarrow> icv)"
  have "\<not> (length inp mod 8 \<noteq> 0 \<or> length inp < 16 \<or> CRYPTO128_WRAP_MAX \<le> length inp)" using assms(1-3) by simp
  note d = CRYPTO_128_unwrap_pad_def [of block icv inp, unfolded Let_def x v_def [symmetric] if_not_P [OF this] prod.case]
  show ?thesis using assms(4) unfolding d by (auto split: if_splits)
qed

section \<open>Properties\<close>

lemma cfb8_inverse:
  assumes "block128 block" "length iv = 16"
  shows "CRYPTO_cfb128_8_encrypt block False (fst (CRYPTO_cfb128_8_encrypt block True xs iv)) iv =
    (xs, snd (CRYPTO_cfb128_8_encrypt block True xs iv))"
  using assms(2)
proof (induction xs arbitrary: iv)
  case (Cons x xs)
  have "length (block iv) = 16" using block128_length [OF assms(1) Cons.prems] .
  then obtain k ks where k: "block iv = k # ks" by (cases "block iv") auto
  let ?iv = "drop 1 iv @ [x XOR k]"
  have e: "cfbr_encrypt_block block True 8 [x] iv = ([x XOR k], ?iv)" "cfbr_encrypt_block block False 8 [x XOR k] iv = ([x], ?iv)"
    using Cons.prems by (simp_all add: cfbr_encrypt_block_def Let_def k xor_bytes_Cons xor_cancel)
  have "length ?iv = 16" using Cons.prems by simp
  then show ?case using Cons.IH [of ?iv] e by (simp add: case_prod_beta)
qed simp

text \<open>C16. The stream modes process their input word by word and block by block, and this gives the same
  output, vector and position as their loops over single bytes, wherever in a block they start.\<close>

theorem modes_fast_paths_exact:
  assumes "block128 block" "length ivec = 16" "length ecount_buf = 16" "num < 16"
  shows "CRYPTO_ofb128_encrypt block inp ivec num = ofb128_bytewise block inp ivec num \<and>
    CRYPTO_cfb128_encrypt block enc inp ivec num = cfb128_bytewise block enc inp ivec num \<and>
    CRYPTO_ctr128_encrypt block inp (ivec, ecount_buf) num = ctr128_bytewise block inp (ivec, ecount_buf) num"
  using stream_fast [OF assms(1,4)] assms(2,3) by simp

lemma sm4_block128: "block128 (SM4_encrypt rk)"
  using sm4_inverse by (auto simp: block128_def)

lemma sm4_decrypt_block128: "block128 (SM4_decrypt rk)"
  by (simp add: block128_def SM4_decrypt_def Let_def length_store_block)

theorem modes_fast_paths_exact_witness:
  "CRYPTO_cfb128_encrypt (SM4_encrypt (SM4_set_key (replicate 16 1))) True (replicate 40 7) (replicate 16 0) 5 =
   cfb128_bytewise (SM4_encrypt (SM4_set_key (replicate 16 1))) True (replicate 40 7) (replicate 16 0) 5"
  using modes_fast_paths_exact [OF sm4_block128, of "replicate 16 0" "replicate 16 0" 5] by simp

text \<open>C17. Decryption undoes encryption in the stream modes and ends in the same vector and position:
  OFB and counter mode are their own inverses, CFB with its decryption flag, also with feedback of
  single bytes.\<close>

theorem stream_modes_roundtrip:
  assumes "block128 block" "length ivec = 16" "length ecount_buf = 16" "num < 16"
  shows "CRYPTO_ofb128_encrypt block (fst (CRYPTO_ofb128_encrypt block inp ivec num)) ivec num =
      (inp, snd (CRYPTO_ofb128_encrypt block inp ivec num)) \<and>
    CRYPTO_cfb128_encrypt block False (fst (CRYPTO_cfb128_encrypt block True inp ivec num)) ivec num =
      (inp, snd (CRYPTO_cfb128_encrypt block True inp ivec num)) \<and>
    CRYPTO_cfb128_8_encrypt block False (fst (CRYPTO_cfb128_8_encrypt block True inp ivec)) ivec =
      (inp, snd (CRYPTO_cfb128_8_encrypt block True inp ivec)) \<and>
    CRYPTO_ctr128_encrypt block (fst (CRYPTO_ctr128_encrypt block inp (ivec, ecount_buf) num)) (ivec, ecount_buf) num =
      (inp, snd (CRYPTO_ctr128_encrypt block inp (ivec, ecount_buf) num))"
  using stream_fast [OF assms(1,4)] assms(2,3) cfb8_inverse [OF assms(1,2)]
  by (simp add: cfb128_bytewise_def ofb128_bytewise_def ctr128_bytewise_def stream_inverse)

theorem stream_modes_roundtrip_witness:
  "fst (CRYPTO_ofb128_encrypt (SM4_encrypt (SM4_set_key (replicate 16 1)))
     (fst (CRYPTO_ofb128_encrypt (SM4_encrypt (SM4_set_key (replicate 16 1))) (replicate 40 7) (replicate 16 0) 3))
     (replicate 16 0) 3) = replicate 40 7"
  using stream_modes_roundtrip [OF sm4_block128, of "replicate 16 0" "replicate 16 0" 3 "SM4_set_key (replicate 16 1)" "replicate 40 7"]
  by simp

text \<open>C15. Counter mode over a cipher that counts in 32 bits gives what counter mode over single blocks
  gives, for every length and every start of the 128-bit counter: the carry out of the last word is
  never lost, and the keystream block in use is the same.\<close>

theorem ctr32_same_as_ctr128:
  assumes "ctr128_f block func" "block128 block" "length ivec = 16" "length ecount_buf = 16" "num < 16"
    "CRYPTO_ctr128_encrypt_ctr32 func inp (ivec, ecount_buf) num = (out, (iv1, ec1), n1)"
    "CRYPTO_ctr128_encrypt block inp (ivec, ecount_buf) num = (out', (iv2, ec2), n2)"
  shows "out = out' \<and> iv1 = iv2 \<and> n1 = n2 \<and> (n1 \<noteq> 0 \<longrightarrow> ec1 = ec2)"
  using assms by (intro ctr32_eq [of block func "(ivec, ecount_buf)" num inp]) simp_all

theorem ctr32_same_as_ctr128_witness:
  "fst (CRYPTO_ctr128_encrypt_ctr32 (ctr32_stream (SM4_encrypt (SM4_set_key (replicate 16 1)))) (replicate 50 7)
     (replicate 16 0xFF, replicate 16 0) 0) =
   fst (CRYPTO_ctr128_encrypt (SM4_encrypt (SM4_set_key (replicate 16 1))) (replicate 50 7) (replicate 16 0xFF, replicate 16 0) 0)"
proof -
  let ?b = "SM4_encrypt (SM4_set_key (replicate 16 1))" and ?s = "(replicate 16 0xFF, replicate 16 0)"
  have f: "ctr128_f ?b (ctr32_stream ?b)" by (simp add: ctr128_f_def)
  obtain o1 v1 e1 n1 where a: "CRYPTO_ctr128_encrypt_ctr32 (ctr32_stream ?b) (replicate 50 7) ?s 0 = (o1, (v1, e1), n1)"
    by (metis surj_pair)
  obtain o2 v2 e2 n2 where b: "CRYPTO_ctr128_encrypt ?b (replicate 50 7) ?s 0 = (o2, (v2, e2), n2)"
    by (metis surj_pair)
  show ?thesis using ctr32_same_as_ctr128 [OF f sm4_block128 _ _ _ a b] a b by simp
qed

text \<open>C14. CBC decryption returns the plaintext of CBC encryption for every length, also where the last
  block is not full, and leaves the same vector for the next call; decrypting in place gives the same
  bytes and touches nothing behind them.\<close>

theorem cbc_roundtrip_and_inplace:
  assumes "block_cipher enc dec" "block128 dec" "length ivec = 16" "CRYPTO_cbc128_encrypt enc inp ivec = (out, iv')"
  shows "CRYPTO_cbc128_decrypt dec (out @ more) (length inp) ivec = (inp, iv') \<and>
    cbc128_decrypt_inplace dec (out @ more) (length inp) ivec = (inp @ drop (length inp) (out @ more), iv')"
  using block_cipher.cbc_roundtrip [OF assms(1,3,4), of more] cbc_inplace_eq [OF assms(2,3), of "length inp" "out @ more"] by simp

theorem cbc_roundtrip_and_inplace_witness:
  "fst (CRYPTO_cbc128_decrypt (SM4_decrypt (SM4_set_key (replicate 16 1)))
     (fst (CRYPTO_cbc128_encrypt (SM4_encrypt (SM4_set_key (replicate 16 1))) (replicate 40 7) (replicate 16 0)))
     40 (replicate 16 0)) = replicate 40 7"
proof -
  let ?k = "SM4_set_key (replicate 16 1)"
  obtain out iv' where e: "CRYPTO_cbc128_encrypt (SM4_encrypt ?k) (replicate 40 7) (replicate 16 0) = (out, iv')" by fastforce
  show ?thesis
    using cbc_roundtrip_and_inplace [OF sm4.block_cipher_axioms sm4_decrypt_block128 _ e, of "[]"] e by simp
qed

text \<open>C18. Unwrapping with padding returns the key that was wrapped, for every length that the length field
  and the limits of both functions allow, and wrapping returns the length of its output.\<close>

theorem key_wrap_pad_roundtrip:
  assumes "block_cipher enc dec" "case icv of None \<Rightarrow> True | Some v \<Rightarrow> length v = 4" "0 < length inp"
    "length inp \<le> 2 ^ 31 - 16" "CRYPTO_128_wrap_pad enc icv inp = (ret, out)"
  shows "ret = length out \<and>
    CRYPTO_128_unwrap_pad dec icv out = (length inp, inp @ replicate ((length inp + 7) div 8 * 8 - length inp) 0)"
  by (rule block_cipher.wrap_pad_roundtrip [OF assms])

theorem key_wrap_pad_roundtrip_witness:
  "CRYPTO_128_unwrap_pad (SM4_decrypt (SM4_set_key (replicate 16 1))) None
     (snd (CRYPTO_128_wrap_pad (SM4_encrypt (SM4_set_key (replicate 16 1))) None (replicate 20 7))) =
   (20, replicate 20 7 @ replicate 4 0)"
proof -
  let ?k = "SM4_set_key (replicate 16 1)"
  obtain ret out where e: "CRYPTO_128_wrap_pad (SM4_encrypt ?k) None (replicate 20 7) = (ret, out)" by fastforce
  show ?thesis using key_wrap_pad_roundtrip [OF sm4.block_cipher_axioms _ _ _ e] e by simp
qed

text \<open>C19. Wrapping with padding loses the length of a long key: it keeps the result in an \<^verbatim>\<open>int\<close>, so for inputs
  that fill the last 16 bytes below the limit it returns a number near 2^64 as the length of its output.\<close>

theorem key_wrap_pad_length_overflow:
  assumes "block_cipher enc dec" "case icv of None \<Rightarrow> True | Some v \<Rightarrow> length v = 4" "2 ^ 31 - 15 \<le> length inp"
    "length inp < CRYPTO128_WRAP_MAX" "CRYPTO_128_wrap_pad enc icv inp = (ret, out)"
  shows "length out = (length inp + 7) div 8 * 8 + 8 \<and> ret = 2 ^ 64 - 2 ^ 32 + length out"
  by (rule block_cipher.wrap_pad_overflow [OF assms])

theorem key_wrap_pad_length_overflow_witness:
  "fst (CRYPTO_128_wrap_pad (SM4_encrypt (SM4_set_key (replicate 16 1))) None (replicate 2147483640 7)) = 18446744071562067968"
proof -
  let ?k = "SM4_set_key (replicate 16 1)"
  obtain ret out where e: "CRYPTO_128_wrap_pad (SM4_encrypt ?k) None (replicate 2147483640 7) = (ret, out)" by fastforce
  have "length out = (length (replicate 2147483640 (7 :: u8)) + 7) div 8 * 8 + 8 \<and> ret = 2 ^ 64 - 2 ^ 32 + length out"
    by (rule key_wrap_pad_length_overflow [OF sm4.block_cipher_axioms _ _ _ e]) (simp_all add: CRYPTO128_WRAP_MAX_def)
  then show ?thesis using e by simp
qed

end
