(* ===== verification/BN_Words.thy ===== *)
theory BN_Words
  imports Prelude
begin

text \<open>
  Arrays of 64-bit words as natural numbers, and the word routines of \<^verbatim>\<open>crypto/bn/bn_asm.c\<close> that work on
  them: the portable C in the configuration with 64-bit words and a 128-bit product
  (\<^verbatim>\<open>SIXTY_FOUR_BIT_LONG\<close>, \<^verbatim>\<open>BN_UMULT_LOHI\<close>). The loops handle four words at a time while they can. An operand may
  be the array the result is written to. Every routine is an instance of one contract, \<open>carry_chain\<close>: a step that
  turns the words at one index and a carry into a word and a carry. The quotient of a two-word number by a word
  is \<^verbatim>\<open>bn_div_words\<close>, two rounds of long division by half words.
\<close>

section \<open>Words and operands\<close>

abbreviation "BN_BITS2 \<equiv> 64 :: nat"
abbreviation "BN_BITS4 \<equiv> 32 :: nat"
abbreviation "BN_BYTES \<equiv> 8 :: nat"
abbreviation "BN_MASK2 \<equiv> 0xffffffffffffffff :: u64"
abbreviation "BN_MASK2l \<equiv> 0xffffffff :: u64"
abbreviation "BN_MASK2h \<equiv> 0xffffffff00000000 :: u64"

text \<open>The array that a pointer argument names: the one the result goes to, or another one.\<close>

datatype operand = Itself | Words "u64 list"

definition word_at :: "operand \<Rightarrow> u64 list \<Rightarrow> nat \<Rightarrow> nat \<Rightarrow> u64" where
  "word_at x r k i = (case x of Itself \<Rightarrow> r ! (k + i) | Words a \<Rightarrow> a ! i)"

text \<open>One round of a loop over words: \<open>k\<close> is where the result starts in its array, \<open>i\<close> the index.\<close>

definition round_at ::
  "('c \<Rightarrow> u64 \<Rightarrow> u64 \<Rightarrow> u64 \<times> 'c) \<Rightarrow> nat \<Rightarrow> operand \<Rightarrow> operand \<Rightarrow> nat \<times> u64 list \<times> 'c \<Rightarrow> nat \<times> u64 list \<times> 'c" where
  "round_at step k a b s =
     (case s of (i, r, c) \<Rightarrow> let (w, c) = step c (word_at a r k i) (word_at b r k i) in (Suc i, r[k + i := w], c))"

fun loop4 :: "('s \<Rightarrow> 's) \<Rightarrow> nat \<Rightarrow> 's \<Rightarrow> 's" where
  "loop4 f n s = (if n \<ge> 4 then loop4 f (n - 4) (f (f (f (f s)))) else (f ^^ n) s)"

definition word_loop ::
  "(u64 \<Rightarrow> u64 \<Rightarrow> u64 \<Rightarrow> u64 \<times> u64) \<Rightarrow> nat \<Rightarrow> u64 list \<Rightarrow> operand \<Rightarrow> operand \<Rightarrow> nat \<Rightarrow> u64 \<times> u64 list" where
  "word_loop step k r a b n = (case loop4 (round_at step k a b) n (0, r, 0) of (i, r, c) \<Rightarrow> (c, r))"

section \<open>The routines\<close>

definition add_step :: "u64 \<Rightarrow> u64 \<Rightarrow> u64 \<Rightarrow> u64 \<times> u64" where
  "add_step c a b = (let t = a + c; c = of_bool (t < c); l = t + b in (l, c + of_bool (l < t)))"

definition sub_step :: "u64 \<Rightarrow> u64 \<Rightarrow> u64 \<Rightarrow> u64 \<times> u64" where
  "sub_step c t1 t2 = (t1 - t2 - c, if t1 \<noteq> t2 then of_bool (t1 < t2) else c)"

definition BN_UMULT_LOHI :: "u64 \<Rightarrow> u64 \<Rightarrow> u64 \<times> u64" where
  "BN_UMULT_LOHI a b = (let ret = (ucast a :: 128 word) * ucast b in (ucast ret, ucast (drop_bit 64 ret)))"

definition mul_step :: "u64 \<Rightarrow> u64 \<Rightarrow> u64 \<Rightarrow> u64 \<Rightarrow> u64 \<times> u64" where
  "mul_step w c a b =
     (let (low, high) = BN_UMULT_LOHI w a; ret = low + c in (ret, high + of_bool (ret < low)))"

definition mul_add_step :: "u64 \<Rightarrow> u64 \<Rightarrow> u64 \<Rightarrow> u64 \<Rightarrow> u64 \<times> u64" where
  "mul_add_step w c a r =
     (let ret = r; (low, high) = BN_UMULT_LOHI w a; ret = ret + c; c = of_bool (ret < c); c = c + high;
          ret = ret + low; c = c + of_bool (ret < low)
      in (ret, c))"

definition bn_add_words :: "nat \<Rightarrow> u64 list \<Rightarrow> operand \<Rightarrow> operand \<Rightarrow> nat \<Rightarrow> u64 \<times> u64 list" where
  "bn_add_words k r a b n = (if n = 0 then (0, r) else word_loop add_step k r a b n)"

definition bn_sub_words :: "nat \<Rightarrow> u64 list \<Rightarrow> operand \<Rightarrow> operand \<Rightarrow> nat \<Rightarrow> u64 \<times> u64 list" where
  "bn_sub_words k r a b n = (if n = 0 then (0, r) else word_loop sub_step k r a b n)"

definition bn_mul_words :: "nat \<Rightarrow> u64 list \<Rightarrow> operand \<Rightarrow> nat \<Rightarrow> u64 \<Rightarrow> u64 \<times> u64 list" where
  "bn_mul_words k r a num w = (if num = 0 then (0, r) else word_loop (mul_step w) k r a a num)"

definition bn_mul_add_words :: "nat \<Rightarrow> u64 list \<Rightarrow> operand \<Rightarrow> nat \<Rightarrow> u64 \<Rightarrow> u64 \<times> u64 list" where
  "bn_mul_add_words k r a num w = (if num = 0 then (0, r) else word_loop (mul_add_step w) k r a Itself num)"

text \<open>\<^verbatim>\<open>bn_mul_normal\<close> of \<^verbatim>\<open>bn_mul.c\<close> adds one row for each word of the shorter number; its loop has the lines of
  four rows, here each row is a round. The result is a third array.\<close>

fun mul_rows :: "u64 list \<Rightarrow> u64 list \<Rightarrow> nat \<Rightarrow> u64 list \<Rightarrow> nat \<Rightarrow> nat \<Rightarrow> u64 list" where
  "mul_rows r a na b j nb =
     (if nb \<le> 1 then r
      else let (c, r) = bn_mul_add_words j r (Words a) na (b ! j)
        in mul_rows (r[na + j := c]) a na b (Suc j) (nb - 1))"

definition bn_mul_normal :: "u64 list \<Rightarrow> u64 list \<Rightarrow> nat \<Rightarrow> u64 list \<Rightarrow> nat \<Rightarrow> u64 list" where
  "bn_mul_normal r a na b nb =
     (let (a, na, b, nb) = (if na < nb then (b, nb, a, na) else (a, na, b, nb)) in
      if nb = 0 then snd (bn_mul_words 0 r (Words a) na 0)
      else let (c, r) = bn_mul_words 0 r (Words a) na (b ! 0) in mul_rows (r[na := c]) a na b 1 nb)"

text \<open>The number of bits of a word, by halving with masks in place of branches.\<close>

definition num_bits_half :: "nat \<Rightarrow> u32 \<times> u64 \<Rightarrow> u32 \<times> u64" where
  "num_bits_half k s =
     (case s of (bits, l) \<Rightarrow>
        let x = drop_bit k l; mask = 0 - x; mask = 0 - drop_bit (BN_BITS2 - 1) mask
        in (bits + ucast (of_nat k AND mask), l XOR ((x XOR l) AND mask)))"

definition BN_num_bits_word :: "u64 \<Rightarrow> u32" where
  "BN_num_bits_word l =
     fst (num_bits_half 1 (num_bits_half 2 (num_bits_half 4 (num_bits_half 8 (num_bits_half 16
       (num_bits_half 32 (of_bool (l \<noteq> 0), l)))))))"

text \<open>Division of the two-word number \<open>h, l\<close> by \<open>d\<close>. \<open>div_adjust\<close> lowers the estimate of one half-word of the
  quotient until it fits, \<open>div_round\<close> is one round of the outer loop.\<close>

definition div_fits :: "u64 \<Rightarrow> u64 \<Rightarrow> u64 \<Rightarrow> u64 \<Rightarrow> bool" where
  "div_fits h l th tlo =
     (let t = h - th in
      t AND BN_MASK2h \<noteq> 0 \<or> tlo \<le> (push_bit BN_BITS4 t OR drop_bit BN_BITS4 (l AND BN_MASK2h)))"

definition div_adjust :: "u64 \<Rightarrow> u64 \<Rightarrow> u64 \<Rightarrow> u64 \<Rightarrow> u64 \<times> u64 \<times> u64 \<Rightarrow> (u64 \<times> u64 \<times> u64) option" where
  "div_adjust h l dh dl =
     iterate (\<lambda>(q, th, tlo).
       Some (if div_fits h l th tlo then Inr (q, th, tlo) else Inl (q - 1, th - dh, tlo - dl)))"

definition div_round :: "u64 \<Rightarrow> u64 \<Rightarrow> u64 \<Rightarrow> (u64 \<times> u64 \<times> u64) option" where
  "div_round d h l =
     (let dh = drop_bit BN_BITS4 (d AND BN_MASK2h); dl = d AND BN_MASK2l;
          q = (if drop_bit BN_BITS4 h = dh then BN_MASK2l else h div dh)
      in case div_adjust h l dh dl (q, q * dh, dl * q) of
           None \<Rightarrow> None
         | Some (q, th, tlo) \<Rightarrow>
             let t = drop_bit BN_BITS4 tlo; tlo = push_bit BN_BITS4 tlo AND BN_MASK2h; th = th + t;
                 th = (if l < tlo then th + 1 else th); l = l - tlo;
                 (h, q) = (if h < th then (h + d, q - 1) else (h, q))
             in Some (q, h - th, l))"

definition bn_div_words :: "u64 \<Rightarrow> u64 \<Rightarrow> u64 \<Rightarrow> u64 option" where
  "bn_div_words h l d =
     (if d = 0 then Some BN_MASK2
      else let i = BN_BITS2 - unat (BN_num_bits_word d);
               h = (if h \<ge> d then h - d else h);
               (d, h, l) = (if i \<noteq> 0 then (push_bit i d, push_bit i h OR drop_bit (BN_BITS2 - i) l, push_bit i l)
                            else (d, h, l))
      in case div_round d h l of
           None \<Rightarrow> None
         | Some (q, h, l) \<Rightarrow>
             let ret = push_bit BN_BITS4 q; h = push_bit BN_BITS4 h OR drop_bit BN_BITS4 l;
                 l = push_bit BN_BITS4 (l AND BN_MASK2l)
             in map_option (\<lambda>(q, h, l). ret OR q) (div_round d h l))"

section \<open>Natural numbers of words\<close>

fun wval :: "u64 list \<Rightarrow> nat" where
  "wval [] = 0"
| "wval (w # ws) = unat w + 2 ^ 64 * wval ws"

lemma wval_append: "wval (xs @ ys) = wval xs + 2 ^ (64 * length xs) * wval ys"
  by (induction xs) (simp_all add: power_add distrib_left)

declare of_nat_unat [simp del]

lemma unat_u64_less: "unat (w :: u64) < 2 ^ 64"
  using unsigned_less [of w] by simp

lemma wval_less: "wval ws < 2 ^ (64 * length ws)"
proof (induction ws)
  case (Cons w ws)
  have "unat w + 2 ^ 64 * wval ws < 2 ^ 64 + 2 ^ 64 * wval ws" using unat_u64_less [of w] by simp
  also have "\<dots> = 2 ^ 64 * Suc (wval ws)" by simp
  also have "\<dots> \<le> 2 ^ 64 * 2 ^ (64 * length ws)" using Cons by (intro mult_left_mono) simp_all
  finally show ?case by (simp add: power_add)
qed simp

lemma wval_replicate_0 [simp]: "wval (replicate n 0) = 0"
  by (induction n) simp_all

section \<open>Chains of carries\<close>

fun chain :: "('c \<Rightarrow> u64 \<Rightarrow> u64 \<Rightarrow> u64 \<times> 'c) \<Rightarrow> 'c \<Rightarrow> u64 list \<Rightarrow> u64 list \<Rightarrow> u64 list \<times> 'c" where
  "chain step c (a # as) (b # bs) = (let (w, c) = step c a b; (ws, c) = chain step c as bs in (w # ws, c))"
| "chain step c _ _ = ([], c)"

lemma length_chain [simp]: "length as = length bs \<Longrightarrow> length (fst (chain step c as bs)) = length as"
  by (induction step c as bs rule: chain.induct) (auto split: prod.splits)

lemma chain_snoc:
  "length as = length bs \<Longrightarrow> chain step c (as @ [a]) (bs @ [b]) =
     (let (ws, c) = chain step c as bs; (w, c) = step c a b in (ws @ [w], c))"
  by (induction step c as bs rule: chain.induct) (auto simp: Let_def split: prod.splits)

lemma loop4_funpow: "loop4 f n s = (f ^^ n) s"
proof (induction f n s rule: loop4.induct)
  case (1 f n s)
  show ?case
  proof (cases "n \<ge> 4")
    case True
    have "loop4 f n s = loop4 f (n - 4) (f (f (f (f s))))" using True by simp
    also have "\<dots> = (f ^^ (n - 4)) ((f ^^ 4) s)" using 1 True by (simp add: numeral_eq_Suc)
    also have "\<dots> = (f ^^ (n - 4 + 4)) s" by (simp only: funpow_add comp_apply)
    finally show ?thesis using True by (simp only: le_add_diff_inverse2)
  qed simp
qed
declare loop4.simps [simp del]

text \<open>The words an operand holds when the loop starts, and what the loop leaves: an operand is read at each
  index before the result is written there.\<close>

definition operand_words :: "operand \<Rightarrow> u64 list \<Rightarrow> nat \<Rightarrow> u64 list" where
  "operand_words x r k = (case x of Itself \<Rightarrow> drop k r | Words a \<Rightarrow> a)"

lemma round_at_funpow:
  assumes "i + n \<le> length (operand_words a r k)" "i + n \<le> length (operand_words b r k)" "k + i + n \<le> length r"
  shows "(round_at step k a b ^^ n) (i, r, c) =
    (let (ws, c) = chain step c (take n (drop i (operand_words a r k))) (take n (drop i (operand_words b r k)))
     in (i + n, take (k + i) r @ ws @ drop (k + i + n) r, c))"
  using assms
proof (induction n)
  case (Suc n)
  let ?as = "take n (drop i (operand_words a r k))" and ?bs = "take n (drop i (operand_words b r k))"
  define ws c1 where "ws = fst (chain step c ?as ?bs)" and "c1 = snd (chain step c ?as ?bs)"
  define r1 where "r1 = take (k + i) r @ ws @ drop (k + i + n) r"
  have ws: "length ws = n" using Suc.prems by (simp add: ws_def)
  have step: "(round_at step k a b ^^ n) (i, r, c) = (i + n, r1, c1)"
    using Suc by (simp add: ws_def c1_def r1_def split_def Let_def)
  have at: "word_at x r1 k (i + n) = operand_words x r k ! (i + n)" if "i + n < length (operand_words x r k)" for x
    using that Suc.prems ws
    by (cases x) (simp_all add: word_at_def operand_words_def r1_def nth_append add.assoc)
  have tk: "take (Suc n) (drop i (operand_words x r k)) =
      take n (drop i (operand_words x r k)) @ [operand_words x r k ! (i + n)]"
    if "i + Suc n \<le> length (operand_words x r k)" for x
    using that by (simp add: take_Suc_conv_app_nth)
  have upd: "r1[k + (i + n) := w] = take (k + i) r @ (ws @ [w]) @ drop (k + i + Suc n) r" for w
    using Suc.prems ws
    by (simp add: r1_def list_update_append Cons_nth_drop_Suc [symmetric] del: Cons_nth_drop_Suc)
  have "(round_at step k a b ^^ Suc n) (i, r, c) = round_at step k a b (i + n, r1, c1)" using step by simp
  also have "\<dots> = (let (w, c2) = step c1 (operand_words a r k ! (i + n)) (operand_words b r k ! (i + n))
      in (i + Suc n, take (k + i) r @ (ws @ [w]) @ drop (k + i + Suc n) r, c2))"
    using Suc.prems by (simp add: round_at_def at upd)
  finally show ?case
    using Suc.prems by (simp add: tk chain_snoc ws_def c1_def split_def Let_def)
qed simp

lemma word_loop_chain:
  assumes "n \<le> length (operand_words a r k)" "n \<le> length (operand_words b r k)" "k + n \<le> length r"
  shows "word_loop step k r a b n =
    (let (ws, c) = chain step 0 (take n (operand_words a r k)) (take n (operand_words b r k))
     in (c, take k r @ ws @ drop (k + n) r))"
  using round_at_funpow [of 0 n a r k b step 0] assms by (simp add: word_loop_def loop4_funpow split_def Let_def)

fun wsum :: "(u64 \<Rightarrow> u64 \<Rightarrow> int) \<Rightarrow> u64 list \<Rightarrow> u64 list \<Rightarrow> int" where
  "wsum f (a # as) (b # bs) = f a b + 2 ^ 64 * wsum f as bs"
| "wsum f _ _ = 0"

lemma wsum_linear:
  assumes "length as = length bs"
  shows "wsum (\<lambda>a b. x * int (unat a) + y * int (unat b)) as bs = x * int (wval as) + y * int (wval bs)"
  using assms by (induction as bs rule: list_induct2) (simp_all add: algebra_simps)

text \<open>The contract of a step: carries stay within \<open>ok\<close>, and the word with the carry, whose sign is \<open>sg\<close>, is what the
  operands contribute with the carry that came in.\<close>

locale carry_chain =
  fixes step :: "u64 \<Rightarrow> u64 \<Rightarrow> u64 \<Rightarrow> u64 \<times> u64" and ok :: "u64 \<Rightarrow> bool" and sg x y :: int
  assumes ok_0: "ok 0"
    and ok_step: "ok c \<Longrightarrow> ok (snd (step c a b))"
    and step_value: "ok c \<Longrightarrow> int (unat (fst (step c a b))) + sg * (2 ^ 64 * int (unat (snd (step c a b)))) =
      x * int (unat a) + y * int (unat b) + sg * int (unat c)"
begin

lemma chain_value:
  assumes "length as = length bs" "ok c"
  shows "ok (snd (chain step c as bs)) \<and>
    int (wval (fst (chain step c as bs))) + sg * (2 ^ (64 * length as) * int (unat (snd (chain step c as bs)))) =
      x * int (wval as) + y * int (wval bs) + sg * int (unat c)"
  using assms
proof (induction as bs arbitrary: c rule: list_induct2)
  case (Cons a as b bs)
  define w c1 where "w = fst (step c a b)" and "c1 = snd (step c a b)"
  define ws c2 where "ws = fst (chain step c1 as bs)" and "c2 = snd (chain step c1 as bs)"
  have res: "chain step c (a # as) (b # bs) = (w # ws, c2)"
    by (simp add: w_def c1_def ws_def c2_def split_def Let_def)
  have ok: "ok c1" using ok_step [OF Cons.prems] by (simp add: c1_def)
  note IH = Cons.IH [OF ok, folded ws_def c2_def]
  have "int (wval (w # ws)) + sg * (2 ^ (64 * length (a # as)) * int (unat c2)) =
      int (unat w) + 2 ^ 64 * (int (wval ws) + sg * (2 ^ (64 * length as) * int (unat c2)))"
    by (simp add: algebra_simps power_add)
  also have "\<dots> = int (unat w) + 2 ^ 64 * (x * int (wval as) + y * int (wval bs) + sg * int (unat c1))"
    using IH by simp
  also have "\<dots> = x * int (wval (a # as)) + y * int (wval (b # bs)) + sg * int (unat c)"
    using step_value [OF Cons.prems, of a b] by (simp add: w_def c1_def algebra_simps)
  finally show ?case unfolding res using IH by simp
qed simp

lemma word_loop_value:
  assumes "n \<le> length (operand_words a r k)" "n \<le> length (operand_words b r k)" "k + n \<le> length r"
    and "word_loop step k r a b n = (c, r')"
  shows "\<exists>ws. r' = take k r @ ws @ drop (k + n) r \<and> length ws = n \<and> ok c \<and>
    int (wval ws) + sg * (2 ^ (64 * n) * int (unat c)) =
      x * int (wval (take n (operand_words a r k))) + y * int (wval (take n (operand_words b r k)))"
proof -
  let ?as = "take n (operand_words a r k)" and ?bs = "take n (operand_words b r k)"
  have len: "length ?as = length ?bs" and n: "length ?as = n" using assms by simp_all
  have "c = snd (chain step 0 ?as ?bs)" "r' = take k r @ fst (chain step 0 ?as ?bs) @ drop (k + n) r"
    using word_loop_chain [OF assms(1-3), of step] assms(4) by (simp_all add: split_def Let_def)
  moreover have "length (fst (chain step 0 ?as ?bs)) = n" using length_chain [OF len] n by simp
  ultimately show ?thesis using chain_value [OF len ok_0] n by auto
qed

end

subsection \<open>The steps of the routines\<close>

lemma unat_add_wrap: "unat ((a :: u64) + b) = (if unat a + unat b < 2 ^ 64 then unat a + unat b else unat a + unat b - 2 ^ 64)"
  using unat_u64_less [of a] unat_u64_less [of b] by (simp add: unat_word_ariths mod_if)

lemma unat_diff_wrap: "unat ((a :: u64) - b) = (if unat b \<le> unat a then unat a - unat b else 2 ^ 64 + unat a - unat b)"
  using unat_u64_less [of a] unat_u64_less [of b]
  by (auto simp: unat_sub_if_size word_size)

lemmas word_arith = unat_add_wrap unat_diff_wrap word_less_nat_alt word_le_nat_alt word_unat_eq_iff

abbreviation is_bit :: "u64 \<Rightarrow> bool" where "is_bit c \<equiv> unat c \<le> 1"

lemma unat_of_bool [simp]: "unat (of_bool b :: u64) = of_bool b"
  by (cases b) simp_all

interpretation add_chain: carry_chain add_step is_bit 1 1 1
proof
  fix c a b :: u64
  assume c: "is_bit c"
  show "is_bit (snd (add_step c a b))"
    using c unat_u64_less [of a] unat_u64_less [of b]
    by (auto simp: add_step_def Let_def word_arith)
  show "int (unat (fst (add_step c a b))) + 1 * (2 ^ 64 * int (unat (snd (add_step c a b)))) =
      1 * int (unat a) + 1 * int (unat b) + 1 * int (unat c)"
    using c unat_u64_less [of a] unat_u64_less [of b]
    by (auto simp: add_step_def Let_def word_arith)
qed simp

interpretation sub_chain: carry_chain sub_step is_bit "- 1" 1 "- 1"
proof
  fix c a b :: u64
  assume c: "is_bit c"
  show "is_bit (snd (sub_step c a b))"
    using c by (simp add: sub_step_def)
  show "int (unat (fst (sub_step c a b))) + - 1 * (2 ^ 64 * int (unat (snd (sub_step c a b)))) =
      1 * int (unat a) + - 1 * int (unat b) + - 1 * int (unat c)"
    using c unat_u64_less [of a] unat_u64_less [of b]
    by (auto simp: sub_step_def Let_def word_arith)
qed simp

lemma add_carry: "unat ((a :: u64) + b) + 2 ^ 64 * of_bool (a + b < a) = unat a + unat b"
  using unat_u64_less [of a] unat_u64_less [of b] by (auto simp: word_arith)

lemma add_carry_right: "unat ((a :: u64) + b) + 2 ^ 64 * of_bool (a + b < b) = unat a + unat b"
  using add_carry [of b a] by (simp add: add.commute)

lemma unat_add_exact: "unat a + unat b < 2 ^ 64 \<Longrightarrow> unat ((a :: u64) + b) = unat a + unat b"
  by (simp add: unat_add_wrap)

lemma umult_lohi: "unat (fst (BN_UMULT_LOHI a b)) + 2 ^ 64 * unat (snd (BN_UMULT_LOHI a b)) = unat a * unat b"
proof -
  have less: "unat a * unat b < 2 ^ 64 * 2 ^ 64"
    by (rule mult_strict_mono') (use unat_u64_less in simp_all)
  then have p: "unat ((ucast a :: 128 word) * ucast b) = unat a * unat b"
    using unat_u64_less [of a] unat_u64_less [of b]
    by (simp add: unat_word_ariths unsigned_ucast_eq take_bit_nat_eq_self)
  have "unat a * unat b div 2 ^ 64 < 2 ^ 64"
    using less by (simp only: less_mult_imp_div_less)
  moreover have "unat (snd (BN_UMULT_LOHI a b)) = take_bit 64 (drop_bit 64 (unat a * unat b))"
    using p less
    by (simp add: BN_UMULT_LOHI_def Let_def unsigned_ucast_eq unsigned_drop_bit_eq take_bit_nat_eq_self
        del: drop_bit_eq_div)
  moreover have "unat (fst (BN_UMULT_LOHI a b)) = unat a * unat b mod 2 ^ 64"
    using p by (simp add: BN_UMULT_LOHI_def Let_def unsigned_ucast_eq take_bit_eq_mod)
  ultimately show ?thesis by (simp only: take_bit_eq_mod drop_bit_eq_div mod_less mod_mult_div_eq)
qed

lemma umult_bound:
  "unat (fst (BN_UMULT_LOHI a b)) + 2 ^ 64 * unat (snd (BN_UMULT_LOHI a b)) \<le> (2 ^ 64 - 1) * (2 ^ 64 - 1)"
  unfolding umult_lohi
  by (rule mult_le_mono) (use unat_u64_less [of a] unat_u64_less [of b] in linarith)+

interpretation mul_chain: carry_chain "mul_step w" "\<lambda>_. True" 1 "int (unat w)" 0 for w
proof
  fix c a b :: u64
  define low high where "low = fst (BN_UMULT_LOHI w a)" and "high = snd (BN_UMULT_LOHI w a)"
  define k :: u64 where "k = of_bool (low + c < low)"
  have res: "mul_step w c a b = (low + c, high + k)"
    by (simp add: mul_step_def low_def high_def k_def split_def Let_def)
  have "unat (low + c) + 2 ^ 64 * unat k = unat low + unat c"
    using add_carry [of low c] by (simp only: k_def unat_of_bool)
  moreover have k: "unat (high + k) = unat high + unat k"
  proof (rule unat_add_exact)
    have "unat low + 2 ^ 64 * unat high \<le> (2 ^ 64 - 1) * (2 ^ 64 - 1)"
      using umult_bound [of w a] by (simp only: low_def high_def)
    then have "unat high < 2 ^ 64 - 1" by simp
    moreover have "unat k \<le> 1" by (simp add: k_def)
    ultimately show "unat high + unat k < 2 ^ 64" by linarith
  qed
  ultimately have "unat (low + c) + 2 ^ 64 * unat (high + k) = unat w * unat a + unat c"
    using umult_lohi [of w a, folded low_def high_def] unfolding k distrib_left by linarith
  then show "int (unat (fst (mul_step w c a b))) + 1 * (2 ^ 64 * int (unat (snd (mul_step w c a b)))) =
      int (unat w) * int (unat a) + 0 * int (unat b) + 1 * int (unat c)"
    unfolding res by (simp flip: of_nat_mult of_nat_add)
qed simp_all

interpretation mul_add_chain: carry_chain "mul_add_step w" "\<lambda>_. True" 1 "int (unat w)" 1 for w
proof
  fix c a b :: u64
  define low high where "low = fst (BN_UMULT_LOHI w a)" and "high = snd (BN_UMULT_LOHI w a)"
  define k m :: u64 where "k = of_bool (b + c < c)" and "m = of_bool (b + c + low < low)"
  have res: "mul_add_step w c a b = (b + c + low, k + high + m)"
    by (simp add: mul_add_step_def low_def high_def k_def m_def split_def Let_def)
  have sum: "unat (b + c) + 2 ^ 64 * unat k = unat b + unat c"
      "unat (b + c + low) + 2 ^ 64 * unat m = unat (b + c) + unat low"
    using add_carry_right [of b c] add_carry_right [of "b + c" low] by (simp_all only: k_def m_def unat_of_bool)
  have km: "unat k \<le> 1" "unat m \<le> 1" by (simp_all add: k_def m_def)
  have le: "unat low + 2 ^ 64 * unat high + 2 * 2 ^ 64 \<le> 2 ^ 64 * 2 ^ 64 + 1"
    using umult_bound [of w a] by (simp add: low_def high_def)
  have "2 ^ 64 * (unat k + unat high + unat m) < 2 ^ 64 * 2 ^ 64"
    using sum le unat_u64_less [of b] unat_u64_less [of c] unfolding distrib_left by linarith
  then have "unat k + unat high + unat m < 2 ^ 64" by simp
  then have k: "unat (k + high + m) = unat k + unat high + unat m"
    using unat_add_exact [of k high] unat_add_exact [of "k + high" m] by linarith
  have "unat (b + c + low) + 2 ^ 64 * unat (k + high + m) = unat w * unat a + unat b + unat c"
    using sum umult_lohi [of w a, folded low_def high_def] unfolding k distrib_left by linarith
  then show "int (unat (fst (mul_add_step w c a b))) + 1 * (2 ^ 64 * int (unat (snd (mul_add_step w c a b)))) =
      int (unat w) * int (unat a) + 1 * int (unat b) + 1 * int (unat c)"
    unfolding res by (simp flip: of_nat_mult of_nat_add)
qed simp_all

lemma int_chain_nat:
  assumes "\<exists>ws. r' = f ws \<and> length ws = n \<and> P \<and> int (wval ws) + 1 * (2 ^ m * int c) = int x * int a + int y * int b"
  shows "\<exists>ws. r' = f ws \<and> length ws = n \<and> P \<and> wval ws + 2 ^ m * c = x * a + y * b"
proof -
  from assms obtain ws where ws: "r' = f ws" "length ws = n" P "int (wval ws) + 1 * (2 ^ m * int c) = int x * int a + int y * int b"
    by blast
  then have "int (wval ws + 2 ^ m * c) = int (x * a + y * b)" by simp
  then have "wval ws + 2 ^ m * c = x * a + y * b" by (simp only: of_nat_eq_iff)
  with ws show ?thesis by blast
qed

text \<open>What the routines compute.\<close>

lemma bn_add_words_value:
  assumes "n \<le> length (operand_words a r k)" "n \<le> length (operand_words b r k)" "k + n \<le> length r"
    and "bn_add_words k r a b n = (c, r')"
  shows "\<exists>ws. r' = take k r @ ws @ drop (k + n) r \<and> length ws = n \<and> is_bit c \<and>
    wval ws + 2 ^ (64 * n) * unat c = wval (take n (operand_words a r k)) + wval (take n (operand_words b r k))"
proof (cases "n = 0")
  case False
  then have "word_loop add_step k r a b n = (c, r')" using assms(4) by (simp add: bn_add_words_def)
  from add_chain.word_loop_value [OF assms(1-3) this] show ?thesis
    using int_chain_nat [where x = 1 and y = 1 and f = "\<lambda>ws. take k r @ ws @ drop (k + n) r"] by simp
qed (use assms in \<open>simp add: bn_add_words_def\<close>)

lemma bn_sub_words_value:
  assumes "n \<le> length (operand_words a r k)" "n \<le> length (operand_words b r k)" "k + n \<le> length r"
    and "bn_sub_words k r a b n = (c, r')"
  shows "\<exists>ws. r' = take k r @ ws @ drop (k + n) r \<and> length ws = n \<and> is_bit c \<and>
    int (wval ws) - 2 ^ (64 * n) * int (unat c) =
      int (wval (take n (operand_words a r k))) - int (wval (take n (operand_words b r k)))"
proof (cases "n = 0")
  case False
  then have "word_loop sub_step k r a b n = (c, r')" using assms(4) by (simp add: bn_sub_words_def)
  from sub_chain.word_loop_value [OF assms(1-3) this] show ?thesis by simp
qed (use assms in \<open>simp add: bn_sub_words_def\<close>)

lemma bn_mul_words_value:
  assumes "n \<le> length (operand_words a r k)" "k + n \<le> length r" "bn_mul_words k r a n w = (c, r')"
  shows "\<exists>ws. r' = take k r @ ws @ drop (k + n) r \<and> length ws = n \<and>
    wval ws + 2 ^ (64 * n) * unat c = unat w * wval (take n (operand_words a r k))"
proof (cases "n = 0")
  case False
  then have "word_loop (mul_step w) k r a a n = (c, r')" using assms(3) by (simp add: bn_mul_words_def)
  from mul_chain.word_loop_value [OF assms(1,1,2) this] show ?thesis
    using int_chain_nat [where x = "unat w" and y = 0 and P = True and f = "\<lambda>ws. take k r @ ws @ drop (k + n) r"] by simp
qed (use assms in \<open>simp add: bn_mul_words_def\<close>)

lemma bn_mul_add_words_value:
  assumes "n \<le> length (operand_words a r k)" "k + n \<le> length r" "bn_mul_add_words k r a n w = (c, r')"
  shows "\<exists>ws. r' = take k r @ ws @ drop (k + n) r \<and> length ws = n \<and>
    wval ws + 2 ^ (64 * n) * unat c = unat w * wval (take n (operand_words a r k)) + wval (take n (drop k r))"
proof (cases "n = 0")
  case False
  then have "word_loop (mul_add_step w) k r a Itself n = (c, r')" using assms(3) by (simp add: bn_mul_add_words_def)
  moreover have "n \<le> length (operand_words Itself r k)" using assms(2) by (simp add: operand_words_def)
  ultimately show ?thesis
    using mul_add_chain.word_loop_value [OF assms(1) _ assms(2), of Itself w c r']
      int_chain_nat [where x = "unat w" and y = 1 and P = True and f = "\<lambda>ws. take k r @ ws @ drop (k + n) r"]
    by (simp add: operand_words_def [of Itself])
qed (use assms in \<open>simp add: bn_mul_add_words_def\<close>)

lemma mul_row:
  assumes "na \<le> length a" "Suc (na + j) \<le> length r" "bn_mul_add_words j r (Words a) na w = (c, r')"
  shows "length (r'[na + j := c]) = length r \<and>
    wval (take (Suc (na + j)) (r'[na + j := c])) = wval (take (na + j) r) + 2 ^ (64 * j) * (unat w * wval (take na a))"
proof -
  from bn_mul_add_words_value [of na "Words a" r j w c r'] assms obtain ws
    where ws: "r' = take j r @ ws @ drop (j + na) r" "length ws = na"
      "wval ws + 2 ^ (64 * na) * unat c = unat w * wval (take na a) + wval (take na (drop j r))"
    by (auto simp: operand_words_def)
  have "r'[na + j := c] = (take j r @ ws @ [c]) @ drop (Suc (na + j)) r"
    using ws assms(2) by (simp add: list_update_append Cons_nth_drop_Suc [symmetric] add.commute del: Cons_nth_drop_Suc)
  moreover have "length (take j r @ ws @ [c]) = Suc (na + j)" using ws assms(2) by simp
  ultimately have "take (Suc (na + j)) (r'[na + j := c]) = take j r @ ws @ [c]" "length (r'[na + j := c]) = length r"
    using assms(2) ws by (simp_all only: take_append_length) simp_all
  moreover have "wval (take j r @ ws @ [c]) =
      wval (take j r) + 2 ^ (64 * j) * (unat w * wval (take na a) + wval (take na (drop j r)))"
    using assms(2) ws(2) by (simp add: wval_append flip: ws(3))
  moreover have "wval (take (na + j) r) = wval (take j r) + 2 ^ (64 * j) * wval (take na (drop j r))"
    using assms(2) wval_append [of "take j r" "take na (drop j r)"] by (simp add: take_add add.commute)
  ultimately show ?thesis by (simp add: distrib_left)
qed

lemma mul_rows_value:
  assumes "na \<le> length a" "na + (j + nb - 1) \<le> length r" "j + nb - 1 \<le> length b" "0 < j" "0 < nb"
    and "wval (take (na + j) r) = wval (take na a) * wval (take j b)"
  shows "length (mul_rows r a na b j nb) = length r \<and>
    wval (take (na + (j + nb - 1)) (mul_rows r a na b j nb)) = wval (take na a) * wval (take (j + nb - 1) b)"
  using assms
proof (induction r a na b j nb rule: mul_rows.induct)
  case (1 r a na b j nb)
  show ?case
  proof (cases "nb \<le> 1")
    case True
    then have "nb = 1" using "1.prems" by simp
    then show ?thesis using "1.prems" by simp
  next
    case False
    obtain c r' where m: "bn_mul_add_words j r (Words a) na (b ! j) = (c, r')" by fastforce
    have row: "length (r'[na + j := c]) = length r"
      "wval (take (Suc (na + j)) (r'[na + j := c])) = wval (take (na + j) r) + 2 ^ (64 * j) * (unat (b ! j) * wval (take na a))"
      using mul_row [OF "1.prems"(1) _ m] "1.prems" False by simp_all
    have "wval (take (Suc j) b) = wval (take j b) + 2 ^ (64 * j) * unat (b ! j)"
      using "1.prems" False by (simp add: take_Suc_conv_app_nth wval_append)
    then have "wval (take (na + Suc j) (r'[na + j := c])) = wval (take na a) * wval (take (Suc j) b)"
      using row(2) "1.prems"(6) by (simp add: algebra_simps)
    with "1.IH" [OF False m [symmetric] refl] "1.prems" row(1) False show ?thesis
      by (simp add: m mul_rows.simps [of r])
  qed
qed
declare mul_rows.simps [simp del]

text \<open>
  C32. \<^verbatim>\<open>bn_mul_normal\<close>, the schoolbook multiplication: given arrays of the stated lengths and room for the words of both, the
  array it returns starts with the words of the product, whichever number is the longer one and where either is empty.
\<close>

theorem bn_mul_normal_correct:
  assumes "na \<le> length a" "nb \<le> length b" "na + nb \<le> length r"
  shows "length (bn_mul_normal r a na b nb) = length r \<and>
    wval (take (na + nb) (bn_mul_normal r a na b nb)) = wval (take na a) * wval (take nb b)"
proof -
  have *: "length (if nb = 0 then snd (bn_mul_words 0 r (Words a) na 0)
        else let (c, r) = bn_mul_words 0 r (Words a) na (b ! 0) in mul_rows (r[na := c]) a na b 1 nb) = length r \<and>
      wval (take (na + nb) (if nb = 0 then snd (bn_mul_words 0 r (Words a) na 0)
        else let (c, r) = bn_mul_words 0 r (Words a) na (b ! 0) in mul_rows (r[na := c]) a na b 1 nb))
      = wval (take na a) * wval (take nb b)"
    if "na \<le> length a" "nb \<le> length b" "na + nb \<le> length r" for a na b nb
  proof -
    define w where "w = (if nb = 0 then 0 else b ! 0)"
    obtain c r' where m: "bn_mul_words 0 r (Words a) na w = (c, r')" by fastforce
    from bn_mul_words_value [OF _ _ m] that obtain ws where ws: "r' = ws @ drop na r" "length ws = na"
        "wval ws + 2 ^ (64 * na) * unat c = unat w * wval (take na a)"
      by (auto simp: operand_words_def)
    show ?thesis
    proof (cases "nb = 0")
      case True
      then show ?thesis using m ws that by (simp add: w_def)
    next
      case False
      have upd: "r'[na := c] = (ws @ [c]) @ drop (Suc na) r"
        using ws that False by (simp add: list_update_append Cons_nth_drop_Suc [symmetric] del: Cons_nth_drop_Suc)
      have "wval (take (na + 1) (r'[na := c])) = wval (take na a) * wval (take 1 b)"
        using ws that False unfolding upd by (cases b) (simp_all add: wval_append w_def mult.commute)
      from mul_rows_value [OF that(1) _ _ _ _ this, of nb] that False ws show ?thesis
        using m by (simp add: w_def)
    qed
  qed
  show ?thesis
    using * [OF assms] * [OF assms(2,1)] assms(3)
    by (simp add: bn_mul_normal_def add.commute mult.commute)
qed

theorem bn_mul_normal_correct_witness:
  "wval (take 3 (bn_mul_normal [9, 9, 9, 9] [3, 5] 2 [7] 1)) = (3 + 2 ^ 64 * 5) * 7"
  using bn_mul_normal_correct [of 2 "[3, 5]" 1 "[7]" "[9, 9, 9, 9]"] by simp

subsection \<open>The number of bits of a word\<close>

lemma zero_minus_msb:
  assumes "unat (x :: u64) \<le> 2 ^ 63"
  shows "0 - drop_bit 63 (0 - x) = (if x = 0 then 0 else - 1)"
proof (cases "x = 0")
  case False
  then have "unat x \<noteq> 0" by (simp add: unat_eq_0)
  have "unat (0 - x) = 2 ^ 64 - unat x" using \<open>unat x \<noteq> 0\<close> unat_diff_wrap [of 0 x] by simp
  then have "unat (0 - x) div 2 ^ 63 = 1"
    using assms \<open>unat x \<noteq> 0\<close> by (auto simp del: diff_0 intro: div_nat_eqI)
  then have "unat (drop_bit 63 (0 - x)) = unat (1 :: u64)"
    by (simp only: unat_drop_bit) simp
  then have "drop_bit 63 (0 - x) = 1" by (simp only: word_unat_eq_iff)
  with False show ?thesis by simp
qed simp

lemma num_bits_half:
  assumes "k \<le> 32" "unat (drop_bit k l) \<le> 2 ^ 63"
  shows "num_bits_half k (bits, l) = (if drop_bit k l = 0 then (bits, l) else (bits + of_nat k, drop_bit k l))"
proof -
  have "unat (of_nat k :: u64) = k" using assms by (simp add: unat_of_nat)
  then have "ucast (of_nat k :: u64) = (of_nat k :: u32)"
    by (simp add: unsigned_of_nat ucast_eq)
  with zero_minus_msb [OF assms(2)] show ?thesis
    by (simp add: num_bits_half_def Let_def xor.left_commute [of l])
qed

text \<open>\<open>l\<close> has been narrowed to \<open>m\<close> bits; what was cut off is counted.\<close>

definition narrowed :: "u64 \<Rightarrow> nat \<Rightarrow> u32 \<times> u64 \<Rightarrow> bool" where
  "narrowed l m s = (case s of (bits, v) \<Rightarrow> 0 < unat v \<and> unat v < 2 ^ m \<and> 0 < unat bits \<and> unat bits - 1 + m \<le> 64 \<and>
     2 ^ (unat bits - 1) * unat v \<le> unat l \<and> unat l < 2 ^ (unat bits - 1) * (unat v + 1))"

lemma narrowed_half:
  assumes "narrowed l (2 * k) s" "0 < k" "k \<le> 32"
  shows "narrowed l k (num_bits_half k s)"
proof -
  obtain bits v where s: "s = (bits, v)" by fastforce
  let ?b = "unat bits - 1"
  have v: "0 < unat v" "unat v < 2 ^ (2 * k)" "0 < unat bits" "?b + 2 * k \<le> 64"
    "2 ^ ?b * unat v \<le> unat l" "unat l < 2 ^ ?b * (unat v + 1)"
    using assms(1) by (auto simp: s narrowed_def)
  note d = unat_drop_bit [of k v]
  have q: "unat v div 2 ^ k < 2 ^ k"
    using v(2) by (simp add: less_mult_imp_div_less power_add mult_2)
  also have "(2 :: nat) ^ k \<le> 2 ^ 63" using assms(3) by (intro power_increasing) simp_all
  finally have le: "unat (drop_bit k v) \<le> 2 ^ 63" using d by simp
  show ?thesis
  proof (cases "drop_bit k v = 0")
    case True
    then have "unat v div 2 ^ k = 0" using d by simp
    then have "unat v < 2 ^ k" by (simp add: div_eq_0_iff)
    with True v le assms(3) show ?thesis by (simp add: s num_bits_half narrowed_def)
  next
    case False
    have sum: "unat (bits + of_nat k) = unat bits + k"
      using v(3,4) assms(2,3) by (simp add: unat_word_ariths unat_of_nat)
    have exp: "unat bits + k - 1 = ?b + k" using v(3) by simp
    have pos: "0 < unat v div 2 ^ k" using False d by (metis neq0_conv unat_eq_0)
    have low: "2 ^ (?b + k) * (unat v div 2 ^ k) \<le> unat l"
    proof -
      have "2 ^ (?b + k) * (unat v div 2 ^ k) = 2 ^ ?b * (2 ^ k * (unat v div 2 ^ k))" by (simp add: power_add)
      also have "\<dots> \<le> 2 ^ ?b * unat v" by (intro mult_left_mono) simp_all
      finally show ?thesis using v(5) by simp
    qed
    have high: "unat l < 2 ^ (?b + k) * (unat v div 2 ^ k + 1)"
    proof -
      have "unat v + 1 \<le> 2 ^ k * (unat v div 2 ^ k + 1)"
        using dividend_less_times_div [of "2 ^ k" "unat v"] by simp
      then have "2 ^ ?b * (unat v + 1) \<le> 2 ^ ?b * (2 ^ k * (unat v div 2 ^ k + 1))" by (rule mult_left_mono) simp
      with v(6) have "unat l < 2 ^ ?b * (2 ^ k * (unat v div 2 ^ k + 1))" by (rule less_le_trans)
      then show ?thesis by (simp only: power_add mult.assoc)
    qed
    have "narrowed l k (bits + of_nat k, drop_bit k v)"
      unfolding narrowed_def prod.case sum exp d
      by (intro conjI) (use q pos low high v(4) assms(2) in linarith)+
    then show ?thesis using False by (simp only: s num_bits_half [OF assms(3) le] if_False)
  qed
qed

lemma BN_num_bits_word_bounds:
  assumes "l \<noteq> 0"
  shows "0 < unat (BN_num_bits_word l)" "unat (BN_num_bits_word l) \<le> 64"
    "2 ^ (unat (BN_num_bits_word l) - 1) \<le> unat l" "unat l < 2 ^ unat (BN_num_bits_word l)"
proof -
  have "0 < unat l" using assms by (simp add: unat_gt_0)
  then have "narrowed l 64 (1, l)" using unat_u64_less [of l] by (simp add: narrowed_def)
  then have "narrowed l 32 (num_bits_half 32 (1, l))" using narrowed_half [of l 32] by simp
  then have "narrowed l 16 (num_bits_half 16 (num_bits_half 32 (1, l)))" using narrowed_half [of l 16] by simp
  then have "narrowed l 8 (num_bits_half 8 (num_bits_half 16 (num_bits_half 32 (1, l))))"
    using narrowed_half [of l 8] by simp
  then have "narrowed l 4 (num_bits_half 4 (num_bits_half 8 (num_bits_half 16 (num_bits_half 32 (1, l)))))"
    using narrowed_half [of l 4] by simp
  then have "narrowed l 2 (num_bits_half 2 (num_bits_half 4 (num_bits_half 8 (num_bits_half 16 (num_bits_half 32 (1, l))))))"
    using narrowed_half [of l 2] by simp
  then have "narrowed l 1 (num_bits_half 1 (num_bits_half 2 (num_bits_half 4 (num_bits_half 8 (num_bits_half 16
      (num_bits_half 32 (1, l)))))))"
    using narrowed_half [of l 1] by simp
  then obtain v where "narrowed l 1 (BN_num_bits_word l, v)"
    using assms by (cases "num_bits_half 1 (num_bits_half 2 (num_bits_half 4 (num_bits_half 8 (num_bits_half 16
      (num_bits_half 32 (1, l))))))") (simp add: BN_num_bits_word_def)
  moreover from this have "unat v = 1" by (auto simp: narrowed_def)
  ultimately have b: "0 < unat (BN_num_bits_word l)" "unat (BN_num_bits_word l) \<le> 64"
    "2 ^ (unat (BN_num_bits_word l) - 1) \<le> unat l" "unat l < 2 ^ (unat (BN_num_bits_word l) - 1) * 2"
    by (auto simp: narrowed_def)
  then show "0 < unat (BN_num_bits_word l)" "unat (BN_num_bits_word l) \<le> 64"
    "2 ^ (unat (BN_num_bits_word l) - 1) \<le> unat l" by simp_all
  show "unat l < 2 ^ unat (BN_num_bits_word l)"
    using b(1,4) by (cases "unat (BN_num_bits_word l)") simp_all
qed

subsection \<open>Division of two words by one\<close>

lemma unat_mask_low: "unat (x AND BN_MASK2l) = unat x mod 2 ^ 32"
proof -
  have "x AND BN_MASK2l = take_bit 32 x" by (simp add: take_bit_eq_mask mask_eq_exp_minus_1)
  then have "unat (x AND BN_MASK2l) = take_bit 32 (unat x)" by (simp only: unsigned_take_bit_eq)
  then show ?thesis by (simp only: take_bit_eq_mod)
qed

lemma mask_high: "x AND BN_MASK2h = push_bit 32 (drop_bit 32 x)"
proof (rule bit_word_eqI)
  fix n
  have eq: "BN_MASK2h = push_bit 32 (mask 32)" by (simp add: mask_eq_exp_minus_1 push_bit_eq_mult)
  have "bit BN_MASK2h n \<longleftrightarrow> 32 \<le> n \<and> n < 64" unfolding eq by (auto simp: bit_push_bit_iff bit_mask_iff)
  then show "bit (x AND BN_MASK2h) n = bit (push_bit 32 (drop_bit 32 x)) n" if "n < LENGTH(64)"
    using that by (auto simp only: bit_and_iff bit_push_bit_iff bit_drop_bit_eq comp_apply) simp_all
qed

lemma unat_push_bit: "unat (push_bit n x) = unat x * 2 ^ n mod 2 ^ LENGTH('a)" for x :: "'a::len word"
  by (simp only: unsigned_push_bit_eq) (simp only: push_bit_eq_mult take_bit_eq_mod)

lemma mask_high_0: "x AND BN_MASK2h = 0 \<longleftrightarrow> unat x < 2 ^ 32"
proof -
  have "unat (push_bit 32 (drop_bit 32 x)) = unat x div 2 ^ 32 * 2 ^ 32"
    using unat_u64_less [of x] unfolding unat_push_bit unat_drop_bit
    by (simp add: less_mult_imp_div_less)
  then have "x AND BN_MASK2h = 0 \<longleftrightarrow> unat x div 2 ^ 32 * 2 ^ 32 = 0"
    by (simp only: mask_high unat_eq_0 [symmetric])
  then show ?thesis by (simp add: div_eq_0_iff)
qed

lemma drop_mask_high: "drop_bit 32 (x AND BN_MASK2h) = drop_bit 32 x"
proof -
  have "unat (drop_bit 32 (x AND BN_MASK2h)) = unat x div 2 ^ 32"
    using unat_u64_less [of x] unfolding mask_high unat_drop_bit unat_push_bit
    by (simp add: less_mult_imp_div_less)
  then show ?thesis by (simp only: word_unat_eq_iff unat_drop_bit)
qed

lemma push_mask_high: "push_bit 32 x AND BN_MASK2h = push_bit 32 x"
  unfolding mask_high by (rule bit_word_eqI) (auto simp: bit_push_bit_iff bit_drop_bit_eq)

lemma div_fits_iff:
  assumes "unat th \<le> unat h"
  shows "div_fits h l th tlo \<longleftrightarrow> unat tlo \<le> (unat h - unat th) * 2 ^ 32 + unat l div 2 ^ 32"
proof -
  have t: "unat (h - th) = unat h - unat th" using assms by (simp add: unat_diff_wrap)
  have l1: "unat l div 2 ^ 32 < 2 ^ 32" using unat_u64_less [of l] by (simp add: less_mult_imp_div_less)
  show ?thesis
  proof (cases "unat h - unat th < 2 ^ 32")
    case True
    then have "unat (push_bit BN_BITS4 (h - th) OR drop_bit BN_BITS4 (l AND BN_MASK2h)) =
        (unat h - unat th) * 2 ^ 32 + unat l div 2 ^ 32"
      unfolding drop_mask_high using unat_or_push [of "drop_bit BN_BITS4 l" 32 "h - th"] l1 t
      by (simp add: unat_drop_bit)
    then show ?thesis using True t by (simp only: div_fits_def Let_def mask_high_0 word_le_nat_alt) simp
  next
    case False
    then have "2 ^ 32 * 2 ^ 32 \<le> (unat h - unat th) * 2 ^ 32" by (intro mult_right_mono) simp_all
    then have "unat tlo \<le> (unat h - unat th) * 2 ^ 32 + unat l div 2 ^ 32" using unat_u64_less [of tlo] by simp
    then show ?thesis using False t by (simp only: div_fits_def Let_def mask_high_0) simp
  qed
qed

lemma div_fits_quotient:
  fixes q dh dl h l :: u64
  assumes "unat th = q' * unat dh" "unat tlo = q' * unat dl" "q' * unat dh \<le> unat h"
  shows "div_fits h l th tlo \<longleftrightarrow> q' * (unat dh * 2 ^ 32 + unat dl) \<le> unat h * 2 ^ 32 + unat l div 2 ^ 32"
proof -
  have "unat h * 2 ^ 32 = (unat h - q' * unat dh) * 2 ^ 32 + q' * unat dh * 2 ^ 32"
    using assms(3) by (simp flip: add_mult_distrib)
  then show ?thesis using div_fits_iff [of th h l tlo] assms by (simp only: distrib_left mult.assoc) linarith
qed

text \<open>The estimate \<open>q\<close> is at least the half-word of the quotient and is lowered to it.\<close>

lemma div_adjust_value:
  fixes h l dh dl q :: u64
  defines "d \<equiv> unat dh * 2 ^ 32 + unat dl" and "x \<equiv> unat h * 2 ^ 32 + unat l div 2 ^ 32"
  assumes q: "unat q < 2 ^ 32" "unat q * unat dh \<le> unat h" "x div d \<le> unat q"
    and d: "0 < unat dh" "unat dl < 2 ^ 32"
  shows "\<exists>q' th tlo. div_adjust h l dh dl (q, q * dh, dl * q) = Some (q', th, tlo) \<and>
    unat q' = x div d \<and> unat th = unat q' * unat dh \<and> unat tlo = unat q' * unat dl"
proof -
  define P where "P = (\<lambda>(q' :: u64, th :: u64, tlo :: u64). unat q' \<le> unat q \<and> x div d \<le> unat q' \<and>
      unat th = unat q' * unat dh \<and> unat tlo = unat q' * unat dl)"
  have dpos: "0 < d" using d(1) by (simp add: d_def)
  have fits: "div_fits h l th tlo \<longleftrightarrow> unat q' \<le> x div d" if "P (q', th, tlo)" for q' th tlo
  proof -
    have "unat q' * unat dh \<le> unat q * unat dh" using that by (simp add: P_def)
    then have "unat q' * unat dh \<le> unat h" using q(2) by (rule order_trans)
    then have "div_fits h l th tlo \<longleftrightarrow> unat q' * d \<le> x"
      using that div_fits_quotient [of th "unat q'" dh tlo dl h l] by (simp add: P_def d_def x_def)
    then show ?thesis using dpos by (simp add: less_eq_div_iff_mult_less_eq)
  qed
  have step: "P (q' - 1, th - dh, tlo - dl) \<and> unat (q' - 1) < unat q'"
    if p: "P (q', th, tlo)" and "\<not> div_fits h l th tlo" for q' th tlo
  proof -
    have less: "x div d < unat q'" using fits [OF p] that(2) by simp
    then have q1: "unat (q' - 1) = unat q' - 1" by (simp add: unat_diff_wrap)
    have "unat dh \<le> unat th" "unat dl \<le> unat tlo" using less p by (simp_all add: P_def)
    then show ?thesis using less q1 p by (auto simp: P_def unat_diff_wrap diff_mult_distrib)
  qed
  have "unat dl * unat q < 2 ^ 32 * 2 ^ 32" using q(1) d(2) by (intro mult_strict_mono') simp_all
  then have init: "P (q, q * dh, dl * q)"
    using q(2,3) unat_u64_less [of h] by (simp add: P_def unat_word_ariths mult.commute)
  let ?body = "\<lambda>(q, th, tlo). Some (if div_fits h l th tlo then Inr (q, th, tlo) else Inl (q - 1, th - dh, tlo - dl))"
  have "\<exists>r. iterate ?body (q, q * dh, dl * q) = Some r"
    by (rule iterate_returns [where P = P and m = "\<lambda>s. unat (fst s)", OF init])
      (use step in \<open>auto split: prod.splits if_splits\<close>)
  then obtain r where r: "iterate ?body (q, q * dh, dl * q) = Some r" by blast
  have "case r of (q', th, tlo) \<Rightarrow> P r \<and> div_fits h l th tlo"
    by (rule iterate_invariant [where P = P, OF r init]) (use step in \<open>auto split: prod.splits if_splits\<close>)
  moreover obtain q' th tlo where "r = (q', th, tlo)" by (cases r)
  ultimately have "P (q', th, tlo)" "unat q' = x div d" "r = (q', th, tlo)"
    using fits [of q' th tlo] by (auto simp: P_def)
  then show ?thesis using r unfolding div_adjust_def by (auto simp: P_def)
qed

lemma div_estimate:
  fixes h l d :: u64
  defines "dh \<equiv> drop_bit BN_BITS4 d" and "x \<equiv> unat h * 2 ^ 32 + unat l div 2 ^ 32"
  defines "q \<equiv> if drop_bit BN_BITS4 h = dh then BN_MASK2l else h div dh"
  assumes d: "2 ^ 63 \<le> unat d" and h: "unat h < unat d"
  shows "unat q < 2 ^ 32" "unat q * unat dh \<le> unat h" "x div unat d \<le> unat q"
proof -
  define B :: nat where "B = 2 ^ 32"
  have W: "B * B = 2 ^ 64" by (simp add: B_def)
  have dh: "unat dh = unat d div B" by (simp add: dh_def unat_drop_bit B_def)
  have hh: "unat (drop_bit BN_BITS4 h) = unat h div B" by (simp add: unat_drop_bit B_def)
  have dpos: "0 < unat dh" using d unfolding dh B_def by (simp add: div_greater_zero_iff)
  have l1: "unat l div B < B" using unat_u64_less [of l] W by (simp add: less_mult_imp_div_less)
  have x: "x = unat h * B + unat l div B" by (simp add: x_def B_def)
  have "(unat h + 1) * B \<le> unat d * B" using h by (intro mult_right_mono) simp_all
  then have xd: "x < unat d * B" using l1 x by simp
  then have xB: "x div unat d < B" by (simp add: less_mult_imp_div_less mult.commute)
  have dB: "unat dh * B \<le> unat d" unfolding dh by simp
  show "unat q < 2 ^ 32" "unat q * unat dh \<le> unat h" "x div unat d \<le> unat q"
  proof (atomize (full), cases "drop_bit BN_BITS4 h = dh")
    case True
    then have "unat h div B = unat dh" using hh by simp
    then have "unat dh * B \<le> unat h" by (metis div_times_less_eq_dividend)
    moreover have "unat q = B - 1" using True by (simp add: q_def B_def)
    moreover have "(B - 1) * unat dh \<le> unat dh * B" by (simp add: mult.commute)
    ultimately show "unat q < 2 ^ 32 \<and> unat q * unat dh \<le> unat h \<and> x div unat d \<le> unat q"
      using xB by (auto simp: B_def)
  next
    case False
    then have "unat h div B \<noteq> unat dh" using hh by (simp add: word_unat_eq_iff)
    moreover have "unat h div B \<le> unat dh" unfolding dh using h by (intro div_le_mono) simp
    ultimately have "unat h div B < unat dh" by simp
    then have "unat h < unat dh * B" by (simp add: div_less_iff_less_mult B_def)
    moreover have q: "unat q = unat h div unat dh" using False by (simp add: q_def unat_div)
    ultimately have "unat q < B" by (simp add: less_mult_imp_div_less mult.commute)
    moreover have "x div unat d \<le> unat h div unat dh"
    proof -
      have "x div unat d * (unat dh * B) \<le> x div unat d * unat d" using dB by simp
      also have "\<dots> \<le> x" by simp
      also have "\<dots> < (unat h + 1) * B" using l1 x by simp
      finally have "(x div unat d * unat dh) * B < (unat h + 1) * B" by (simp only: mult.assoc)
      then have "x div unat d * unat dh < unat h + 1" by (simp only: mult_less_cancel2)
      then have "x div unat d * unat dh \<le> unat h" by linarith
      then show ?thesis using dpos by (simp add: less_eq_div_iff_mult_less_eq)
    qed
    ultimately show "unat q < 2 ^ 32 \<and> unat q * unat dh \<le> unat h \<and> x div unat d \<le> unat q"
      using q by (simp add: B_def)
  qed
qed

lemma two_word_diff:
  fixes h l th tlo :: u64
  assumes "unat th * 2 ^ 64 + unat tlo \<le> unat h * 2 ^ 64 + unat l"
  defines "th' \<equiv> if l < tlo then th + 1 else th"
  shows "\<not> h < th'" "unat (h - th') * 2 ^ 64 + unat (l - tlo) = unat h * 2 ^ 64 + unat l - (unat th * 2 ^ 64 + unat tlo)"
proof -
  have le: "unat th \<le> unat h" "l < tlo \<Longrightarrow> unat th < unat h"
    using assms(1) unat_u64_less [of l] unat_u64_less [of tlo] by (auto simp: word_less_nat_alt)
  have th': "unat th' = unat th + of_bool (l < tlo)"
    using le unat_u64_less [of h] by (auto simp: th'_def unat_add_wrap)
  then show "\<not> h < th'" using le by (auto simp: word_less_nat_alt)
  show "unat (h - th') * 2 ^ 64 + unat (l - tlo) = unat h * 2 ^ 64 + unat l - (unat th * 2 ^ 64 + unat tlo)"
    using th' le unat_u64_less [of l] unat_u64_less [of tlo]
    by (cases "l < tlo") (auto simp: unat_diff_wrap word_less_nat_alt diff_mult_distrib)
qed

lemma div_round_value:
  fixes h l d :: u64
  defines "x \<equiv> unat h * 2 ^ 32 + unat l div 2 ^ 32"
  assumes d: "2 ^ 63 \<le> unat d" and h: "unat h < unat d"
  shows "\<exists>q h' l'. div_round d h l = Some (q, h', l') \<and> unat q = x div unat d \<and> unat q < 2 ^ 32 \<and>
    unat h' * 2 ^ 64 + unat l' = unat h * 2 ^ 64 + unat l - x div unat d * unat d * 2 ^ 32"
proof -
  define dh dl q where "dh = drop_bit BN_BITS4 d" and "dl = d AND BN_MASK2l"
    and "q = (if drop_bit BN_BITS4 h = dh then BN_MASK2l else h div dh)"
  have dhl: "unat dh * 2 ^ 32 + unat dl = unat d"
    unfolding dh_def dl_def unat_drop_bit unat_mask_low by (rule div_mult_mod_eq)
  have dl: "unat dl < 2 ^ 32" by (simp add: dl_def unat_mask_low)
  have "2 ^ 31 \<le> unat dh"
    unfolding dh_def unat_drop_bit using d by (simp add: less_eq_div_iff_mult_less_eq)
  then have dh0: "0 < unat dh" by (rule less_le_trans [rotated]) simp
  note est = div_estimate(1,2) [OF d h, folded dh_def, folded q_def]
    div_estimate(3) [OF d h, of l, folded dh_def, folded q_def x_def]
  obtain q' th tlo where adj: "div_adjust h l dh dl (q, q * dh, dl * q) = Some (q', th, tlo)"
      "unat q' = x div unat d" "unat th = unat q' * unat dh" "unat tlo = unat q' * unat dl"
    using div_adjust_value [of q dh h l dl, unfolded dhl, folded x_def] est dh0 dl by blast
  define t2 th2 where "t2 = push_bit BN_BITS4 tlo" and "th2 = th + drop_bit BN_BITS4 tlo"
  have t2: "unat t2 = unat tlo mod 2 ^ 32 * 2 ^ 32"
    using mult_mod_right [of "2 ^ 32" "unat tlo" "2 ^ 32"] unfolding t2_def unat_push_bit
    by (simp add: mult.commute)
  have "unat q' * unat d \<le> x" using adj(2) by simp
  then have qx: "unat q' * unat d * 2 ^ 32 \<le> unat h * 2 ^ 64 + unat l"
  proof -
    have "unat q' * unat d * 2 ^ 32 \<le> x * 2 ^ 32" using \<open>unat q' * unat d \<le> x\<close> by (rule mult_right_mono) simp
    also have "\<dots> = unat h * 2 ^ 64 + unat l div 2 ^ 32 * 2 ^ 32" by (simp add: x_def)
    also have "\<dots> \<le> unat h * 2 ^ 64 + unat l" by simp
    finally show ?thesis .
  qed
  have parts: "unat q' * unat d = (unat th + unat tlo div 2 ^ 32) * 2 ^ 32 + unat tlo mod 2 ^ 32"
    using div_mult_mod_eq [of "unat tlo" "2 ^ 32"] unfolding dhl [symmetric] adj(3) distrib_left adj(4) [symmetric]
    by (simp only: add_mult_distrib mult.assoc add.assoc)
  have "(x * 2 ^ 32 + m) * 2 ^ 32 = x * 2 ^ 64 + m * 2 ^ 32" for x m :: nat by simp
  from this [of "unat th + unat tlo div 2 ^ 32" "unat tlo mod 2 ^ 32"]
  have shifted: "unat q' * unat d * 2 ^ 32 = (unat th + unat tlo div 2 ^ 32) * 2 ^ 64 + unat t2"
    by (simp only: parts t2)
  with qx have "(unat th + unat tlo div 2 ^ 32) * 2 ^ 64 + unat t2 \<le> unat h * 2 ^ 64 + unat l" by simp
  then have th2: "unat th2 = unat th + unat tlo div 2 ^ 32"
    unfolding th2_def using unat_u64_less [of h] unat_u64_less [of l]
    by (subst unat_add_exact) (simp_all add: unat_drop_bit)
  have sub: "unat th2 * 2 ^ 64 + unat t2 = unat q' * unat d * 2 ^ 32"
    by (simp only: th2 shifted)
  from two_word_diff [of th2 t2 h l] qx sub
  have "\<not> h < (if l < t2 then th2 + 1 else th2)"
    "unat (h - (if l < t2 then th2 + 1 else th2)) * 2 ^ 64 + unat (l - t2) = unat h * 2 ^ 64 + unat l - x div unat d * unat d * 2 ^ 32"
    using adj(2) by simp_all
  moreover have "div_round d h l = Some (q', h - (if l < t2 then th2 + 1 else th2), l - t2)"
    using adj(1) calculation(1)
    unfolding div_round_def drop_mask_high push_mask_high Let_def dh_def [symmetric] dl_def [symmetric] q_def [symmetric]
    by (auto simp: push_mask_high simp flip: t2_def th2_def split: if_splits)
  moreover have "unat q' < 2 ^ 32" using est adj(2) by linarith
  ultimately show ?thesis using adj(2) by blast
qed

text \<open>Both rounds on a normalised divisor.\<close>

lemma div_rounds:
  fixes h l d :: u64
  assumes d: "2 ^ 63 \<le> unat d" and h: "unat h < unat d"
  shows "\<exists>q h1 l1 q2 r. div_round d h l = Some (q, h1, l1) \<and>
    div_round d (push_bit BN_BITS4 h1 OR drop_bit BN_BITS4 l1) (push_bit BN_BITS4 (l1 AND BN_MASK2l)) = Some (q2, r) \<and>
    unat (push_bit BN_BITS4 q OR q2) = (unat h * 2 ^ 64 + unat l) div unat d"
proof -
  define x where "x = unat h * 2 ^ 32 + unat l div 2 ^ 32"
  define y where "y = unat h * 2 ^ 64 + unat l - x div unat d * unat d * 2 ^ 32"
  obtain q h1 l1 where r1: "div_round d h l = Some (q, h1, l1)" "unat q = x div unat d" "unat q < 2 ^ 32"
      "unat h1 * 2 ^ 64 + unat l1 = y"
    using div_round_value [OF d h, of l, folded x_def, folded y_def] by blast
  have xl: "unat h * 2 ^ 64 + unat l = x * 2 ^ 32 + unat l mod 2 ^ 32"
    using div_mult_mod_eq [of "unat l" "2 ^ 32"] by (simp add: x_def)
  have "x * 2 ^ 32 = x div unat d * unat d * 2 ^ 32 + x mod unat d * 2 ^ 32"
    by (simp only: add_mult_distrib [symmetric] div_mult_mod_eq)
  then have y: "y = x mod unat d * 2 ^ 32 + unat l mod 2 ^ 32" unfolding y_def xl by linarith
  have "x mod unat d + 1 \<le> unat d" using h by (simp add: Suc_leI)
  then have "(x mod unat d + 1) * 2 ^ 32 \<le> unat d * 2 ^ 32" by (rule mult_right_mono) simp
  moreover have "unat l mod 2 ^ 32 < 2 ^ 32" by simp
  ultimately have yd: "y < unat d * 2 ^ 32" unfolding y add_mult_distrib by linarith
  define h2 l2 where "h2 = push_bit BN_BITS4 h1 OR drop_bit BN_BITS4 l1" and "l2 = push_bit BN_BITS4 (l1 AND BN_MASK2l)"
  have "unat h1 * 2 ^ 64 < 2 ^ 32 * 2 ^ 64" using yd r1(4) unat_u64_less [of d] by simp
  then have "unat h1 < 2 ^ 32" by simp
  then have h2: "unat h2 = unat h1 * 2 ^ 32 + unat l1 div 2 ^ 32"
    unfolding h2_def using unat_u64_less [of l1]
    by (subst unat_or_push) (simp_all add: unat_drop_bit less_mult_imp_div_less)
  have l2: "unat l2 div 2 ^ 32 = unat l1 mod 2 ^ 32"
    unfolding l2_def unat_push_bit unat_mask_low by simp
  have y2: "unat h2 * 2 ^ 32 + unat l2 div 2 ^ 32 = y"
    using r1(4) div_mult_mod_eq [of "unat l1" "2 ^ 32"] unfolding h2 l2 by simp
  have "unat h2 * 2 ^ 32 < unat d * 2 ^ 32" using y2 yd by linarith
  then have "unat h2 < unat d" by simp
  from div_round_value [OF d this, of l2, unfolded y2]
  obtain q2 r where r2: "div_round d h2 l2 = Some (q2, r)" "unat q2 = y div unat d" "unat q2 < 2 ^ 32"
    by (metis prod.collapse)
  have "unat (push_bit BN_BITS4 q OR q2) = x div unat d * 2 ^ 32 + y div unat d"
    using r1(2,3) r2(2,3) by (subst unat_or_push) simp_all
  also have "\<dots> = (unat h * 2 ^ 64 + unat l) div unat d"
  proof -
    have "x div unat d * unat d * 2 ^ 32 \<le> unat h * 2 ^ 64 + unat l"
      unfolding xl by (rule trans_le_add1) (rule mult_right_mono, simp_all)
    then have "unat h * 2 ^ 64 + unat l = y + x div unat d * 2 ^ 32 * unat d" by (simp add: y_def ac_simps)
    then show ?thesis using h by simp
  qed
  finally show ?thesis using r1(1) r2(1) unfolding h2_def l2_def by blast
qed

lemma shifted_pair:
  fixes h l d :: u64
  assumes "0 < i" "i < 64" "unat h * 2 ^ i < 2 ^ 64"
  shows "unat (push_bit i h OR drop_bit (64 - i) l) * 2 ^ 64 + unat (push_bit i l) = (unat h * 2 ^ 64 + unat l) * 2 ^ i"
proof -
  have W: "(2 :: nat) ^ 64 = 2 ^ (64 - i) * 2 ^ i" using assms(2) by (simp flip: power_add)
  have "unat l div 2 ^ (64 - i) < 2 ^ i"
    using unat_u64_less [of l] unfolding W by (simp add: less_mult_imp_div_less mult.commute)
  then have "unat (push_bit i h OR drop_bit (64 - i) l) = unat h * 2 ^ i + unat l div 2 ^ (64 - i)"
    using assms(3) by (subst unat_or_push) (simp_all add: unat_drop_bit)
  moreover have "unat (push_bit i l) = unat l mod 2 ^ (64 - i) * 2 ^ i"
    unfolding unat_push_bit using W mult_mod_left [of "unat l" "2 ^ (64 - i)" "2 ^ i"] by simp
  moreover have "unat l div 2 ^ (64 - i) * 2 ^ 64 + unat l mod 2 ^ (64 - i) * 2 ^ i = unat l * 2 ^ i"
    using div_mult_mod_eq [of "unat l" "2 ^ (64 - i)"] unfolding W by (metis add_mult_distrib mult.assoc)
  ultimately show ?thesis by (simp add: add_mult_distrib)
qed

lemma bn_div_words_value:
  assumes "h < d"
  shows "\<exists>q. bn_div_words h l d = Some q \<and> unat q = (unat h * 2 ^ 64 + unat l) div unat d"
proof -
  define n where "n = unat (BN_num_bits_word d)"
  have d0: "d \<noteq> 0" using assms by auto
  note bits = BN_num_bits_word_bounds [OF d0, folded n_def]
  have h: "unat h < unat d" using assms by (simp add: word_less_nat_alt)
  have notge: "\<not> d \<le> h" using assms by simp
  show ?thesis
  proof (cases "n = 64")
    case True
    then have "2 ^ 63 \<le> unat d" using bits(3) by simp
    from div_rounds [OF this h, of l] show ?thesis
      using d0 notge True by (auto simp: bn_div_words_def n_def Let_def)
  next
    case False
    define i where "i = 64 - n"
    have i: "0 < i" "i < 64" "n + i = 64" using bits(1,2) False by (auto simp: i_def)
    have W: "(2 :: nat) ^ 64 = 2 ^ n * 2 ^ i" "(2 :: nat) ^ 63 = 2 ^ (n - 1) * 2 ^ i"
      using i bits(1) by (simp_all flip: power_add)
    have "unat d * 2 ^ i < 2 ^ n * 2 ^ i" using bits(4) by simp
    then have "unat d * 2 ^ i < 2 ^ 64" by (simp only: W(1))
    then have d': "unat (push_bit i d) = unat d * 2 ^ i" by (simp add: unat_push_bit [of i d])
    have "2 ^ (n - 1) * 2 ^ i \<le> unat d * 2 ^ i" using bits(3) by (intro mult_right_mono) simp_all
    then have dn: "2 ^ 63 \<le> unat (push_bit i d)" unfolding d' W(2) .
    have "unat h * 2 ^ i < unat d * 2 ^ i" using h by simp
    then have "unat h * 2 ^ i < 2 ^ 64" using \<open>unat d * 2 ^ i < 2 ^ n * 2 ^ i\<close> unfolding W(1) by linarith
    note pair = shifted_pair [OF i(1,2) this, of l]
    define h' where "h' = push_bit i h OR drop_bit (64 - i) l"
    have "unat h' * 2 ^ 64 \<le> (unat h * 2 ^ 64 + unat l) * 2 ^ i" using pair by (simp add: h'_def)
    also have "\<dots> < (unat d * 2 ^ 64) * 2 ^ i"
    proof -
      have "(unat h + 1) * 2 ^ 64 \<le> unat d * 2 ^ 64" using h by (intro mult_right_mono) simp_all
      then have "unat h * 2 ^ 64 + unat l < unat d * 2 ^ 64" using unat_u64_less [of l] by simp
      then show ?thesis by (rule mult_strict_right_mono) simp
    qed
    finally have "unat h' * 2 ^ 64 < unat d * 2 ^ i * 2 ^ 64" by (simp only: ac_simps)
    then have "unat h' < unat (push_bit i d)" unfolding d' by (simp only: mult_less_cancel2)
    from div_rounds [OF dn this, of "push_bit i l"] pair
    show ?thesis
      using d0 notge i(1) by (auto simp: bn_div_words_def n_def [symmetric] i_def [symmetric] h'_def d' Let_def)
  qed
qed

end
