(* ===== verification/Bignum.thy ===== *)
theory Bignum
  imports BN_Words
begin

text \<open>
  The multi-precision integers of \<^verbatim>\<open>crypto/bn\<close>: the object, its storage, comparison, addition and subtraction (\<^verbatim>\<open>bn_lib.c\<close>,
  \<^verbatim>\<open>bn_add.c\<close>) over the word routines. A \<^verbatim>\<open>BIGNUM\<close> holds sign and magnitude, the words of its array from \<open>bn_top\<close> on being unused. The result of
  an operation may be one of its arguments; \<open>bn_arg\<close> says which object an argument is. The argument
  \<open>mem\<close> tells for which numbers of words an allocation succeeds. The build without \<^verbatim>\<open>BN_DEBUG\<close> is modelled:
  \<^verbatim>\<open>BN_FLG_FIXED_TOP\<close> is no bit and the checks of \<open>bn_top\<close> are empty. Shown: with \<open>bn_int\<close>, the integer that an object
  stands for, the operations compute what their names say and keep the invariant \<open>bn_ok\<close>.
\<close>

section \<open>Objects\<close>

record BIGNUM =
  bn_d :: "u64 list"
  bn_top :: nat
  bn_dmax :: nat
  bn_neg :: bool
  bn_flags :: u32

abbreviation "BN_FLG_MALLOCED \<equiv> 0x01 :: u32"
abbreviation "BN_FLG_STATIC_DATA \<equiv> 0x02 :: u32"
abbreviation "BN_FLG_CONSTTIME \<equiv> 0x04 :: u32"
abbreviation "BN_FLG_SECURE \<equiv> 0x08 :: u32"
abbreviation "BN_FLG_FIXED_TOP \<equiv> 0 :: u32"

datatype bn_arg = Result | Other BIGNUM

definition bn_of :: "BIGNUM \<Rightarrow> bn_arg \<Rightarrow> BIGNUM" where
  "bn_of r x = (case x of Result \<Rightarrow> r | Other a \<Rightarrow> a)"

definition arg_words :: "bn_arg \<Rightarrow> operand" where
  "arg_words x = (case x of Result \<Rightarrow> Itself | Other a \<Rightarrow> Words (bn_d a))"

definition BN_new :: BIGNUM where
  "BN_new = \<lparr>bn_d = [], bn_top = 0, bn_dmax = 0, bn_neg = False, bn_flags = BN_FLG_MALLOCED\<rparr>"

definition BN_get_flags :: "BIGNUM \<Rightarrow> u32 \<Rightarrow> bool" where
  "BN_get_flags b n = has_flag (bn_flags b) n"

definition bn_expand_internal :: "(nat \<Rightarrow> bool) \<Rightarrow> BIGNUM \<Rightarrow> nat \<Rightarrow> u64 list option" where
  "bn_expand_internal mem b words =
     (if int words > INT_MAX div (4 * 64) then None
      else if BN_get_flags b BN_FLG_STATIC_DATA then None
      else if \<not> mem words then None
      else Some (take (bn_top b) (bn_d b) @ replicate (words - bn_top b) 0))"

definition bn_expand2 :: "(nat \<Rightarrow> bool) \<Rightarrow> BIGNUM \<Rightarrow> nat \<Rightarrow> BIGNUM option" where
  "bn_expand2 mem b words =
     (if words > bn_dmax b
      then map_option (\<lambda>a. b\<lparr>bn_d := a, bn_dmax := words\<rparr>) (bn_expand_internal mem b words)
      else Some b)"

definition bn_wexpand :: "(nat \<Rightarrow> bool) \<Rightarrow> BIGNUM \<Rightarrow> nat \<Rightarrow> BIGNUM option" where
  "bn_wexpand mem a words = (if words \<le> bn_dmax a then Some a else bn_expand2 mem a words)"

definition bn_expand :: "(nat \<Rightarrow> bool) \<Rightarrow> BIGNUM \<Rightarrow> nat \<Rightarrow> BIGNUM option" where
  "bn_expand mem a bits =
     (if int bits > INT_MAX - int BN_BITS2 + 1 then None
      else if (bits + BN_BITS2 - 1) div BN_BITS2 \<le> bn_dmax a then Some a
      else bn_expand2 mem a ((bits + BN_BITS2 - 1) div BN_BITS2))"

text \<open>The number of words up to the last one that is not zero, as \<^verbatim>\<open>bn_correct_top\<close> and \<^verbatim>\<open>BN_usub\<close> search it.\<close>

fun strip_top :: "u64 list \<Rightarrow> nat \<Rightarrow> nat" where
  "strip_top ws 0 = 0"
| "strip_top ws (Suc n) = (if ws ! n = 0 then strip_top ws n else Suc n)"

definition bn_correct_top :: "BIGNUM \<Rightarrow> BIGNUM" where
  "bn_correct_top a =
     (let a = (if bn_top a > 0 then a\<lparr>bn_top := strip_top (bn_d a) (bn_top a)\<rparr> else a);
          a = (if bn_top a = 0 then a\<lparr>bn_neg := False\<rparr> else a)
      in a\<lparr>bn_flags := bn_flags a AND NOT BN_FLG_FIXED_TOP\<rparr>)"

definition BN_is_zero :: "BIGNUM \<Rightarrow> bool" where
  "BN_is_zero a \<longleftrightarrow> bn_top a = 0"

definition BN_set_word :: "(nat \<Rightarrow> bool) \<Rightarrow> BIGNUM \<Rightarrow> u64 \<Rightarrow> bool \<times> BIGNUM" where
  "BN_set_word mem a w =
     (case bn_expand mem a (BN_BYTES * 8) of
        None \<Rightarrow> (False, a)
      | Some a \<Rightarrow> (True, a\<lparr>bn_neg := False, bn_d := (bn_d a)[0 := w], bn_top := (if w \<noteq> 0 then 1 else 0),
          bn_flags := bn_flags a AND NOT BN_FLG_FIXED_TOP\<rparr>))"

definition BN_zero :: "(nat \<Rightarrow> bool) \<Rightarrow> BIGNUM \<Rightarrow> BIGNUM" where
  "BN_zero mem a = snd (BN_set_word mem a 0)"

definition BN_set_negative :: "BIGNUM \<Rightarrow> bool \<Rightarrow> BIGNUM" where
  "BN_set_negative a b = a\<lparr>bn_neg := b \<and> \<not> BN_is_zero a\<rparr>"

section \<open>Comparison\<close>

fun cmp_from :: "u64 list \<Rightarrow> u64 list \<Rightarrow> nat \<Rightarrow> int \<Rightarrow> int \<Rightarrow> int" where
  "cmp_from ap bp 0 gt lt = 0"
| "cmp_from ap bp (Suc i) gt lt =
     (if ap ! i > bp ! i then gt else if ap ! i < bp ! i then lt else cmp_from ap bp i gt lt)"

definition BN_ucmp :: "BIGNUM \<Rightarrow> BIGNUM \<Rightarrow> int" where
  "BN_ucmp a b =
     (let i = int (bn_top a) - int (bn_top b) in
      if i \<noteq> 0 then i else cmp_from (bn_d a) (bn_d b) (bn_top a) 1 (- 1))"

definition BN_cmp :: "BIGNUM option \<Rightarrow> BIGNUM option \<Rightarrow> int" where
  "BN_cmp x y =
     (case (x, y) of
        (None, None) \<Rightarrow> 0 | (Some a, None) \<Rightarrow> - 1 | (None, Some b) \<Rightarrow> 1
      | (Some a, Some b) \<Rightarrow>
          if bn_neg a \<noteq> bn_neg b then (if bn_neg a then - 1 else 1)
          else let (gt, lt) = (if \<not> bn_neg a then (1, - 1) else (- 1, 1)) in
            if bn_top a > bn_top b then gt
            else if bn_top a < bn_top b then lt
            else cmp_from (bn_d a) (bn_d b) (bn_top a) gt lt)"

section \<open>Addition and subtraction\<close>

definition uadd_step :: "u64 \<Rightarrow> u64 \<Rightarrow> u64 \<Rightarrow> u64 \<times> u64" where
  "uadd_step carry t1 x = (let t2 = t1 + carry in (t2, carry AND of_bool (t2 = 0)))"

definition usub_step :: "u64 \<Rightarrow> u64 \<Rightarrow> u64 \<Rightarrow> u64 \<times> u64" where
  "usub_step borrow t1 x = (t1 - borrow, borrow AND of_bool (t1 = 0))"

definition BN_uadd :: "(nat \<Rightarrow> bool) \<Rightarrow> BIGNUM \<Rightarrow> bn_arg \<Rightarrow> bn_arg \<Rightarrow> bool \<times> BIGNUM" where
  "BN_uadd mem r x y =
     (let (x, y) = (if bn_top (bn_of r x) < bn_top (bn_of r y) then (y, x) else (x, y));
          max = bn_top (bn_of r x); min = bn_top (bn_of r y)
      in case bn_wexpand mem r (max + 1) of
           None \<Rightarrow> (False, r)
         | Some r \<Rightarrow>
             let (carry, rp) = bn_add_words 0 (bn_d r) (arg_words x) (arg_words y) min;
                 (i, rp, carry) = (round_at uadd_step 0 (arg_words x) (arg_words x) ^^ (max - min)) (min, rp, carry)
             in (True, r\<lparr>bn_d := rp[max := carry], bn_top := max + unat carry, bn_neg := False\<rparr>))"

definition BN_usub :: "(nat \<Rightarrow> bool) \<Rightarrow> BIGNUM \<Rightarrow> bn_arg \<Rightarrow> bn_arg \<Rightarrow> bool \<times> BIGNUM" where
  "BN_usub mem r x y =
     (let max = bn_top (bn_of r x); min = bn_top (bn_of r y) in
      if max < min then (False, r)
      else case bn_wexpand mem r max of
           None \<Rightarrow> (False, r)
         | Some r \<Rightarrow>
             let (borrow, rp) = bn_sub_words 0 (bn_d r) (arg_words x) (arg_words y) min;
                 (i, rp, borrow) = (round_at usub_step 0 (arg_words x) (arg_words x) ^^ (max - min)) (min, rp, borrow)
             in (True, r\<lparr>bn_d := rp, bn_top := strip_top rp max, bn_neg := False\<rparr>))"

definition BN_add :: "(nat \<Rightarrow> bool) \<Rightarrow> BIGNUM \<Rightarrow> bn_arg \<Rightarrow> bn_arg \<Rightarrow> bool \<times> BIGNUM" where
  "BN_add mem r x y =
     (let a = bn_of r x; b = bn_of r y;
          (r_neg, ret, r) =
            (if bn_neg a = bn_neg b then (bn_neg a, BN_uadd mem r x y)
             else if BN_ucmp a b > 0 then (bn_neg a, BN_usub mem r x y)
             else if BN_ucmp a b < 0 then (bn_neg b, BN_usub mem r y x)
             else (False, True, BN_zero mem r))
      in (ret, r\<lparr>bn_neg := r_neg\<rparr>))"

definition BN_sub :: "(nat \<Rightarrow> bool) \<Rightarrow> BIGNUM \<Rightarrow> bn_arg \<Rightarrow> bn_arg \<Rightarrow> bool \<times> BIGNUM" where
  "BN_sub mem r x y =
     (let a = bn_of r x; b = bn_of r y;
          (r_neg, ret, r) =
            (if bn_neg a \<noteq> bn_neg b then (bn_neg a, BN_uadd mem r x y)
             else if BN_ucmp a b > 0 then (bn_neg a, BN_usub mem r x y)
             else if BN_ucmp a b < 0 then (\<not> bn_neg b, BN_usub mem r y x)
             else (False, True, BN_zero mem r))
      in (ret, r\<lparr>bn_neg := r_neg\<rparr>))"

section \<open>The integer an object stands for\<close>

definition bn_words :: "BIGNUM \<Rightarrow> u64 list" where
  "bn_words a = take (bn_top a) (bn_d a)"

definition bn_nat :: "BIGNUM \<Rightarrow> nat" where
  "bn_nat a = wval (bn_words a)"

definition bn_int :: "BIGNUM \<Rightarrow> int" where
  "bn_int a = (if bn_neg a then - int (bn_nat a) else int (bn_nat a))"

text \<open>The array has the size that is recorded, and neither leading zeros nor a negative zero occur. \<open>bn_sized\<close> is what is
  left of it before the top has been corrected.\<close>

definition bn_sized :: "BIGNUM \<Rightarrow> bool" where
  "bn_sized a \<longleftrightarrow> length (bn_d a) = bn_dmax a \<and> bn_top a \<le> bn_dmax a"

definition bn_ok :: "BIGNUM \<Rightarrow> bool" where
  "bn_ok a \<longleftrightarrow> bn_sized a \<and> (bn_top a > 0 \<longrightarrow> bn_d a ! (bn_top a - 1) \<noteq> 0) \<and> (bn_top a = 0 \<longrightarrow> \<not> bn_neg a)"

definition normal :: "u64 list \<Rightarrow> bool" where
  "normal ws \<longleftrightarrow> (ws \<noteq> [] \<longrightarrow> last ws \<noteq> 0)"

lemma bn_ok_normal: "bn_ok a \<longleftrightarrow> bn_sized a \<and> normal (bn_words a) \<and> (bn_top a = 0 \<longrightarrow> \<not> bn_neg a)"
  by (auto simp: bn_ok_def bn_sized_def normal_def bn_words_def last_conv_nth)

lemma length_bn_words: "bn_sized a \<Longrightarrow> length (bn_words a) = bn_top a"
  by (simp add: bn_sized_def bn_words_def)

lemma normal_bound:
  assumes "normal ws" "ws \<noteq> []"
  shows "2 ^ (64 * (length ws - 1)) \<le> wval ws"
proof -
  have "wval ws = wval (butlast ws) + 2 ^ (64 * length (butlast ws)) * unat (last ws)"
    using wval_append [of "butlast ws" "[last ws]"] assms(2) by simp
  moreover have "1 \<le> unat (last ws)" using assms by (simp add: normal_def Suc_le_eq unat_gt_0)
  then have "2 ^ (64 * length (butlast ws)) * 1 \<le> 2 ^ (64 * length (butlast ws)) * unat (last ws)"
    by (rule mult_left_mono) simp
  ultimately show ?thesis unfolding length_butlast [symmetric] by linarith
qed

lemma normalI:
  assumes "2 ^ (64 * (length ws - 1)) \<le> wval ws"
  shows "normal ws"
  unfolding normal_def
proof
  assume "ws \<noteq> []"
  then have "wval ws = wval (butlast ws) + 2 ^ (64 * (length ws - 1)) * unat (last ws)"
    using wval_append [of "butlast ws" "[last ws]"] by simp
  with assms wval_less [of "butlast ws"] show "last ws \<noteq> 0" by auto
qed

lemma normal_zero: "normal ws \<Longrightarrow> wval ws = 0 \<longleftrightarrow> ws = []"
  using normal_bound by (metis le_zero_eq power_not_zero wval.simps(1) zero_neq_numeral)

lemma normal_longer:
  assumes "normal ws" "length vs < length ws"
  shows "wval vs < wval ws"
proof -
  have "wval vs < 2 ^ (64 * length vs)" by (rule wval_less)
  also have "\<dots> \<le> 2 ^ (64 * (length ws - 1))" using assms(2) by (intro power_increasing) simp_all
  also have "\<dots> \<le> wval ws" using assms by (intro normal_bound) auto
  finally show ?thesis .
qed

lemma wval_snoc: "wval (ws @ [w]) = wval ws + 2 ^ (64 * length ws) * unat w"
  by (simp add: wval_append)

lemma wval_snoc_less:
  assumes "length ws = length vs" "w < v"
  shows "wval (ws @ [w]) < wval (vs @ [v])"
proof -
  have "wval ws < 2 ^ (64 * length ws)" by (rule wval_less)
  moreover have "2 ^ (64 * length ws) * (unat w + 1) \<le> 2 ^ (64 * length ws) * unat v"
    using assms(2) by (intro mult_left_mono) (simp_all add: word_less_nat_alt)
  ultimately show ?thesis using assms(1) unfolding wval_snoc by simp
qed

lemma cmp_from_value:
  assumes "n \<le> length ap" "n \<le> length bp"
  shows "cmp_from ap bp n gt lt =
    (if wval (take n ap) > wval (take n bp) then gt else if wval (take n ap) < wval (take n bp) then lt else 0)"
  using assms
proof (induction n)
  case (Suc n)
  have tk: "take (Suc n) ap = take n ap @ [ap ! n]" "take (Suc n) bp = take n bp @ [bp ! n]"
    using Suc.prems by (simp_all add: take_Suc_conv_app_nth)
  have len: "length (take n ap) = length (take n bp)" using Suc.prems by simp
  show ?case
    using Suc wval_snoc_less [OF len, of "ap ! n" "bp ! n"] wval_snoc_less [OF len [symmetric], of "bp ! n" "ap ! n"]
    unfolding tk by (cases "ap ! n" "bp ! n" rule: linorder_cases) (auto simp: wval_snoc)
qed simp

lemma BN_ucmp_value:
  assumes "bn_ok a" "bn_ok b"
  shows "BN_ucmp a b > 0 \<longleftrightarrow> bn_nat a > bn_nat b" "BN_ucmp a b < 0 \<longleftrightarrow> bn_nat a < bn_nat b"
proof -
  have a: "normal (bn_words a)" "length (bn_words a) = bn_top a" and b: "normal (bn_words b)" "length (bn_words b) = bn_top b"
    using assms by (simp_all add: bn_ok_normal length_bn_words)
  have *: "(BN_ucmp a b > 0 \<longleftrightarrow> bn_nat a > bn_nat b) \<and> (BN_ucmp a b < 0 \<longleftrightarrow> bn_nat a < bn_nat b)"
  proof (cases "bn_top a" "bn_top b" rule: linorder_cases)
    case less
    then show ?thesis using normal_longer [OF b(1), of "bn_words a"] a b by (simp add: BN_ucmp_def bn_nat_def)
  next
    case greater
    then show ?thesis using normal_longer [OF a(1), of "bn_words b"] a b by (simp add: BN_ucmp_def bn_nat_def)
  next
    case equal
    then show ?thesis using assms cmp_from_value [of "bn_top a" "bn_d a" "bn_d b" 1 "- 1"]
      by (simp add: BN_ucmp_def bn_nat_def bn_words_def bn_ok_def bn_sized_def)
  qed
  show "BN_ucmp a b > 0 \<longleftrightarrow> bn_nat a > bn_nat b" "BN_ucmp a b < 0 \<longleftrightarrow> bn_nat a < bn_nat b" using * by simp_all
qed

section \<open>Storage\<close>

lemma bn_wexpand_Some:
  assumes "bn_wexpand mem a n = Some a'" "bn_sized a"
  shows "bn_sized a' \<and> n \<le> bn_dmax a' \<and> bn_words a' = bn_words a \<and> bn_top a' = bn_top a \<and> bn_neg a' = bn_neg a \<and>
    bn_flags a' = bn_flags a"
  using assms
  by (auto simp: bn_wexpand_def bn_expand2_def bn_expand_internal_def bn_sized_def bn_words_def split: if_splits)

lemma bn_wexpand_fails:
  "bn_wexpand mem a n = None \<longleftrightarrow>
     bn_dmax a < n \<and> (int n > INT_MAX div (4 * 64) \<or> BN_get_flags a BN_FLG_STATIC_DATA \<or> \<not> mem n)"
  by (auto simp: bn_wexpand_def bn_expand2_def bn_expand_internal_def)

lemma arg_words_expanded:
  assumes "bn_sized r'" "bn_words r' = bn_words r" "bn_top r' = bn_top r" "bn_sized (bn_of r x)"
  shows "bn_top (bn_of r x) \<le> length (operand_words (arg_words x) (bn_d r') 0)"
    "take (bn_top (bn_of r x)) (operand_words (arg_words x) (bn_d r') 0) = bn_words (bn_of r x)"
  using assms by (cases x; simp add: arg_words_def operand_words_def bn_of_def bn_sized_def bn_words_def)+

text \<open>The two loops of an addition or subtraction: the words both numbers have, then those of the longer one.\<close>

lemma two_phases:
  assumes main: "carry_chain step1 is_bit sg 1 y" and tail: "carry_chain step2 is_bit sg 1 0"
    and loop1: "(if m = 0 then (0, r) else word_loop step1 0 r a b m) = (c1, r1)"
    and loop2: "(round_at step2 0 a a ^^ (n - m)) (m, r1, c1) = (i, r2, c2)"
    and len: "m \<le> n" "n \<le> length r" "n \<le> length (operand_words a r 0)" "m \<le> length (operand_words b r 0)"
  shows "\<exists>ws. r2 = ws @ drop n r \<and> length ws = n \<and> is_bit c2 \<and>
    int (wval ws) + sg * (2 ^ (64 * n) * int (unat c2)) =
      int (wval (take n (operand_words a r 0))) + y * int (wval (take m (operand_words b r 0)))"
proof -
  obtain ws1 where 1: "r1 = ws1 @ drop m r" "length ws1 = m" "is_bit c1"
      "int (wval ws1) + sg * (2 ^ (64 * m) * int (unat c1)) =
        int (wval (take m (operand_words a r 0))) + y * int (wval (take m (operand_words b r 0)))"
  proof (cases "m = 0")
    case False
    with carry_chain.word_loop_value [OF main, of m a r 0 b c1 r1] loop1 len that show ?thesis by force
  qed (use loop1 that [of "[]"] in simp)
  have a1: "drop m (operand_words a r1 0) = drop m (operand_words a r 0)"
    using 1 by (cases a) (simp_all add: operand_words_def)
  have la: "length (operand_words a r1 0) \<ge> n"
    using 1 len by (cases a) (simp_all add: operand_words_def)
  let ?as = "take (n - m) (drop m (operand_words a r 0))"
  have as: "length ?as = n - m" using len by simp
  have "(round_at step2 0 a a ^^ (n - m)) (m, r1, c1) =
      (let (ws, c) = chain step2 c1 ?as ?as in (n, take m r1 @ ws @ drop n r1, c))"
    using round_at_funpow [of m "n - m" a r1 0 a step2 c1] la len 1 a1 by simp
  moreover define ws2 where "ws2 = fst (chain step2 c1 ?as ?as)"
  ultimately have 2: "r2 = ws1 @ ws2 @ drop n r" "c2 = snd (chain step2 c1 ?as ?as)"
    using loop2 1(1,2) len(1) by (auto simp: split_def Let_def)
  have len2: "length ws2 = n - m" using as by (simp add: ws2_def)
  have v2: "is_bit c2" "int (wval ws2) + sg * (2 ^ (64 * (n - m)) * int (unat c2)) = int (wval ?as) + sg * int (unat c1)"
    using carry_chain.chain_value [OF tail refl 1(3), of ?as] as 2(2) by (simp_all add: ws2_def)
  have ta: "take n (operand_words a r 0) = take m (operand_words a r 0) @ ?as"
    using len(1) by (simp add: take_add [symmetric])
  have exp: "(2 :: int) ^ (64 * n) = 2 ^ (64 * m) * 2 ^ (64 * (n - m))"
    using len(1) by (simp add: power_add [symmetric] diff_mult_distrib2)
  have "int (wval (ws1 @ ws2)) + sg * (2 ^ (64 * n) * int (unat c2)) =
      int (wval ws1) + 2 ^ (64 * m) * (int (wval ws2) + sg * (2 ^ (64 * (n - m)) * int (unat c2)))"
    unfolding exp using 1(2) by (simp add: wval_append algebra_simps)
  also have "\<dots> = int (wval ws1) + sg * (2 ^ (64 * m) * int (unat c1)) + 2 ^ (64 * m) * int (wval ?as)"
    unfolding v2(2) by (simp add: algebra_simps)
  also have "\<dots> = int (wval (take n (operand_words a r 0))) + y * int (wval (take m (operand_words b r 0)))"
    unfolding ta 1(4) using len by (simp add: wval_append)
  finally show ?thesis using 2(1) v2(1) len2 1(2) len(1) by (intro exI [of _ "ws1 @ ws2"]) simp
qed

interpretation uadd_chain: carry_chain uadd_step is_bit 1 1 0
proof
  fix c a b :: u64
  assume c: "is_bit c"
  then have "c = 0 \<or> c = 1" by (auto simp: word_unat_eq_iff)
  moreover have "a + 1 = 0 \<longleftrightarrow> unat a = 2 ^ 64 - 1" using unat_u64_less [of a] unat_add_wrap [of a 1] by (auto simp: word_unat_eq_iff)
  ultimately show "is_bit (snd (uadd_step c a b))"
    "int (unat (fst (uadd_step c a b))) + 1 * (2 ^ 64 * int (unat (snd (uadd_step c a b)))) =
      1 * int (unat a) + 0 * int (unat b) + 1 * int (unat c)"
    using unat_u64_less [of a] unat_add_wrap [of a 1] by (auto simp: uadd_step_def Let_def)
qed simp

interpretation usub_chain: carry_chain usub_step is_bit "- 1" 1 0
proof
  fix c a b :: u64
  assume c: "is_bit c"
  then have "c = 0 \<or> c = 1" by (auto simp: word_unat_eq_iff)
  moreover have "a = 0 \<longleftrightarrow> unat a = 0" by (simp add: unat_eq_0)
  ultimately show "is_bit (snd (usub_step c a b))"
    "int (unat (fst (usub_step c a b))) + - 1 * (2 ^ 64 * int (unat (snd (usub_step c a b)))) =
      1 * int (unat a) + 0 * int (unat b) + - 1 * int (unat c)"
    using unat_u64_less [of a] unat_diff_wrap [of a 1] by (auto simp: usub_step_def Let_def)
qed simp

section \<open>Addition and subtraction are exact\<close>

lemma strip_top_le: "strip_top ws n \<le> n"
  by (induction n) simp_all

lemma strip_top_normal: "n \<le> length ws \<Longrightarrow> normal (take (strip_top ws n) ws)"
  by (induction n) (auto simp: normal_def last_conv_nth)

lemma strip_top_value: "n \<le> length ws \<Longrightarrow> wval (take (strip_top ws n) ws) = wval (take n ws)"
  by (induction n) (simp_all add: take_Suc_conv_app_nth wval_snoc)

lemma BN_uadd_value:
  assumes "bn_ok (bn_of r x)" "bn_ok (bn_of r y)" "bn_sized r" "BN_uadd mem r x y = (ret, r')"
  shows "if ret then bn_ok r' \<and> bn_nat r' = bn_nat (bn_of r x) + bn_nat (bn_of r y) \<and> \<not> bn_neg r'
    else r' = r \<and> bn_wexpand mem r (max (bn_top (bn_of r x)) (bn_top (bn_of r y)) + 1) = None"
proof -
  obtain u v where uv: "(u, v) = (if bn_top (bn_of r x) < bn_top (bn_of r y) then (y, x) else (x, y))" by (metis surj_pair)
  define n m where "n = bn_top (bn_of r u)" and "m = bn_top (bn_of r v)"
  have le: "m \<le> n" and n: "n = max (bn_top (bn_of r x)) (bn_top (bn_of r y))"
    and sum: "bn_nat (bn_of r u) + bn_nat (bn_of r v) = bn_nat (bn_of r x) + bn_nat (bn_of r y)"
    and ok: "bn_ok (bn_of r u)" "bn_ok (bn_of r v)"
    using uv assms(1,2) by (auto simp: n_def m_def split: if_splits)
  show ?thesis
  proof (cases "bn_wexpand mem r (n + 1)")
    case None
    then show ?thesis using assms(4) n uv by (auto simp: BN_uadd_def n_def Let_def split: if_splits)
  next
    case (Some r1)
    have r1: "bn_sized r1" "n + 1 \<le> bn_dmax r1" "bn_words r1 = bn_words r" "bn_top r1 = bn_top r"
      using bn_wexpand_Some [OF Some assms(3)] by simp_all
    have len: "n + 1 \<le> length (bn_d r1)" using r1 by (simp add: bn_sized_def)
    note args = arg_words_expanded [OF r1(1,3,4)]
    have sized: "bn_sized (bn_of r u)" "bn_sized (bn_of r v)" using ok by (simp_all add: bn_ok_def)
    obtain c1 w1 where l1: "bn_add_words 0 (bn_d r1) (arg_words u) (arg_words v) m = (c1, w1)" by fastforce
    obtain i w2 c2 where l2: "(round_at uadd_step 0 (arg_words u) (arg_words u) ^^ (n - m)) (m, w1, c1) = (i, w2, c2)"
      by (metis prod_cases3)
    have res: "ret" "r' = r1\<lparr>bn_d := w2[n := c2], bn_top := n + unat c2, bn_neg := False\<rparr>"
      using assms(4) Some l1 l2 uv by (auto simp: BN_uadd_def n_def m_def Let_def split: if_splits)
    obtain ws where ws: "w2 = ws @ drop n (bn_d r1)" "length ws = n" "is_bit c2"
        "int (wval ws) + 1 * (2 ^ (64 * n) * int (unat c2)) = int (bn_nat (bn_of r u)) + 1 * int (bn_nat (bn_of r v))"
      using two_phases [OF add_chain.carry_chain_axioms uadd_chain.carry_chain_axioms _ l2 le, of "bn_d r1" "arg_words v"]
        l1 [unfolded bn_add_words_def] args sized len
      unfolding n_def m_def bn_nat_def by (metis Suc_eq_plus1 Suc_leD)
    have upd: "w2[n := c2] = ws @ [c2] @ drop (Suc n) (bn_d r1)"
      using ws len by (simp add: list_update_append Cons_nth_drop_Suc [symmetric] del: Cons_nth_drop_Suc)
    have v: "wval ws + 2 ^ (64 * n) * unat c2 = bn_nat (bn_of r u) + bn_nat (bn_of r v)"
      using ws(4) by (simp flip: of_nat_eq_iff [where 'a = int])
    have words: "bn_words r' = (if c2 = 0 then ws else ws @ [c2])"
      using ws(2,3) by (auto simp: res(2) bn_words_def upd le_Suc_eq unat_eq_0)
    have "normal (bn_words r')"
    proof (cases "c2 = 0")
      case True
      have "2 ^ (64 * (n - 1)) \<le> bn_nat (bn_of r u)" if "ws \<noteq> []"
      proof -
        have "bn_words (bn_of r u) \<noteq> []" using that ws(2) length_bn_words [OF sized(1)] by (auto simp: n_def)
        with normal_bound [of "bn_words (bn_of r u)"] ok(1) length_bn_words [OF sized(1)] show ?thesis
          by (simp add: bn_ok_normal bn_nat_def n_def)
      qed
      then show ?thesis using True v ws(2) words normalI [of ws] by (cases "ws = []") (auto simp: normal_def)
    qed (simp add: words normal_def)
    moreover have "wval (bn_words r') = bn_nat (bn_of r u) + bn_nat (bn_of r v)"
      using v ws(2) by (auto simp: words wval_snoc)
    moreover have "bn_sized r'"
      using r1(1,2) ws(2,3) len by (auto simp: res(2) bn_sized_def upd)
    ultimately show ?thesis using res sum by (simp add: bn_ok_normal bn_nat_def)
  qed
qed

lemma BN_usub_value:
  assumes "bn_ok (bn_of r x)" "bn_ok (bn_of r y)" "bn_sized r" "BN_usub mem r x y = (ret, r')"
    and ge: "bn_nat (bn_of r y) \<le> bn_nat (bn_of r x)"
  shows "if ret then bn_ok r' \<and> bn_nat r' = bn_nat (bn_of r x) - bn_nat (bn_of r y) \<and> \<not> bn_neg r'
    else r' = r \<and> bn_wexpand mem r (bn_top (bn_of r x)) = None"
proof -
  define n m where "n = bn_top (bn_of r x)" and "m = bn_top (bn_of r y)"
  have sized: "bn_sized (bn_of r x)" "bn_sized (bn_of r y)" using assms(1,2) by (simp_all add: bn_ok_def)
  have le: "m \<le> n"
    using normal_longer [of "bn_words (bn_of r y)" "bn_words (bn_of r x)"] ge assms(1,2) sized
    by (auto simp: bn_ok_normal length_bn_words bn_nat_def n_def m_def not_less [symmetric])
  show ?thesis
  proof (cases "bn_wexpand mem r n")
    case None
    then show ?thesis using assms(4) le by (auto simp: BN_usub_def n_def m_def Let_def)
  next
    case (Some r1)
    have r1: "bn_sized r1" "n \<le> bn_dmax r1" "bn_words r1 = bn_words r" "bn_top r1 = bn_top r"
      using bn_wexpand_Some [OF Some assms(3)] by simp_all
    have len: "n \<le> length (bn_d r1)" using r1 by (simp add: bn_sized_def)
    note args = arg_words_expanded [OF r1(1,3,4)]
    obtain c1 w1 where l1: "bn_sub_words 0 (bn_d r1) (arg_words x) (arg_words y) m = (c1, w1)" by fastforce
    obtain i w2 c2 where l2: "(round_at usub_step 0 (arg_words x) (arg_words x) ^^ (n - m)) (m, w1, c1) = (i, w2, c2)"
      by (metis prod_cases3)
    have res: "ret" "r' = r1\<lparr>bn_d := w2, bn_top := strip_top w2 n, bn_neg := False\<rparr>"
      using assms(4) Some l1 l2 le by (auto simp: BN_usub_def n_def m_def Let_def)
    obtain ws where ws: "w2 = ws @ drop n (bn_d r1)" "length ws = n" "is_bit c2"
        "int (wval ws) + - 1 * (2 ^ (64 * n) * int (unat c2)) = int (bn_nat (bn_of r x)) + - 1 * int (bn_nat (bn_of r y))"
      using two_phases [OF sub_chain.carry_chain_axioms usub_chain.carry_chain_axioms _ l2 le, of "bn_d r1" "arg_words y"]
        l1 [unfolded bn_sub_words_def] args sized len
      unfolding n_def m_def bn_nat_def by metis
    have c2: "unat c2 = 0"
    proof (rule ccontr)
      assume "unat c2 \<noteq> 0"
      then have "unat c2 = 1" using ws(3) by linarith
      then have "int (wval ws) = 2 ^ (64 * n) + int (bn_nat (bn_of r x)) - int (bn_nat (bn_of r y))" using ws(4) by simp
      moreover have "int (wval ws) < int (2 ^ (64 * n))" using wval_less [of ws] ws(2) by (simp only: of_nat_less_iff)
      ultimately show False using ge by simp
    qed
    have w2: "n \<le> length w2" "wval (take n w2) = bn_nat (bn_of r x) - bn_nat (bn_of r y)"
      using ws c2 ge by auto
    have "bn_words r' = take (strip_top w2 n) w2" by (simp add: res(2) bn_words_def)
    then have "normal (bn_words r')" "wval (bn_words r') = bn_nat (bn_of r x) - bn_nat (bn_of r y)"
      using strip_top_normal [OF w2(1)] strip_top_value [OF w2(1)] w2(2) by simp_all
    moreover have "bn_sized r'"
      using r1(1,2) ws(1,2) len strip_top_le [of w2 n] by (auto simp: res(2) bn_sized_def)
    ultimately show ?thesis using res by (simp add: bn_ok_normal bn_nat_def)
  qed
qed

lemma BN_zero_value:
  assumes "bn_sized r"
  shows "bn_sized (BN_zero mem r) \<and> bn_top (BN_zero mem r) = 0"
  using assms
  by (auto simp: BN_zero_def BN_set_word_def bn_expand_def bn_expand2_def bn_expand_internal_def bn_sized_def
      split: option.splits if_splits)

lemma bn_nat_top_0 [simp]: "bn_top r = 0 \<Longrightarrow> bn_nat r = 0"
  by (simp add: bn_nat_def bn_words_def)

lemma bn_nat_neg [simp]: "bn_nat (r\<lparr>bn_neg := b\<rparr>) = bn_nat r"
  by (simp add: bn_nat_def bn_words_def)

lemma bn_sized_neg [simp]: "bn_sized (r\<lparr>bn_neg := b\<rparr>) = bn_sized r"
  by (simp add: bn_sized_def)

lemma bn_words_neg [simp]: "bn_words (r\<lparr>bn_neg := b\<rparr>) = bn_words r"
  by (simp add: bn_words_def)

lemma bn_nat_zero: "bn_ok r \<Longrightarrow> bn_nat r = 0 \<longleftrightarrow> bn_top r = 0"
  using normal_zero [of "bn_words r"] length_bn_words [of r] by (auto simp: bn_ok_normal bn_nat_def)

lemma bn_ok_signed: "bn_ok r \<Longrightarrow> bn_nat r \<noteq> 0 \<or> \<not> b \<Longrightarrow> bn_ok (r\<lparr>bn_neg := b\<rparr>)"
  by (auto simp: bn_ok_def)

lemma bn_int_signed: "bn_int (r\<lparr>bn_neg := b\<rparr>) = (if b then - int (bn_nat r) else int (bn_nat r))"
  by (simp add: bn_int_def)

lemma bn_ok_sign: "bn_ok a \<Longrightarrow> bn_neg a \<Longrightarrow> 0 < bn_nat a"
  using bn_nat_zero [of a] by (auto simp: bn_ok_def)

text \<open>What a signed operation has to show of its result: the value, or a failed allocation that changed no digit.\<close>

definition computed :: "(nat \<Rightarrow> bool) \<Rightarrow> BIGNUM \<Rightarrow> nat \<Rightarrow> int \<Rightarrow> bool \<times> BIGNUM \<Rightarrow> bool" where
  "computed mem r n z res = (case res of (ret, r') \<Rightarrow>
     if ret then bn_ok r' \<and> bn_int r' = z else bn_words r' = bn_words r \<and> (\<exists>m\<le>n. bn_wexpand mem r m = None))"

lemma computed_uadd:
  assumes "bn_ok (bn_of r x)" "bn_ok (bn_of r y)" "bn_sized r" "BN_uadd mem r x y = (ret, r')"
    and z: "int (bn_nat (bn_of r x) + bn_nat (bn_of r y)) = (if s then - z else z)" and s: "s \<Longrightarrow> z \<noteq> 0"
  shows "computed mem r (max (bn_top (bn_of r x)) (bn_top (bn_of r y)) + 1) z (ret, r'\<lparr>bn_neg := s\<rparr>)"
  using BN_uadd_value [OF assms(1-4)] z s
  by (cases s) (auto simp: computed_def bn_int_signed intro!: bn_ok_signed split: if_splits)

lemma computed_usub:
  assumes "bn_ok (bn_of r x)" "bn_ok (bn_of r y)" "bn_sized r" "BN_usub mem r x y = (ret, r')"
    and z: "int (bn_nat (bn_of r x)) - int (bn_nat (bn_of r y)) = (if s then - z else z)"
    and "bn_nat (bn_of r y) < bn_nat (bn_of r x)" "bn_top (bn_of r x) \<le> n"
  shows "computed mem r n z (ret, r'\<lparr>bn_neg := s\<rparr>)"
proof -
  have v: "if ret then bn_ok r' \<and> bn_nat r' = bn_nat (bn_of r x) - bn_nat (bn_of r y) \<and> \<not> bn_neg r'
    else r' = r \<and> bn_wexpand mem r (bn_top (bn_of r x)) = None"
    using BN_usub_value [OF assms(1-4)] assms(6) by simp
  then show ?thesis
    using assms(5-7) by (cases s) (auto simp: computed_def bn_int_signed of_nat_diff intro!: bn_ok_signed split: if_splits)
qed

lemma computed_zero:
  assumes "bn_sized r"
  shows "computed mem r n 0 (True, (BN_zero mem r)\<lparr>bn_neg := False\<rparr>)"
  using BN_zero_value [OF assms, of mem] by (simp add: computed_def bn_int_signed bn_ok_def)

lemma computed_add:
  assumes "bn_ok r" "bn_ok (bn_of r x)" "bn_ok (bn_of r y)"
  shows "computed mem r (max (bn_top (bn_of r x)) (bn_top (bn_of r y)) + 1)
    (bn_int (bn_of r x) + bn_int (bn_of r y)) (BN_add mem r x y)"
proof -
  let ?a = "bn_of r x" and ?b = "bn_of r y"
  have sized: "bn_sized r" using assms(1) by (simp add: bn_ok_def)
  note cmp = BN_ucmp_value [OF assms(2,3)]
  show ?thesis
  proof (cases "bn_neg ?a = bn_neg ?b")
    case True
    obtain ret r' where u: "BN_uadd mem r x y = (ret, r')" by fastforce
    then have "BN_add mem r x y = (ret, r'\<lparr>bn_neg := bn_neg ?a\<rparr>)" using True by (simp add: BN_add_def Let_def)
    then show ?thesis
      using computed_uadd [OF assms(2,3) sized u, of "bn_neg ?a" "bn_int ?a + bn_int ?b"] True
        bn_ok_sign [OF assms(2)] bn_ok_sign [OF assms(3)] by (auto simp: bn_int_def)
  next
    case False
    consider "bn_nat ?a > bn_nat ?b" | "bn_nat ?a < bn_nat ?b" | "bn_nat ?a = bn_nat ?b" by linarith
    then show ?thesis
    proof cases
      case 1
      obtain ret r' where u: "BN_usub mem r x y = (ret, r')" by fastforce
      then have "BN_add mem r x y = (ret, r'\<lparr>bn_neg := bn_neg ?a\<rparr>)" using False 1 cmp by (simp add: BN_add_def Let_def)
      then show ?thesis
        using computed_usub [OF assms(2,3) sized u _ 1, of "bn_neg ?a" "bn_int ?a + bn_int ?b"] False
        by (auto simp: bn_int_def)
    next
      case 2
      obtain ret r' where u: "BN_usub mem r y x = (ret, r')" by fastforce
      then have "BN_add mem r x y = (ret, r'\<lparr>bn_neg := bn_neg ?b\<rparr>)" using False 2 cmp by (simp add: BN_add_def Let_def)
      then show ?thesis
        using computed_usub [OF assms(3,2) sized u _ 2, of "bn_neg ?b" "bn_int ?a + bn_int ?b"] False
        by (auto simp: bn_int_def)
    next
      case 3
      then have "BN_add mem r x y = (True, (BN_zero mem r)\<lparr>bn_neg := False\<rparr>)" using False cmp by (simp add: BN_add_def Let_def)
      then show ?thesis using computed_zero [OF sized] False 3 by (auto simp: bn_int_def)
    qed
  qed
qed

lemma computed_sub:
  assumes "bn_ok r" "bn_ok (bn_of r x)" "bn_ok (bn_of r y)"
  shows "computed mem r (max (bn_top (bn_of r x)) (bn_top (bn_of r y)) + 1)
    (bn_int (bn_of r x) - bn_int (bn_of r y)) (BN_sub mem r x y)"
proof -
  let ?a = "bn_of r x" and ?b = "bn_of r y"
  have sized: "bn_sized r" using assms(1) by (simp add: bn_ok_def)
  note cmp = BN_ucmp_value [OF assms(2,3)]
  show ?thesis
  proof (cases "bn_neg ?a = bn_neg ?b")
    case False
    obtain ret r' where u: "BN_uadd mem r x y = (ret, r')" by fastforce
    then have "BN_sub mem r x y = (ret, r'\<lparr>bn_neg := bn_neg ?a\<rparr>)" using False by (simp add: BN_sub_def Let_def)
    then show ?thesis
      using computed_uadd [OF assms(2,3) sized u, of "bn_neg ?a" "bn_int ?a - bn_int ?b"] False
        bn_ok_sign [OF assms(2)] bn_ok_sign [OF assms(3)] by (auto simp: bn_int_def)
  next
    case True
    consider "bn_nat ?a > bn_nat ?b" | "bn_nat ?a < bn_nat ?b" | "bn_nat ?a = bn_nat ?b" by linarith
    then show ?thesis
    proof cases
      case 1
      obtain ret r' where u: "BN_usub mem r x y = (ret, r')" by fastforce
      then have "BN_sub mem r x y = (ret, r'\<lparr>bn_neg := bn_neg ?a\<rparr>)" using True 1 cmp by (simp add: BN_sub_def Let_def)
      then show ?thesis
        using computed_usub [OF assms(2,3) sized u _ 1, of "bn_neg ?a" "bn_int ?a - bn_int ?b"] True
        by (auto simp: bn_int_def)
    next
      case 2
      obtain ret r' where u: "BN_usub mem r y x = (ret, r')" by fastforce
      then have "BN_sub mem r x y = (ret, r'\<lparr>bn_neg := \<not> bn_neg ?b\<rparr>)" using True 2 cmp by (simp add: BN_sub_def Let_def)
      then show ?thesis
        using computed_usub [OF assms(3,2) sized u _ 2, of "\<not> bn_neg ?b" "bn_int ?a - bn_int ?b"] True
        by (auto simp: bn_int_def)
    next
      case 3
      then have "BN_sub mem r x y = (True, (BN_zero mem r)\<lparr>bn_neg := False\<rparr>)" using True cmp by (simp add: BN_sub_def Let_def)
      then show ?thesis using computed_zero [OF sized] True 3 by (auto simp: bn_int_def)
    qed
  qed
qed

lemma bn_int_less:
  assumes "bn_ok a" "bn_ok b"
  shows "bn_int a < bn_int b \<longleftrightarrow>
    (if bn_neg a \<noteq> bn_neg b then bn_neg a else if bn_neg a then bn_nat b < bn_nat a else bn_nat a < bn_nat b)"
  using bn_ok_sign [OF assms(1)] bn_ok_sign [OF assms(2)] by (auto simp: bn_int_def)

lemma top_order:
  assumes "bn_ok a" "bn_ok b" "bn_top a < bn_top b"
  shows "bn_nat a < bn_nat b"
  using normal_longer [of "bn_words b" "bn_words a"] assms length_bn_words [of a] length_bn_words [of b]
  by (simp add: bn_ok_normal bn_nat_def)

lemma BN_cmp_value:
  assumes "bn_ok a" "bn_ok b"
  shows "BN_cmp (Some a) (Some b) =
    (if bn_int b < bn_int a then 1 else if bn_int a < bn_int b then - 1 else 0)"
proof -
  have eq: "cmp_from (bn_d a) (bn_d b) (bn_top a) gt lt =
      (if bn_nat a > bn_nat b then gt else if bn_nat a < bn_nat b then lt else 0)" if "bn_top a = bn_top b" for gt lt
    using cmp_from_value [of "bn_top a" "bn_d a" "bn_d b" gt lt] assms that
    by (simp add: bn_nat_def bn_words_def bn_ok_def bn_sized_def)
  show ?thesis
    using top_order [OF assms] top_order [OF assms(2,1)] bn_int_less [OF assms] bn_int_less [OF assms(2,1)] eq
    by (cases "bn_top a" "bn_top b" rule: linorder_cases) (auto simp: BN_cmp_def)
qed

section \<open>Properties\<close>

text \<open>
  C28. \<^verbatim>\<open>BN_add\<close> and \<^verbatim>\<open>BN_sub\<close> of well-formed numbers, the result being any of the arguments or another object: the
  call fails only where the array cannot be enlarged, and then no digit of the result has changed; otherwise
  the result is well formed and is the sum or the difference.
\<close>

theorem bn_add_sub_correct:
  assumes "bn_ok r" "bn_ok (bn_of r x)" "bn_ok (bn_of r y)"
  shows "(case BN_add mem r x y of (ret, r') \<Rightarrow>
      (if ret then bn_ok r' \<and> bn_int r' = bn_int (bn_of r x) + bn_int (bn_of r y)
       else bn_words r' = bn_words r \<and>
         (\<exists>n\<le>max (bn_top (bn_of r x)) (bn_top (bn_of r y)) + 1. bn_wexpand mem r n = None))) \<and>
    (case BN_sub mem r x y of (ret, r') \<Rightarrow>
      (if ret then bn_ok r' \<and> bn_int r' = bn_int (bn_of r x) - bn_int (bn_of r y)
       else bn_words r' = bn_words r \<and>
         (\<exists>n\<le>max (bn_top (bn_of r x)) (bn_top (bn_of r y)) + 1. bn_wexpand mem r n = None)))"
  by (rule conjI) (rule computed_add [OF assms, unfolded computed_def] computed_sub [OF assms, unfolded computed_def])+

definition small_bn :: "bool \<Rightarrow> u64 list \<Rightarrow> BIGNUM" where
  "small_bn s ws = \<lparr>bn_d = ws, bn_top = length ws, bn_dmax = length ws, bn_neg = s, bn_flags = BN_FLG_MALLOCED\<rparr>"

theorem bn_add_sub_correct_witness:
  "bn_int (snd (BN_add (\<lambda>_. True) (small_bn False [5]) Result (Other (small_bn True [0, 1])))) = 5 - 2 ^ 64"
proof -
  let ?r = "small_bn False [5]" and ?y = "Other (small_bn True [0, 1])"
  have ok: "bn_ok ?r" "bn_ok (bn_of ?r Result)" "bn_ok (bn_of ?r ?y)"
    by (simp_all add: small_bn_def bn_ok_def bn_sized_def bn_of_def)
  have "bn_wexpand (\<lambda>_. True) ?r n \<noteq> None" if "n \<le> 3" for n
    using that by (simp add: bn_wexpand_fails BN_get_flags_def small_bn_def has_flag_def)
  then have "\<not> (\<exists>n\<le>max (bn_top (bn_of ?r Result)) (bn_top (bn_of ?r ?y)) + 1. bn_wexpand (\<lambda>_. True) ?r n = None)"
    by (auto simp: bn_of_def small_bn_def)
  moreover have "bn_int (bn_of ?r Result) = 5" "bn_int (bn_of ?r ?y) = - (2 ^ 64)"
    by (simp_all add: bn_of_def small_bn_def bn_int_def bn_nat_def bn_words_def)
  ultimately show ?thesis
    using bn_add_sub_correct [OF ok, of "\<lambda>_. True"] by (auto split: prod.splits if_splits)
qed

text \<open>
  \<^verbatim>\<open>BN_cmp\<close> compares the integers that two well-formed numbers stand for, and \<^verbatim>\<open>BN_ucmp\<close> their magnitudes.
\<close>

theorem bn_cmp_correct:
  assumes "bn_ok a" "bn_ok b"
  shows "BN_cmp (Some a) (Some b) = sgn (bn_int a - bn_int b) \<and>
    sgn (BN_ucmp a b) = sgn (int (bn_nat a) - int (bn_nat b))"
  using BN_cmp_value [OF assms] BN_ucmp_value [OF assms]
  by (auto simp: sgn_if)

theorem bn_cmp_correct_witness:
  "BN_cmp (Some (small_bn True [7])) (Some (small_bn True [1, 1])) = 1"
proof -
  have "bn_ok (small_bn True [7])" "bn_ok (small_bn True [1, 1])"
    by (simp_all add: small_bn_def bn_ok_def bn_sized_def)
  from bn_cmp_correct [OF this] show ?thesis
    by (simp add: small_bn_def bn_int_def bn_nat_def bn_words_def)
qed

end
