(* ===== verification/BN_Shift.thy ===== *)
theory BN_Shift
  imports Bignum
begin

text \<open>
  Shifts of multi-precision integers (\<^verbatim>\<open>crypto/bn/bn_shift.c\<close>). They work in place where the result is the argument, and
  masks stand in place of a shift by the whole width of a word, which C leaves undefined. Shown: they multiply and divide by
  powers of two.
\<close>

section \<open>Shifts\<close>

definition lshift1_step :: "u64 \<Rightarrow> u64 \<Rightarrow> u64 \<Rightarrow> u64 \<times> u64" where
  "lshift1_step c t x = (push_bit 1 t OR c, drop_bit (BN_BITS2 - 1) t)"

definition BN_lshift1 :: "(nat \<Rightarrow> bool) \<Rightarrow> BIGNUM \<Rightarrow> bn_arg \<Rightarrow> bool \<times> BIGNUM" where
  "BN_lshift1 mem r x =
     (let a = bn_of r x; r = r\<lparr>bn_neg := bn_neg a\<rparr> in
      case bn_wexpand mem r (bn_top a + 1) of
        None \<Rightarrow> (False, r)
      | Some r \<Rightarrow>
          let (i, rp, c) = (round_at lshift1_step 0 (arg_words x) (arg_words x) ^^ bn_top a) (0, bn_d r, 0)
          in (True, r\<lparr>bn_d := rp[bn_top a := c], bn_top := bn_top a + unat c\<rparr>))"

text \<open>The word above the lowest \<open>i\<close> has left its lowest bit in \<open>c\<close>.\<close>

fun rshift1_loop :: "operand \<Rightarrow> nat \<Rightarrow> u64 list \<Rightarrow> u64 \<Rightarrow> u64 list" where
  "rshift1_loop x 0 rp c = rp"
| "rshift1_loop x (Suc i) rp c =
     (let t = word_at x rp 0 i in rshift1_loop x i (rp[i := drop_bit 1 t OR c]) (push_bit (BN_BITS2 - 1) t))"

definition BN_rshift1 :: "(nat \<Rightarrow> bool) \<Rightarrow> BIGNUM \<Rightarrow> bn_arg \<Rightarrow> bool \<times> BIGNUM" where
  "BN_rshift1 mem r x =
     (let a = bn_of r x in
      if BN_is_zero a then (True, BN_zero mem r)
      else case (case x of Result \<Rightarrow> Some r | Other b \<Rightarrow> bn_wexpand mem r (bn_top a)) of
        None \<Rightarrow> (False, r)
      | Some r \<Rightarrow>
          let t = word_at (arg_words x) (bn_d r) 0 (bn_top a - 1);
              tp = bn_top a - of_bool (t = 1);
              rp = rshift1_loop (arg_words x) (bn_top a) (bn_d r) 0
          in (True, r\<lparr>bn_d := rp, bn_top := tp, bn_neg := bn_neg a \<and> tp \<noteq> 0\<rparr>))"

text \<open>A mask of all bits, or of none where the number of bits is zero.\<close>

definition shift_mask :: "nat \<Rightarrow> u64" where
  "shift_mask n = (let m = 0 - of_nat n in m OR drop_bit 8 m)"

fun lshift_loop :: "nat \<Rightarrow> nat \<Rightarrow> u64 \<Rightarrow> operand \<Rightarrow> nat \<Rightarrow> nat \<Rightarrow> u64 list \<Rightarrow> u64 \<Rightarrow> u64 list" where
  "lshift_loop lb rb rmask x nw 0 rp l = rp[nw := push_bit lb l]"
| "lshift_loop lb rb rmask x nw (Suc i) rp l =
     (let m = push_bit lb l; l = word_at x rp 0 i
      in lshift_loop lb rb rmask x nw i (rp[nw + Suc i := m OR (drop_bit rb l AND rmask)]) l)"

definition bn_lshift_fixed_top :: "(nat \<Rightarrow> bool) \<Rightarrow> BIGNUM \<Rightarrow> bn_arg \<Rightarrow> nat \<Rightarrow> bool \<times> BIGNUM" where
  "bn_lshift_fixed_top mem r x n =
     (let a = bn_of r x; nw = n div BN_BITS2 in
      case bn_wexpand mem r (bn_top a + nw + 1) of
        None \<Rightarrow> (False, r)
      | Some r \<Rightarrow>
          let rp = (if bn_top a \<noteq> 0
                    then let lb = n mod BN_BITS2; rb = (BN_BITS2 - lb) mod BN_BITS2; rmask = shift_mask rb;
                             l = word_at (arg_words x) (bn_d r) 0 (bn_top a - 1);
                             rp = (bn_d r)[nw + bn_top a := drop_bit rb l AND rmask]
                         in lshift_loop lb rb rmask (arg_words x) nw (bn_top a - 1) rp l
                    else (bn_d r)[nw := 0]);
              rp = replicate nw 0 @ drop nw rp
          in (True, r\<lparr>bn_d := rp, bn_neg := bn_neg a, bn_top := bn_top a + nw + 1,
               bn_flags := bn_flags r OR BN_FLG_FIXED_TOP\<rparr>))"

definition BN_lshift :: "(nat \<Rightarrow> bool) \<Rightarrow> BIGNUM \<Rightarrow> bn_arg \<Rightarrow> int \<Rightarrow> bool \<times> BIGNUM" where
  "BN_lshift mem r x n =
     (if n < 0 then (False, r)
      else let (ret, r) = bn_lshift_fixed_top mem r x (nat n) in (ret, bn_correct_top r))"

fun rshift_loop :: "nat \<Rightarrow> nat \<Rightarrow> u64 \<Rightarrow> operand \<Rightarrow> nat \<Rightarrow> nat \<Rightarrow> nat \<Rightarrow> u64 list \<Rightarrow> u64 \<Rightarrow> u64 list" where
  "rshift_loop rb lb mask' x nw 0 i rp l = rp[i := drop_bit rb l]"
| "rshift_loop rb lb mask' x nw (Suc k) i rp l =
     (let m = word_at x rp 0 (nw + i + 1)
      in rshift_loop rb lb mask' x nw k (Suc i) (rp[i := drop_bit rb l OR (push_bit lb m AND mask')]) m)"

definition bn_rshift_fixed_top :: "(nat \<Rightarrow> bool) \<Rightarrow> BIGNUM \<Rightarrow> bn_arg \<Rightarrow> nat \<Rightarrow> bool \<times> BIGNUM" where
  "bn_rshift_fixed_top mem r x n =
     (let a = bn_of r x; nw = n div BN_BITS2 in
      if nw \<ge> bn_top a then (True, BN_zero mem r)
      else let rb = n mod BN_BITS2; lb = (BN_BITS2 - rb) mod BN_BITS2; tp = bn_top a - nw in
        case (case x of Result \<Rightarrow> Some r | Other a \<Rightarrow> bn_wexpand mem r tp) of
          None \<Rightarrow> (False, r)
        | Some r \<Rightarrow>
            let l = word_at (arg_words x) (bn_d r) 0 nw;
                rp = rshift_loop rb lb (shift_mask lb) (arg_words x) nw (tp - 1) 0 (bn_d r) l
            in (True, r\<lparr>bn_d := rp, bn_neg := bn_neg a, bn_top := tp, bn_flags := bn_flags r OR BN_FLG_FIXED_TOP\<rparr>))"

definition BN_rshift :: "(nat \<Rightarrow> bool) \<Rightarrow> BIGNUM \<Rightarrow> bn_arg \<Rightarrow> int \<Rightarrow> bool \<times> BIGNUM" where
  "BN_rshift mem r x n =
     (if n < 0 then (False, r)
      else let (ret, r) = bn_rshift_fixed_top mem r x (nat n) in (ret, bn_correct_top r))"

section \<open>Words that are shifted\<close>

lemma shift_mask: "n < 64 \<Longrightarrow> shift_mask n = (if n = 0 then 0 else - 1)"
proof (cases "n = 0")
  case False
  assume n: "n < 64"
  have un: "unat (0 - (of_nat n :: u64)) = 2 ^ 64 - n"
    using n False unat_diff_wrap [of 0 "of_nat n"] by (simp add: unat_of_nat)
  have "drop_bit 8 (0 - (of_nat n :: u64)) = mask 56"
  proof -
    have "(2 ^ 64 - n) div 2 ^ 8 = 2 ^ 56 - 1" using n False by (intro div_nat_eqI) simp_all
    then have "unat (drop_bit 8 (0 - (of_nat n :: u64))) = unat (mask 56 :: u64)"
      by (simp only: unat_drop_bit un) (simp add: mask_eq_exp_minus_1)
    then show ?thesis by (simp only: word_unat_eq_iff)
  qed
  moreover have "drop_bit 56 (0 - (of_nat n :: u64)) = mask 8"
  proof -
    have "(2 ^ 64 - n) div 2 ^ 56 = 2 ^ 8 - 1" using n False by (intro div_nat_eqI) simp_all
    then have "unat (drop_bit 56 (0 - (of_nat n :: u64))) = unat (mask 8 :: u64)"
      by (simp only: unat_drop_bit un) (simp add: mask_eq_exp_minus_1)
    then show ?thesis by (simp only: word_unat_eq_iff)
  qed
  then have "bit (drop_bit 56 (0 - (of_nat n :: u64))) k" if "k < 8" for k
    using that by (simp only: bit_mask_iff) simp
  then have "bit (0 - (of_nat n :: u64)) (56 + k)" if "k < 8" for k
    using that by (simp only: bit_drop_bit_eq comp_apply)
  then have high: "bit (0 - (of_nat n :: u64)) k" if "56 \<le> k" "k < 64" for k
    using that le_Suc_ex [OF that(1)] by auto
  ultimately show ?thesis
    unfolding shift_mask_def Let_def
    by (intro bit_word_eqI) (use False high in \<open>auto simp: bit_or_iff bit_mask_iff not_less\<close>)
qed (simp add: shift_mask_def)

definition lshift_step :: "nat \<Rightarrow> u64 \<Rightarrow> u64 \<Rightarrow> u64 \<Rightarrow> u64 \<times> u64" where
  "lshift_step lb c w x = (push_bit lb w OR c, if lb = 0 then 0 else drop_bit (64 - lb) w)"

lemma split_64: "lb < 64 \<Longrightarrow> (2 :: nat) ^ 64 = 2 ^ (64 - lb) * 2 ^ lb"
  by (simp flip: power_add)

lemma unat_push_part:
  assumes "lb < 64"
  shows "unat (push_bit lb (w :: u64)) = unat w mod 2 ^ (64 - lb) * 2 ^ lb"
proof -
  have "unat (push_bit lb w) = unat w * 2 ^ lb mod 2 ^ 64" by (simp add: unat_push_bit [of lb w])
  then show ?thesis unfolding split_64 [OF assms] by (simp only: mult_mod_left)
qed

lemma unat_or_disjoint:
  assumes "unat (c :: u64) < 2 ^ lb" "unat w = k * 2 ^ lb"
  shows "unat (w OR c) = unat w + unat c"
  using nat_or_push [OF assms(1), of k] assms(2) by (simp add: unsigned_or_eq push_bit_eq_mult)

lemma lshift_carry_chain:
  assumes "lb < 64"
  shows "carry_chain (lshift_step lb) (\<lambda>c. unat c < 2 ^ lb) 1 (2 ^ lb) 0"
proof
  fix c a b :: u64
  assume c: "unat c < 2 ^ lb"
  have cy: "unat (snd (lshift_step lb c a b)) = unat a div 2 ^ (64 - lb)"
    using unat_u64_less [of a] by (simp add: lshift_step_def unat_drop_bit)
  have "unat a div 2 ^ (64 - lb) < 2 ^ lb"
    using unat_u64_less [of a] split_64 [OF assms] by (simp add: less_mult_imp_div_less mult.commute)
  then show "unat (snd (lshift_step lb c a b)) < 2 ^ lb" by (simp add: cy)
  have w: "unat (fst (lshift_step lb c a b)) = unat a mod 2 ^ (64 - lb) * 2 ^ lb + unat c"
    using unat_or_disjoint [OF c unat_push_part [OF assms, of a]] unat_push_part [OF assms, of a] by (simp add: lshift_step_def)
  have "unat a mod 2 ^ (64 - lb) * 2 ^ lb + 2 ^ 64 * (unat a div 2 ^ (64 - lb)) = unat a * 2 ^ lb"
  proof -
    have "2 ^ 64 * (unat a div 2 ^ (64 - lb)) = (unat a div 2 ^ (64 - lb) * 2 ^ (64 - lb)) * 2 ^ lb"
      by (simp only: split_64 [OF assms] ac_simps)
    then show ?thesis by (simp only: add_mult_distrib [symmetric] mod_div_mult_eq)
  qed
  then have "unat (fst (lshift_step lb c a b)) + 2 ^ 64 * unat (snd (lshift_step lb c a b)) = 2 ^ lb * unat a + unat c"
    unfolding w cy by (simp add: mult.commute)
  then have "int (unat (fst (lshift_step lb c a b)) + 2 ^ 64 * unat (snd (lshift_step lb c a b))) = int (2 ^ lb * unat a + unat c)"
    by (simp only:)
  then show "int (unat (fst (lshift_step lb c a b))) + 1 * (2 ^ 64 * int (unat (snd (lshift_step lb c a b)))) =
      2 ^ lb * int (unat a) + 0 * int (unat b) + 1 * int (unat c)" by simp
qed simp

definition lshift_words :: "nat \<Rightarrow> u64 list \<Rightarrow> u64 list \<times> u64" where
  "lshift_words lb ws = chain (lshift_step lb) 0 ws ws"

lemma lshift_words_value:
  assumes "lb < 64"
  shows "length (fst (lshift_words lb ws)) = length ws"
    "wval (fst (lshift_words lb ws)) + 2 ^ (64 * length ws) * unat (snd (lshift_words lb ws)) = 2 ^ lb * wval ws"
proof -
  show "length (fst (lshift_words lb ws)) = length ws" by (simp add: lshift_words_def)
  have "int (wval (fst (lshift_words lb ws)) + 2 ^ (64 * length ws) * unat (snd (lshift_words lb ws))) = int (2 ^ lb * wval ws)"
    using carry_chain.chain_value [OF lshift_carry_chain [OF assms] refl, of 0 ws] by (simp add: lshift_words_def)
  then show "wval (fst (lshift_words lb ws)) + 2 ^ (64 * length ws) * unat (snd (lshift_words lb ws)) = 2 ^ lb * wval ws"
    by (simp only: of_nat_eq_iff)
qed

lemma lshift_words_snoc:
  "lshift_words lb (ws @ [w]) = (fst (lshift_words lb ws) @ [push_bit lb w OR snd (lshift_words lb ws)],
     if lb = 0 then 0 else drop_bit (64 - lb) w)"
  by (simp add: lshift_words_def chain_snoc split_def Let_def lshift_step_def)

text \<open>A shift to the right; \<open>c\<close> enters from above.\<close>

definition from_above :: "nat \<Rightarrow> u64 \<Rightarrow> u64" where
  "from_above rb v = (if rb = 0 then 0 else push_bit (64 - rb) v)"

fun rshift_words :: "nat \<Rightarrow> u64 \<Rightarrow> u64 list \<Rightarrow> u64 list" where
  "rshift_words rb c [] = []"
| "rshift_words rb c (w # ws) = (drop_bit rb w OR (if ws = [] then c else from_above rb (hd ws))) # rshift_words rb c ws"

lemma length_rshift_words [simp]: "length (rshift_words rb c ws) = length ws"
  by (induction ws) simp_all

lemma rshift_words_snoc:
  "rshift_words rb c (ws @ [w]) = rshift_words rb (from_above rb w) ws @ [drop_bit rb w OR c]"
  by (induction ws) (auto simp: hd_append)

lemma unat_from_above: "rb < 64 \<Longrightarrow> unat (from_above rb v) = unat v mod 2 ^ rb * 2 ^ (64 - rb)"
  using unat_push_part [of "64 - rb" v] by (simp add: from_above_def)

lemma wval_mod: "rb < 64 \<Longrightarrow> ws \<noteq> [] \<Longrightarrow> wval ws mod 2 ^ rb = unat (hd ws) mod 2 ^ rb"
proof (cases ws)
  case (Cons w vs)
  assume "rb < 64"
  then have "2 ^ 64 * wval vs = 2 ^ rb * (2 ^ (64 - rb) * wval vs)" by (simp only: split_64 mult.assoc mult.left_commute)
  then show ?thesis unfolding Cons by (simp only: wval.simps list.sel mod_mult_self2)
qed simp

lemma rshift_words_value:
  assumes "rb < 64" "unat c = b * 2 ^ (64 - rb)" "b < 2 ^ rb"
  shows "wval (rshift_words rb c ws) = (wval ws + 2 ^ (64 * length ws) * b) div 2 ^ rb"
  using assms(2,3)
proof (induction ws)
  case (Cons w ws)
  define V where "V = wval ws + 2 ^ (64 * length ws) * b"
  define u where "u = (if ws = [] then c else from_above rb (hd ws))"
  have "unat u = V mod 2 ^ rb * 2 ^ (64 - rb)"
  proof (cases "ws = []")
    case False
    then obtain k where k: "length ws = Suc k" by (cases ws) auto
    have "(2 :: nat) ^ (64 * length ws) = 2 ^ rb * (2 ^ (64 - rb) * 2 ^ (64 * k))"
      unfolding k using assms(1) by (simp flip: power_add)
    then have "V mod 2 ^ rb = wval ws mod 2 ^ rb" by (simp add: V_def mult.assoc)
    then show ?thesis using False assms(1) by (simp add: u_def unat_from_above wval_mod)
  qed (use Cons.prems in \<open>simp add: u_def V_def\<close>)
  moreover have low: "unat (drop_bit rb w) < 2 ^ (64 - rb)"
    using unat_u64_less [of w] split_64 [OF assms(1)] by (simp add: unat_drop_bit less_mult_imp_div_less)
  ultimately have "unat (drop_bit rb w OR u) = V mod 2 ^ rb * 2 ^ (64 - rb) + unat w div 2 ^ rb"
    using unat_or_disjoint [OF low, of u "V mod 2 ^ rb"] by (simp add: or.commute unat_drop_bit)
  then have "wval (rshift_words rb c (w # ws)) = unat w div 2 ^ rb + V mod 2 ^ rb * 2 ^ (64 - rb) + 2 ^ 64 * (V div 2 ^ rb)"
    using Cons by (simp add: u_def V_def)
  also have "\<dots> = unat w div 2 ^ rb + 2 ^ (64 - rb) * (V mod 2 ^ rb + 2 ^ rb * (V div 2 ^ rb))"
    unfolding split_64 [OF assms(1)] by (simp only: distrib_left ac_simps)
  also have "\<dots> = (unat w + (2 ^ (64 - rb) * V) * 2 ^ rb) div 2 ^ rb"
    by (simp only: mod_mult_div_eq div_mult_self1) simp
  also have "(2 ^ (64 - rb) * V) * 2 ^ rb = 2 ^ 64 * V" by (simp only: split_64 [OF assms(1)] ac_simps)
  also have "unat w + 2 ^ 64 * V = wval (w # ws) + 2 ^ (64 * length (w # ws)) * b"
    by (simp add: V_def distrib_left power_add)
  finally show ?case .
qed simp

section \<open>The loops of the shifts\<close>

lemma operand_words_update:
  "i \<le> j \<Longrightarrow> take i (operand_words x (r[j := w]) 0) = take i (operand_words x r 0)"
  "j < i \<Longrightarrow> drop i (operand_words x (r[j := w]) 0) = drop i (operand_words x r 0)"
  by (cases x; simp add: operand_words_def)+

lemma length_operand_update [simp]: "length (operand_words x (r[j := w]) 0) = length (operand_words x r 0)"
  by (cases x) (simp_all add: operand_words_def)

lemma word_at_0: "word_at x r 0 i = operand_words x r 0 ! i"
  by (cases x) (simp_all add: word_at_def operand_words_def)

lemma drop_update_head: "j < length r \<Longrightarrow> drop j (r[j := w]) = w # drop (Suc j) r"
  by (metis Cons_nth_drop_Suc drop_update_cancel length_list_update lessI nth_list_update_eq)

lemma nth_take_last: "take n xs = ys \<Longrightarrow> n \<le> length xs \<Longrightarrow> n \<noteq> 0 \<Longrightarrow> xs ! (n - 1) = last ys"
  by (cases n) (auto simp: take_Suc_conv_app_nth)

lemma rshift1_loop_words:
  assumes "n \<le> length rp" "n \<le> length (operand_words x rp 0)"
  shows "rshift1_loop x n rp c = rshift_words 1 c (take n (operand_words x rp 0)) @ drop n rp"
  using assms
proof (induction n arbitrary: rp c)
  case (Suc n)
  let ?t = "operand_words x rp 0 ! n"
  have "take (Suc n) (operand_words x rp 0) = take n (operand_words x rp 0) @ [?t]"
    using Suc.prems by (simp add: take_Suc_conv_app_nth)
  then show ?case
    using Suc by (simp add: word_at_0 operand_words_update rshift_words_snoc drop_update_head from_above_def Let_def)
qed simp

lemma lshift_loop_words:
  assumes "lb < 64" "rb = (64 - lb) mod 64"
    and "nw + Suc i \<le> length rp" "Suc i \<le> length (operand_words x rp 0)" "l = operand_words x rp 0 ! i"
  shows "lshift_loop lb rb (shift_mask rb) x nw i rp l =
    take nw rp @ fst (lshift_words lb (take (Suc i) (operand_words x rp 0))) @ drop (nw + Suc i) rp"
  using assms(3-5)
proof (induction i arbitrary: rp l)
  case 0
  then have "take (Suc 0) (operand_words x rp 0) = [] @ [l]"
    by (cases "operand_words x rp 0") simp_all
  then show ?case
    using 0 lshift_words_snoc [of lb "[]" l] id_take_nth_drop [of nw rp]
    by (simp add: lshift_words_def upd_conv_take_nth_drop)
next
  case (Suc i)
  let ?A = "operand_words x rp 0"
  define v where "v = push_bit lb l OR (drop_bit rb (?A ! i) AND shift_mask rb)"
  have A: "take (Suc (Suc i)) ?A = take (Suc i) ?A @ [l]" "take (Suc i) ?A = take i ?A @ [?A ! i]"
    using Suc.prems by (simp_all add: take_Suc_conv_app_nth)
  have cy: "snd (lshift_words lb (take (Suc i) ?A)) = drop_bit rb (?A ! i) AND shift_mask rb"
    using assms(1,2) unfolding A(2) lshift_words_snoc by (auto simp: shift_mask)
  have "lshift_loop lb rb (shift_mask rb) x nw (Suc i) rp l =
      lshift_loop lb rb (shift_mask rb) x nw i (rp[nw + Suc i := v]) (?A ! i)"
    by (simp add: word_at_0 v_def Let_def)
  also have "\<dots> = take nw rp @ fst (lshift_words lb (take (Suc i) ?A)) @ drop (nw + Suc i) (rp[nw + Suc i := v])"
  proof -
    have "operand_words x (rp[nw + Suc i := v]) 0 ! i = ?A ! i"
      using Suc.prems by (cases x) (simp_all add: operand_words_def)
    then show ?thesis
      using Suc.IH [of "rp[nw + Suc i := v]" "?A ! i"] Suc.prems by (simp add: operand_words_update)
  qed
  also have "drop (nw + Suc i) (rp[nw + Suc i := v]) = v # drop (nw + Suc (Suc i)) rp"
    using Suc.prems drop_update_head [of "nw + Suc i" rp v] by simp
  finally show ?case unfolding A(1) lshift_words_snoc cy by (simp add: v_def)
qed

lemma rshift_loop_words:
  assumes "rb < 64" "lb = (64 - rb) mod 64"
    and "i + Suc k \<le> length rp" "nw + i + Suc k \<le> length (operand_words x rp 0)" "l = operand_words x rp 0 ! (nw + i)"
  shows "rshift_loop rb lb (shift_mask lb) x nw k i rp l =
    take i rp @ rshift_words rb 0 (take (Suc k) (drop (nw + i) (operand_words x rp 0))) @ drop (i + Suc k) rp"
  using assms(3-5)
proof (induction k arbitrary: i rp l)
  case 0
  then have "take (Suc 0) (drop (nw + i) (operand_words x rp 0)) = [l]" by (simp add: take_Suc_conv_app_nth)
  then show ?case using 0 by (simp add: upd_conv_take_nth_drop)
next
  case (Suc k)
  let ?A = "operand_words x rp 0"
  define m where "m = ?A ! (nw + i + 1)"
  define v where "v = drop_bit rb l OR (push_bit lb m AND shift_mask lb)"
  have v: "v = drop_bit rb l OR from_above rb m"
    using assms(1,2) by (auto simp: v_def shift_mask from_above_def)
  have A: "drop (nw + i) ?A = l # drop (nw + Suc i) ?A" "drop (nw + Suc i) ?A = m # drop (nw + Suc (Suc i)) ?A"
    using Suc.prems Cons_nth_drop_Suc [of "nw + i" ?A] Cons_nth_drop_Suc [of "nw + Suc i" ?A] by (simp_all add: m_def)
  have "rshift_loop rb lb (shift_mask lb) x nw (Suc k) i rp l =
      rshift_loop rb lb (shift_mask lb) x nw k (Suc i) (rp[i := v]) m"
    by (simp add: word_at_0 v_def m_def Let_def)
  also have "\<dots> = take (Suc i) (rp[i := v]) @ rshift_words rb 0 (take (Suc k) (drop (nw + Suc i) ?A)) @ drop (Suc i + Suc k) rp"
  proof -
    have "operand_words x (rp[i := v]) 0 ! (nw + Suc i) = m"
      using Suc.prems by (cases x) (simp_all add: operand_words_def m_def)
    then show ?thesis
      using Suc.IH [of "Suc i" "rp[i := v]" m] Suc.prems by (simp add: operand_words_update)
  qed
  also have "take (Suc i) (rp[i := v]) = take i rp @ [v]"
    using Suc.prems by (simp add: take_Suc_conv_app_nth)
  finally show ?case
    using Suc.prems A v by (simp add: hd_drop_conv_nth m_def)
qed

section \<open>Shifts multiply and divide by powers of two\<close>

lemma bn_correct_top_value:
  assumes "bn_sized r"
  shows "bn_ok (bn_correct_top r) \<and> bn_nat (bn_correct_top r) = bn_nat r \<and> bn_int (bn_correct_top r) = bn_int r"
proof -
  let ?n = "strip_top (bn_d r) (bn_top r)"
  have len: "bn_top r \<le> length (bn_d r)" using assms by (simp add: bn_sized_def)
  have d: "bn_d (bn_correct_top r) = bn_d r" "bn_top (bn_correct_top r) = ?n" "bn_dmax (bn_correct_top r) = bn_dmax r"
    "bn_neg (bn_correct_top r) = (bn_neg r \<and> ?n \<noteq> 0)"
    by (auto simp: bn_correct_top_def Let_def)
  have w: "bn_words (bn_correct_top r) = take ?n (bn_d r)" by (simp add: bn_words_def d)
  have "bn_sized (bn_correct_top r)" using assms strip_top_le [of "bn_d r" "bn_top r"] by (simp add: bn_sized_def d)
  moreover have "normal (bn_words (bn_correct_top r))" unfolding w by (rule strip_top_normal [OF len])
  moreover have nat: "bn_nat (bn_correct_top r) = bn_nat r"
    unfolding bn_nat_def w strip_top_value [OF len] by (simp add: bn_words_def)
  moreover have "bn_nat r = 0" if "?n = 0" using nat that by (simp add: bn_nat_def w)
  ultimately show ?thesis by (auto simp: bn_ok_normal d bn_int_def)
qed

lemma bn_correct_top_ok:
  assumes "bn_ok r"
  shows "bn_words (bn_correct_top r) = bn_words r"
proof -
  have "strip_top (bn_d r) (bn_top r) = bn_top r" using assms by (cases "bn_top r") (simp_all add: bn_ok_def)
  then show ?thesis by (simp add: bn_correct_top_def bn_words_def Let_def)
qed

lemma carried:
  assumes "bn_sized r" "n + 1 \<le> bn_dmax r" "length ws = n" "is_bit c"
    and "wval ws + 2 ^ (64 * n) * unat c = v" "0 < n \<Longrightarrow> 2 ^ (64 * (n - 1)) \<le> v"
    and r': "r' = r\<lparr>bn_d := (ws @ drop n (bn_d r))[n := c], bn_top := n + unat c\<rparr>"
  shows "bn_sized r' \<and> normal (bn_words r') \<and> bn_nat r' = v"
proof -
  have len: "n + 1 \<le> length (bn_d r)" using assms by (simp add: bn_sized_def)
  have upd: "(ws @ drop n (bn_d r))[n := c] = ws @ [c] @ drop (Suc n) (bn_d r)"
    using assms(3) len by (simp add: list_update_append drop_update_head [of 0 "drop n (bn_d r)", simplified])
  have words: "bn_words r' = (if c = 0 then ws else ws @ [c])"
    using assms(3,4) by (auto simp: r' bn_words_def upd le_Suc_eq unat_eq_0)
  have "normal (bn_words r')"
  proof (cases "c = 0")
    case True
    then show ?thesis using assms(3,5,6) normalI [of ws] by (cases "n = 0") (auto simp: words normal_def)
  qed (simp add: words normal_def)
  moreover have "bn_nat r' = v" using assms(3,5) by (auto simp: bn_nat_def words wval_snoc)
  moreover have "bn_sized r'" using assms(1-4) len by (auto simp: r' bn_sized_def upd)
  ultimately show ?thesis by simp
qed

lemma bn_okI: "bn_sized r \<Longrightarrow> normal (bn_words r) \<Longrightarrow> (bn_neg r \<Longrightarrow> bn_nat r \<noteq> 0) \<Longrightarrow> bn_ok r"
  using bn_nat_top_0 by (auto simp: bn_ok_normal)

lemma bn_nat_bound: "bn_ok a \<Longrightarrow> 0 < bn_top a \<Longrightarrow> 2 ^ (64 * (bn_top a - 1)) \<le> bn_nat a"
  using normal_bound [of "bn_words a"] length_bn_words [of a] by (force simp: bn_ok_normal bn_nat_def)

lemma expanded_arg:
  assumes "bn_wexpand mem r n = Some r1" "bn_sized r" "bn_sized (bn_of r x)"
  shows "bn_sized r1" "n \<le> bn_dmax r1" "n \<le> length (bn_d r1)" "bn_flags r1 = bn_flags r" "bn_neg r1 = bn_neg r"
    "bn_top (bn_of r x) \<le> length (operand_words (arg_words x) (bn_d r1) 0)"
    "take (bn_top (bn_of r x)) (operand_words (arg_words x) (bn_d r1) 0) = bn_words (bn_of r x)"
  using bn_wexpand_Some [OF assms(1,2)] arg_words_expanded [of r1 r x] assms(3) by (auto simp: bn_sized_def)

lemma bn_of_neg: "bn_top (bn_of (r\<lparr>bn_neg := b\<rparr>) x) = bn_top (bn_of r x)" "bn_words (bn_of (r\<lparr>bn_neg := b\<rparr>) x) = bn_words (bn_of r x)"
  "bn_sized (bn_of (r\<lparr>bn_neg := b\<rparr>) x) = bn_sized (bn_of r x)"
  by (cases x; simp add: bn_of_def)+

lemma bn_wexpand_neg: "bn_wexpand mem (r\<lparr>bn_neg := b\<rparr>) n = None \<longleftrightarrow> bn_wexpand mem r n = None"
  by (simp add: bn_wexpand_fails BN_get_flags_def)

lemma lshift1_step_eq: "lshift1_step = lshift_step 1"
  by (simp add: lshift1_step_def lshift_step_def fun_eq_iff)

lemma computed_lshift1:
  assumes "bn_ok r" "bn_ok (bn_of r x)"
  shows "computed mem r (bn_top (bn_of r x) + 1) (2 * bn_int (bn_of r x)) (BN_lshift1 mem r x)"
proof -
  let ?a = "bn_of r x"
  define r0 n where "r0 = r\<lparr>bn_neg := bn_neg ?a\<rparr>" and "n = bn_top ?a"
  have sized: "bn_sized r0" "bn_sized (bn_of r0 x)" and an: "bn_top (bn_of r0 x) = n" "bn_words (bn_of r0 x) = bn_words ?a"
    using assms by (simp_all add: r0_def bn_of_neg n_def bn_ok_def)
  show ?thesis
  proof (cases "bn_wexpand mem r0 (n + 1)")
    case None
    then have "BN_lshift1 mem r x = (False, r0)" by (simp add: BN_lshift1_def Let_def r0_def n_def)
    then show ?thesis using None by (auto simp: computed_def r0_def n_def bn_wexpand_neg)
  next
    case (Some r1)
    note e = expanded_arg [OF Some sized, unfolded an]
    let ?ws = "bn_words ?a"
    have "(round_at lshift1_step 0 (arg_words x) (arg_words x) ^^ n) (0, bn_d r1, 0) =
        (n, fst (lshift_words 1 ?ws) @ drop n (bn_d r1), snd (lshift_words 1 ?ws))"
      using round_at_funpow [of 0 n "arg_words x" "bn_d r1" 0 "arg_words x" lshift1_step 0] e
      by (simp add: lshift_words_def lshift1_step_eq split_def Let_def)
    then have res: "BN_lshift1 mem r x = (True, r1\<lparr>bn_d := (fst (lshift_words 1 ?ws) @ drop n (bn_d r1))[n := snd (lshift_words 1 ?ws)],
        bn_top := n + unat (snd (lshift_words 1 ?ws))\<rparr>)" (is "_ = (True, ?r')")
      using Some by (simp add: BN_lshift1_def Let_def r0_def n_def)
    have len: "length ?ws = n" using assms(2) length_bn_words [of ?a] by (simp add: n_def bn_ok_def)
    have bit: "is_bit (snd (lshift_words 1 ?ws))"
      using carry_chain.chain_value [OF lshift_carry_chain [of 1] refl, of 0 ?ws] by (simp add: lshift_words_def)
    have bound: "2 ^ (64 * (n - 1)) \<le> 2 * bn_nat ?a" if "0 < n"
      using bn_nat_bound [OF assms(2)] that unfolding n_def by linarith
    have v: "length (fst (lshift_words 1 ?ws)) = n"
      "wval (fst (lshift_words 1 ?ws)) + 2 ^ (64 * n) * unat (snd (lshift_words 1 ?ws)) = 2 * bn_nat ?a"
      using lshift_words_value [of 1 ?ws] len by (simp_all add: bn_nat_def)
    have "bn_sized ?r' \<and> normal (bn_words ?r') \<and> bn_nat ?r' = 2 * bn_nat ?a"
      by (rule carried [OF e(1,2) v(1) bit v(2) bound refl])
    moreover have "bn_neg ?r' = bn_neg ?a" using e(5) by (simp add: r0_def)
    ultimately have "bn_ok ?r'" "bn_int ?r' = 2 * bn_int ?a"
      using bn_ok_sign [OF assms(2)] by (auto intro!: bn_okI simp: bn_int_def)
    then show ?thesis unfolding res computed_def by simp
  qed
qed

lemma BN_zero_ok: "bn_ok r \<Longrightarrow> bn_ok (BN_zero mem r) \<and> bn_int (BN_zero mem r) = 0"
  by (auto simp: BN_zero_def BN_set_word_def bn_expand_def bn_expand2_def bn_expand_internal_def bn_ok_def bn_sized_def
      bn_int_def split: option.splits if_splits)

lemma room_is_wexpand:
  "n \<le> bn_top (bn_of r x) \<Longrightarrow> bn_sized (bn_of r x) \<Longrightarrow>
     (case x of Result \<Rightarrow> Some r | Other a \<Rightarrow> bn_wexpand mem r n) = bn_wexpand mem r n"
  by (cases x) (simp_all add: bn_of_def bn_wexpand_def bn_sized_def)

text \<open>Halving shortens a number by a word where the top word is 1.\<close>

lemma halved_top:
  assumes "normal ws" "ws \<noteq> []"
  defines "n \<equiv> length ws - of_bool (last ws = 1)"
  shows "normal (take n (rshift_words 1 0 ws)) \<and> wval (take n (rshift_words 1 0 ws)) = wval ws div 2"
proof -
  have v: "wval (rshift_words 1 0 ws) = wval ws div 2" using rshift_words_value [of 1 0 0 ws] by simp
  have snoc: "rshift_words 1 0 ws = rshift_words 1 (from_above 1 (last ws)) (butlast ws) @ [drop_bit 1 (last ws)]"
    using rshift_words_snoc [of 1 0 "butlast ws" "last ws"] assms(2) by simp
  show ?thesis
  proof (cases "last ws = 1")
    case False
    have "unat (last ws) \<noteq> 0" "unat (last ws) \<noteq> 1"
      using False assms(1,2) by (auto simp: normal_def word_unat_eq_iff)
    then have "unat (drop_bit 1 (last ws)) \<noteq> 0" unfolding unat_drop_bit by simp
    then have "drop_bit 1 (last ws) \<noteq> 0" by (metis unat_0)
    then have "normal (rshift_words 1 0 ws)" unfolding snoc by (simp add: normal_def)
    then show ?thesis using False v by (simp add: n_def)
  next
    case True
    let ?vs = "rshift_words 1 (from_above 1 (last ws)) (butlast ws)"
    have tk: "take n (rshift_words 1 0 ws) = ?vs" using True unfolding snoc by (simp add: n_def)
    have vv: "wval ?vs = wval ws div 2" using v True unfolding snoc by (simp add: wval_snoc)
    have "2 ^ (64 * (length ?vs - 1)) \<le> wval ?vs" if "?vs \<noteq> []"
    proof -
      from that have "length ?vs \<noteq> 0" by blast
      then have n: "length ws \<ge> 2" by simp
      then obtain k where k: "length ws = Suc (Suc k)" by (metis add_2_eq_Suc le_Suc_ex)
      have "2 ^ (64 * Suc k) \<le> wval ws" using normal_bound [OF assms(1,2)] k by simp
      then have "2 ^ (64 * Suc k) div 2 \<le> wval ws div 2" by (rule div_le_mono)
      moreover have "(2 :: nat) ^ (64 * k) \<le> 2 ^ (64 * Suc k) div 2" by (simp add: power_add)
      ultimately show ?thesis using vv k by simp
    qed
    then have "normal ?vs" using normalI [of ?vs] by (cases "?vs = []") (auto simp: normal_def)
    then show ?thesis using tk vv by simp
  qed
qed

lemma computed_rshift1:
  assumes "bn_ok r" "bn_ok (bn_of r x)"
  shows "computed mem r (bn_top (bn_of r x)) (sgn (bn_int (bn_of r x)) * int (bn_nat (bn_of r x) div 2)) (BN_rshift1 mem r x)"
proof (cases "BN_is_zero (bn_of r x)")
  case True
  then have "bn_int (bn_of r x) = 0" by (simp add: BN_is_zero_def bn_int_def)
  then show ?thesis using True BN_zero_ok [OF assms(1), of mem] by (simp add: BN_rshift1_def computed_def)
next
  case False
  let ?a = "bn_of r x"
  define n where "n = bn_top ?a"
  have sized: "bn_sized r" "bn_sized ?a" using assms by (simp_all add: bn_ok_def)
  have room: "BN_rshift1 mem r x = (case bn_wexpand mem r n of None \<Rightarrow> (False, r) | Some r \<Rightarrow>
      let t = word_at (arg_words x) (bn_d r) 0 (n - 1); tp = n - of_bool (t = 1); rp = rshift1_loop (arg_words x) n (bn_d r) 0
      in (True, r\<lparr>bn_d := rp, bn_top := tp, bn_neg := bn_neg ?a \<and> tp \<noteq> 0\<rparr>))"
    using False room_is_wexpand [of n r x mem] sized(2) by (simp only: BN_rshift1_def n_def Let_def if_False order_refl)
  show ?thesis
  proof (cases "bn_wexpand mem r n")
    case None
    then have "BN_rshift1 mem r x = (False, r)" by (simp add: room)
    then show ?thesis using None by (auto simp: computed_def n_def)
  next
    case (Some r1)
    note e = expanded_arg [OF Some sized, folded n_def]
    define ws tp where "ws = bn_words ?a" and "tp = n - of_bool (last ws = 1)"
    have ws: "normal ws" "length ws = n" "ws \<noteq> []"
      using assms(2) False length_bn_words [OF sized(2)] by (auto simp: ws_def bn_ok_normal n_def BN_is_zero_def)
    have t: "word_at (arg_words x) (bn_d r1) 0 (n - 1) = last ws"
      using nth_take_last [OF e(7,6)] ws(2,3) by (cases "n = 0") (simp_all add: word_at_0 ws_def)
    have "rshift1_loop (arg_words x) n (bn_d r1) 0 = rshift_words 1 0 ws @ drop n (bn_d r1)"
      using rshift1_loop_words [of n "bn_d r1" "arg_words x" 0] e by (simp add: ws_def)
    then have res: "BN_rshift1 mem r x = (True, r1\<lparr>bn_d := rshift_words 1 0 ws @ drop n (bn_d r1), bn_top := tp,
        bn_neg := bn_neg ?a \<and> tp \<noteq> 0\<rparr>)" (is "_ = (True, ?r')")
      using Some t by (simp only: room tp_def Let_def option.case)
    have w: "bn_words ?r' = take tp (rshift_words 1 0 ws)" using ws(2) by (simp add: bn_words_def tp_def)
    have h: "normal (bn_words ?r')" "bn_nat ?r' = bn_nat ?a div 2"
      using halved_top [OF ws(1,3)] ws(2) w by (simp_all add: bn_nat_def tp_def ws_def)
    have "bn_sized ?r'" using e(1-3) ws(2) by (auto simp: bn_sized_def tp_def)
    moreover have "bn_nat ?r' = 0 \<longleftrightarrow> tp = 0"
    proof -
      have "length (bn_words ?r') = tp" using ws(2) unfolding w by (simp add: tp_def)
      then have "bn_words ?r' = [] \<longleftrightarrow> tp = 0" by auto
      then show ?thesis using normal_zero [OF h(1)] unfolding bn_nat_def by simp
    qed
    ultimately have "bn_ok ?r'" "bn_int ?r' = sgn (bn_int ?a) * int (bn_nat ?a div 2)"
      using h bn_ok_sign [OF assms(2)] by (auto intro!: bn_okI simp: bn_int_def sgn_if)
    then show ?thesis unfolding res computed_def by simp
  qed
qed

lemma bn_int_scaled:
  assumes "bn_ok a" "bn_neg r' = bn_neg a" "bn_nat r' = v"
  shows "bn_int r' = (if bn_neg a then - int v else int v)"
  using assms by (simp add: bn_int_def)

lemma lshift_top_words:
  assumes "lb < 64" "rb = (64 - lb) mod 64" "rmask = shift_mask rb" "ws \<noteq> []"
  shows "snd (lshift_words lb ws) = drop_bit rb (last ws) AND rmask"
  using assms(1,2) lshift_words_snoc [of lb "butlast ws" "last ws"] assms(4) unfolding assms(3) by (auto simp: shift_mask)

lemma bn_lshift_words:
  assumes "bn_sized r" "bn_sized (bn_of r x)" "bn_wexpand mem r (bn_top (bn_of r x) + k div 64 + 1) = Some r1"
  defines "ws \<equiv> bn_words (bn_of r x)"
  shows "\<exists>r'. bn_lshift_fixed_top mem r x k = (True, r') \<and> bn_sized r' \<and> bn_neg r' = bn_neg (bn_of r x) \<and>
    bn_words r' = replicate (k div 64) 0 @ fst (lshift_words (k mod 64) ws) @ [snd (lshift_words (k mod 64) ws)]"
proof -
  let ?a = "bn_of r x"
  define n nw lb rb where "n = bn_top ?a" and "nw = k div 64" and "lb = k mod 64" and "rb = (64 - lb) mod 64"
  have lb: "lb < 64" by (simp add: lb_def)
  note e = expanded_arg [OF assms(3,1,2), folded n_def nw_def ws_def]
  have len: "length ws = n" using length_bn_words [OF assms(2)] by (simp add: ws_def n_def)
  have lenf: "length (fst (lshift_words lb ws)) = n" using lshift_words_value(1) [OF lb] len by simp
  define rp where "rp = (if n \<noteq> 0
      then let l = word_at (arg_words x) (bn_d r1) 0 (n - 1); rp = (bn_d r1)[nw + n := drop_bit rb l AND shift_mask rb]
        in lshift_loop lb rb (shift_mask rb) (arg_words x) nw (n - 1) rp l
      else (bn_d r1)[nw := 0])"
  have rp: "rp = take nw (bn_d r1) @ fst (lshift_words lb ws) @ [snd (lshift_words lb ws)] @ drop (nw + n + 1) (bn_d r1)"
  proof (cases "n = 0")
    case True
    then show ?thesis using e(3) len by (simp add: rp_def lshift_words_def upd_conv_take_nth_drop)
  next
    case False
    define c where "c = snd (lshift_words lb ws)"
    have l: "word_at (arg_words x) (bn_d r1) 0 (n - 1) = last ws"
      using nth_take_last [OF e(7,6)] False by (simp add: word_at_0)
    have ne: "ws \<noteq> []" using False len by auto
    have c: "drop_bit rb (last ws) AND shift_mask rb = c"
      using lshift_top_words [OF lb rb_def refl ne] by (simp add: c_def)
    let ?rp = "(bn_d r1)[nw + n := c]"
    have A: "take n (operand_words (arg_words x) ?rp 0) = ws" "n \<le> length (operand_words (arg_words x) ?rp 0)"
      using e(6,7) by (simp_all add: operand_words_update)
    have "lshift_loop lb rb (shift_mask rb) (arg_words x) nw (n - 1) ?rp (last ws) =
        take nw ?rp @ fst (lshift_words lb ws) @ drop (nw + n) ?rp"
      using lshift_loop_words [OF lb rb_def, of nw "n - 1" ?rp "arg_words x" "last ws"] A e(3) False nth_take_last [OF A] by simp
    moreover have "drop (nw + n) ?rp = c # drop (nw + n + 1) (bn_d r1)"
      using drop_update_head [of "nw + n" "bn_d r1" c] e(3) by simp
    ultimately show ?thesis using False l c by (simp add: rp_def Let_def c_def [symmetric])
  qed
  have "bn_lshift_fixed_top mem r x k = (True, r1\<lparr>bn_d := replicate nw 0 @ drop nw rp, bn_neg := bn_neg ?a,
      bn_top := n + nw + 1, bn_flags := bn_flags r1 OR BN_FLG_FIXED_TOP\<rparr>)" (is "_ = (True, ?r')")
    using assms(3) by (simp add: bn_lshift_fixed_top_def Let_def rp_def n_def nw_def lb_def rb_def)
  moreover have d: "replicate nw 0 @ drop nw rp = replicate nw 0 @ fst (lshift_words lb ws) @ [snd (lshift_words lb ws)] @
      drop (nw + n + 1) (bn_d r1)"
    using e(3) by (simp add: rp)
  then have "bn_words ?r' = replicate nw 0 @ fst (lshift_words lb ws) @ [snd (lshift_words lb ws)]"
    using lenf by (simp add: bn_words_def)
  moreover have "bn_sized ?r'" using e(1-3) lenf unfolding bn_sized_def by (simp add: d)
  ultimately show ?thesis by (auto simp: nw_def lb_def)
qed

lemma computed_lshift:
  assumes "bn_ok r" "bn_ok (bn_of r x)"
  shows "computed mem r (bn_top (bn_of r x) + k div 64 + 1) (2 ^ k * bn_int (bn_of r x)) (BN_lshift mem r x (int k))"
proof (cases "bn_wexpand mem r (bn_top (bn_of r x) + k div 64 + 1)")
  case None
  then have "BN_lshift mem r x (int k) = (False, bn_correct_top r)" by (simp add: BN_lshift_def bn_lshift_fixed_top_def Let_def)
  then show ?thesis using None bn_correct_top_ok [OF assms(1)] by (auto simp: computed_def)
next
  case (Some r1)
  have sized: "bn_sized r" "bn_sized (bn_of r x)" using assms by (simp_all add: bn_ok_def)
  let ?a = "bn_of r x"
  from bn_lshift_words [OF sized Some]
  obtain r' where r': "bn_lshift_fixed_top mem r x k = (True, r')" "bn_sized r'" "bn_neg r' = bn_neg ?a"
      "bn_words r' = replicate (k div 64) 0 @ fst (lshift_words (k mod 64) (bn_words ?a)) @ [snd (lshift_words (k mod 64) (bn_words ?a))]"
    by blast
  have res: "BN_lshift mem r x (int k) = (True, bn_correct_top r')" using r'(1) by (simp add: BN_lshift_def)
  have "bn_nat r' = 2 ^ (64 * (k div 64)) * (2 ^ (k mod 64) * bn_nat ?a)"
    using lshift_words_value [of "k mod 64" "bn_words ?a"] unfolding bn_nat_def r'(4) wval_append by (simp add: wval_snoc)
  also have "\<dots> = 2 ^ k * bn_nat ?a" by (simp add: mult.assoc [symmetric] flip: power_add)
  finally have "bn_int r' = 2 ^ k * bn_int ?a" using r'(3) by (simp add: bn_int_def)
  then show ?thesis using bn_correct_top_value [OF r'(2)] by (simp add: res computed_def)
qed

lemma bn_rshift_words:
  assumes "bn_sized r" "bn_sized (bn_of r x)" "k div 64 < bn_top (bn_of r x)"
    and "bn_wexpand mem r (bn_top (bn_of r x) - k div 64) = Some r1"
  shows "\<exists>r'. bn_rshift_fixed_top mem r x k = (True, r') \<and> bn_sized r' \<and> bn_neg r' = bn_neg (bn_of r x) \<and>
    bn_words r' = rshift_words (k mod 64) 0 (drop (k div 64) (bn_words (bn_of r x)))"
proof -
  let ?a = "bn_of r x"
  define n nw rb tp where "n = bn_top ?a" and "nw = k div 64" and "rb = k mod 64" and "tp = bn_top ?a - k div 64"
  have n: "n = nw + tp" "0 < tp" using assms(3) by (simp_all add: n_def nw_def tp_def)
  note e = expanded_arg [OF assms(4,1,2), folded n_def tp_def]
  let ?A = "operand_words (arg_words x) (bn_d r1) 0" and ?vs = "drop nw (bn_words ?a)"
  have vs: "take tp (drop nw ?A) = ?vs" using e(7) n by (simp add: drop_take flip: e(7))
  then have len: "length ?vs = tp" using e(6) n by (simp flip: vs)
  define rp where "rp = rshift_loop rb ((64 - rb) mod 64) (shift_mask ((64 - rb) mod 64)) (arg_words x) nw (tp - 1) 0
      (bn_d r1) (word_at (arg_words x) (bn_d r1) 0 nw)"
  have rp: "rp = rshift_words rb 0 ?vs @ drop tp (bn_d r1)"
    using rshift_loop_words [of rb _ 0 "tp - 1" "bn_d r1" nw "arg_words x" "?A ! nw", OF _ refl] e n vs
    by (simp add: rp_def rb_def word_at_0)
  have "bn_rshift_fixed_top mem r x k = (True, r1\<lparr>bn_d := rp, bn_neg := bn_neg ?a,
      bn_top := tp, bn_flags := bn_flags r1 OR BN_FLG_FIXED_TOP\<rparr>)" (is "_ = (True, ?r')")
    using assms(3,4) room_is_wexpand [of "bn_top ?a - k div 64" r x mem, OF _ assms(2)]
    by (simp add: bn_rshift_fixed_top_def Let_def rp_def nw_def rb_def tp_def)
  moreover have "bn_words ?r' = rshift_words rb 0 ?vs" using len by (simp add: bn_words_def rp)
  moreover have "bn_sized ?r'" using e(1-3) len unfolding bn_sized_def by (simp add: rp)
  ultimately show ?thesis by (auto simp: nw_def rb_def)
qed

lemma wval_drop: "wval (drop m ws) = wval ws div 2 ^ (64 * m)"
proof (cases "m \<le> length ws")
  case True
  have "wval ws = wval (take m ws) + 2 ^ (64 * m) * wval (drop m ws)"
    using wval_append [of "take m ws" "drop m ws"] True by simp
  then show ?thesis using wval_less [of "take m ws"] True by simp
next
  case False
  then have "wval ws < 2 ^ (64 * m)" by (intro less_le_trans [OF wval_less] power_increasing) simp_all
  then show ?thesis using False by simp
qed

lemma computed_rshift:
  assumes "bn_ok r" "bn_ok (bn_of r x)"
  shows "computed mem r (bn_top (bn_of r x))
    (sgn (bn_int (bn_of r x)) * int (bn_nat (bn_of r x) div 2 ^ k)) (BN_rshift mem r x (int k))"
proof -
  let ?a = "bn_of r x"
  have sized: "bn_sized r" "bn_sized ?a" using assms by (simp_all add: bn_ok_def)
  have shifted: "wval (drop (k div 64) (bn_words ?a)) div 2 ^ (k mod 64) = bn_nat ?a div 2 ^ k"
    by (simp add: wval_drop bn_nat_def flip: div_mult2_eq power_add)
  have sign: "bn_int r' = sgn (bn_int ?a) * int (bn_nat ?a div 2 ^ k)"
    if "bn_neg r' = bn_neg ?a" "bn_nat r' = bn_nat ?a div 2 ^ k" for r'
    using that bn_ok_sign [OF assms(2)] by (auto simp: bn_int_def sgn_if)
  consider "bn_top ?a \<le> k div 64" | "k div 64 < bn_top ?a" "bn_wexpand mem r (bn_top ?a - k div 64) = None" |
    r1 where "k div 64 < bn_top ?a" "bn_wexpand mem r (bn_top ?a - k div 64) = Some r1"
    by fastforce
  then show ?thesis
  proof cases
    case 1
    then have "BN_rshift mem r x (int k) = (True, bn_correct_top (BN_zero mem r))"
      by (simp add: BN_rshift_def bn_rshift_fixed_top_def Let_def)
    moreover have "bn_nat ?a div 2 ^ k = 0" using 1 length_bn_words [OF sized(2)] shifted by simp
    ultimately show ?thesis
      using BN_zero_ok [OF assms(1), of mem] bn_correct_top_value [of "BN_zero mem r"] by (simp add: computed_def bn_ok_def)
  next
    case 2
    then have "BN_rshift mem r x (int k) = (False, bn_correct_top r)"
      using room_is_wexpand [of "bn_top ?a - k div 64" r x mem, OF _ sized(2)]
      by (simp add: BN_rshift_def bn_rshift_fixed_top_def Let_def)
    moreover have "\<exists>m\<le>bn_top ?a. bn_wexpand mem r m = None" using 2 diff_le_self by blast
    ultimately show ?thesis using bn_correct_top_ok [OF assms(1)] by (simp add: computed_def)
  next
    case 3
    from bn_rshift_words [OF sized 3]
    obtain r' where r': "bn_rshift_fixed_top mem r x k = (True, r')" "bn_sized r'" "bn_neg r' = bn_neg ?a"
        "bn_words r' = rshift_words (k mod 64) 0 (drop (k div 64) (bn_words ?a))"
      by blast
    have "bn_nat r' = bn_nat ?a div 2 ^ k"
      using rshift_words_value [of "k mod 64" 0 0 "drop (k div 64) (bn_words ?a)"] shifted by (simp add: bn_nat_def r'(4))
    then show ?thesis
      using bn_correct_top_value [OF r'(2)] sign [OF r'(3)] r'(1) by (simp add: BN_rshift_def computed_def)
  qed
qed

section \<open>Properties\<close>

text \<open>
  C29. The shifts of a well-formed number, in place or into another object: the left shift by \<open>k\<close> bits multiplies by the power
  of two, the right shift divides the magnitude by it and keeps the sign, and the shifts by one bit do the same for \<open>k = 1\<close>;
  the result is well formed, never a negative zero. A call fails only where the array cannot be enlarged, no digit having
  changed, or where the number of bits is negative.
\<close>

theorem bn_shift_correct:
  assumes "bn_ok r" "bn_ok (bn_of r x)"
  defines "a \<equiv> bn_of r x"
  shows "computed mem r (bn_top a + k div 64 + 1) (2 ^ k * bn_int a) (BN_lshift mem r x (int k)) \<and>
    computed mem r (bn_top a) (sgn (bn_int a) * int (bn_nat a div 2 ^ k)) (BN_rshift mem r x (int k)) \<and>
    computed mem r (bn_top a + 1) (2 * bn_int a) (BN_lshift1 mem r x) \<and>
    computed mem r (bn_top a) (sgn (bn_int a) * int (bn_nat a div 2)) (BN_rshift1 mem r x) \<and>
    BN_lshift mem r x (- 1 - int k) = (False, r) \<and> BN_rshift mem r x (- 1 - int k) = (False, r)"
  using computed_lshift [OF assms(1,2)] computed_rshift [OF assms(1,2)] computed_lshift1 [OF assms(1,2)]
    computed_rshift1 [OF assms(1,2)]
  by (simp add: a_def BN_lshift_def BN_rshift_def)

theorem bn_shift_correct_witness:
  "bn_int (snd (BN_rshift (\<lambda>_. True) (small_bn True [7, 5]) Result 65)) = - 2"
proof -
  let ?r = "small_bn True [7, 5]"
  have ok: "bn_ok ?r" "bn_ok (bn_of ?r Result)"
    by (simp_all add: small_bn_def bn_ok_def bn_sized_def bn_of_def)
  have "bn_wexpand (\<lambda>_. True) ?r n \<noteq> None" if "n \<le> 2" for n
    using that by (simp add: bn_wexpand_fails small_bn_def)
  then have "\<not> (\<exists>n\<le>bn_top (bn_of ?r Result). bn_wexpand (\<lambda>_. True) ?r n = None)" by (auto simp: small_bn_def bn_of_def)
  moreover have "bn_nat (bn_of ?r Result) = 7 + 5 * 2 ^ 64" "sgn (bn_int (bn_of ?r Result)) = - 1"
    by (simp_all add: small_bn_def bn_int_def bn_nat_def bn_words_def bn_of_def)
  ultimately show ?thesis
    using bn_shift_correct [OF ok, of "\<lambda>_. True" 65] by (auto simp: computed_def split: prod.splits if_splits)
qed

end
