(* ===== verification/BN_Single.thy ===== *)
theory BN_Single
  imports BN_Shift
begin

text \<open>
  Operations of multi-precision integers with single words (\<^verbatim>\<open>crypto/bn/bn_word.c\<close>) and the copies that one of them
  needs (\<^verbatim>\<open>bn_lib.c\<close>). Shown: sum, difference, product, quotient and remainder are exact, the division returning whatever
  the operands.
\<close>

section \<open>Copies\<close>

definition BN_copy :: "(nat \<Rightarrow> bool) \<Rightarrow> BIGNUM \<Rightarrow> BIGNUM \<Rightarrow> BIGNUM option" where
  "BN_copy mem a b =
     (let n = (if BN_get_flags b BN_FLG_CONSTTIME then bn_dmax b else bn_top b) in
      map_option (\<lambda>a. a\<lparr>bn_d := (if bn_top b > 0 then take n (bn_d b) @ drop n (bn_d a) else bn_d a),
          bn_neg := bn_neg b, bn_top := bn_top b, bn_flags := bn_flags a OR (bn_flags b AND BN_FLG_FIXED_TOP)\<rparr>)
        (bn_wexpand mem a n))"

text \<open>The new object itself is allocated with the flag of secure memory where the original has it.\<close>

definition BN_dup :: "(nat \<Rightarrow> bool) \<Rightarrow> bool \<Rightarrow> BIGNUM \<Rightarrow> BIGNUM option" where
  "BN_dup mem new_ok a =
     (if new_ok
      then BN_copy mem (BN_new\<lparr>bn_flags := BN_FLG_MALLOCED OR (bn_flags a AND BN_FLG_SECURE)\<rparr>) a
      else None)"

section \<open>Operations with a word\<close>

fun add_word_loop :: "u64 list \<Rightarrow> nat \<Rightarrow> nat \<Rightarrow> u64 \<Rightarrow> u64 list \<times> nat \<times> u64" where
  "add_word_loop ws 0 i w = (ws, i, w)"
| "add_word_loop ws (Suc n) i w =
     (if w = 0 then (ws, i, w)
      else let l = ws ! i + w in add_word_loop (ws[i := l]) n (Suc i) (if w > l then 1 else 0))"

text \<open>\<open>add_word_abs\<close> and \<open>sub_word_abs\<close> are the parts of \<^verbatim>\<open>BN_add_word\<close> and \<^verbatim>\<open>BN_sub_word\<close> for a number above zero and a word
  that is not zero; either function calls the other on a negative number with its sign taken away.\<close>

definition add_word_abs :: "(nat \<Rightarrow> bool) \<Rightarrow> BIGNUM \<Rightarrow> u64 \<Rightarrow> bool \<times> BIGNUM" where
  "add_word_abs mem a w =
     (let (ws, i, w) = add_word_loop (bn_d a) (bn_top a) 0 w; a = a\<lparr>bn_d := ws\<rparr> in
      if w \<noteq> 0 \<and> i = bn_top a
      then (case bn_wexpand mem a (bn_top a + 1) of
              None \<Rightarrow> (False, a)
            | Some a \<Rightarrow> (True, a\<lparr>bn_top := bn_top a + 1, bn_d := (bn_d a)[i := w]\<rparr>))
      else (True, a))"

function sub_word_loop :: "u64 list \<Rightarrow> nat \<Rightarrow> u64 \<Rightarrow> u64 list \<times> nat" where
  "sub_word_loop ws i w =
     (if i \<ge> length ws then (ws, i)
      else if ws ! i \<ge> w then (ws[i := ws ! i - w], i)
      else sub_word_loop (ws[i := ws ! i - w]) (Suc i) 1)"
  by auto
termination by (relation "measure (\<lambda>(ws, i, w). length ws - i)") auto

definition sub_word_abs :: "BIGNUM \<Rightarrow> u64 \<Rightarrow> BIGNUM" where
  "sub_word_abs a w =
     (if bn_top a = 1 \<and> bn_d a ! 0 < w then a\<lparr>bn_d := (bn_d a)[0 := w - bn_d a ! 0], bn_neg := True\<rparr>
      else let (ws, i) = sub_word_loop (bn_d a) 0 w
        in a\<lparr>bn_d := ws, bn_top := (if ws ! i = 0 \<and> i = bn_top a - 1 then bn_top a - 1 else bn_top a)\<rparr>)"

definition BN_add_word :: "(nat \<Rightarrow> bool) \<Rightarrow> BIGNUM \<Rightarrow> u64 \<Rightarrow> bool \<times> BIGNUM" where
  "BN_add_word mem a w =
     (if w = 0 then (True, a)
      else if BN_is_zero a then BN_set_word mem a w
      else if bn_neg a
      then let a = sub_word_abs (a\<lparr>bn_neg := False\<rparr>) w
        in (True, if \<not> BN_is_zero a then a\<lparr>bn_neg := \<not> bn_neg a\<rparr> else a)
      else add_word_abs mem a w)"

definition BN_sub_word :: "(nat \<Rightarrow> bool) \<Rightarrow> BIGNUM \<Rightarrow> u64 \<Rightarrow> bool \<times> BIGNUM" where
  "BN_sub_word mem a w =
     (if w = 0 then (True, a)
      else if BN_is_zero a
      then let (i, a) = BN_set_word mem a w in (i, if i then BN_set_negative a True else a)
      else if bn_neg a
      then let (i, a) = add_word_abs mem (a\<lparr>bn_neg := False\<rparr>) w in (i, a\<lparr>bn_neg := True\<rparr>)
      else (True, sub_word_abs a w))"

definition BN_mul_word :: "(nat \<Rightarrow> bool) \<Rightarrow> BIGNUM \<Rightarrow> u64 \<Rightarrow> bool \<times> BIGNUM" where
  "BN_mul_word mem a w =
     (if bn_top a \<noteq> 0
      then if w = 0 then (True, BN_zero mem a)
        else let (ll, ws) = bn_mul_words 0 (bn_d a) Itself (bn_top a) w; a = a\<lparr>bn_d := ws\<rparr> in
          if ll \<noteq> 0
          then (case bn_wexpand mem a (bn_top a + 1) of
                  None \<Rightarrow> (False, a)
                | Some a \<Rightarrow> (True, a\<lparr>bn_d := (bn_d a)[bn_top a := ll], bn_top := bn_top a + 1\<rparr>))
          else (True, a)
      else (True, a))"

fun div_word_loop :: "u64 list \<Rightarrow> nat \<Rightarrow> u64 \<Rightarrow> u64 \<Rightarrow> (u64 list \<times> u64) option" where
  "div_word_loop ws 0 ret w = Some (ws, ret)"
| "div_word_loop ws (Suc i) ret w =
     (let l = ws ! i in
      case bn_div_words ret l w of
        None \<Rightarrow> None
      | Some q \<Rightarrow> div_word_loop (ws[i := q]) i (l - q * w) w)"

definition BN_div_word :: "(nat \<Rightarrow> bool) \<Rightarrow> BIGNUM \<Rightarrow> u64 \<Rightarrow> (u64 \<times> BIGNUM) option" where
  "BN_div_word mem a w =
     (if w = 0 then Some (BN_MASK2, a)
      else if bn_top a = 0 then Some (0, a)
      else let j = BN_BITS2 - unat (BN_num_bits_word w); w = push_bit j w; (ok, a) = BN_lshift mem a Result (int j) in
        if \<not> ok then Some (BN_MASK2, a)
        else case div_word_loop (bn_d a) (bn_top a) 0 w of
          None \<Rightarrow> None
        | Some (ws, ret) \<Rightarrow>
            let tp = (if bn_top a > 0 \<and> ws ! (bn_top a - 1) = 0 then bn_top a - 1 else bn_top a)
            in Some (drop_bit j ret, a\<lparr>bn_d := ws, bn_top := tp, bn_neg := bn_neg a \<and> tp \<noteq> 0\<rparr>))"

fun mod_word_loop :: "u64 list \<Rightarrow> nat \<Rightarrow> u64 \<Rightarrow> u64 \<Rightarrow> u64" where
  "mod_word_loop ws 0 ret w = ret"
| "mod_word_loop ws (Suc i) ret w =
     (let ret = (push_bit BN_BITS4 ret OR (drop_bit BN_BITS4 (ws ! i) AND BN_MASK2l)) mod w;
          ret = (push_bit BN_BITS4 ret OR (ws ! i AND BN_MASK2l)) mod w
      in mod_word_loop ws i ret w)"

definition BN_mod_word :: "(nat \<Rightarrow> bool) \<Rightarrow> bool \<Rightarrow> BIGNUM \<Rightarrow> u64 \<Rightarrow> u64 option" where
  "BN_mod_word mem new_ok a w =
     (if w = 0 then Some BN_MASK2
      else if w > push_bit BN_BITS4 1
      then (case BN_dup mem new_ok a of
              None \<Rightarrow> Some BN_MASK2
            | Some tmp \<Rightarrow> map_option fst (BN_div_word mem tmp w))
      else Some (mod_word_loop (bn_d a) (bn_top a) 0 w))"

declare sub_word_loop.simps [simp del]

section \<open>Adding and subtracting a word\<close>

lemma add_word_loop_value:
  "\<exists>vs' i' w'. add_word_loop (pre @ vs @ post) (length vs) (length pre) w = (pre @ vs' @ post, i', w') \<and>
     length vs' = length vs \<and> (w' \<noteq> 0 \<longrightarrow> i' = length pre + length vs) \<and>
     wval vs' + 2 ^ (64 * length vs) * unat w' = wval vs + unat w"
proof (induction vs arbitrary: pre w)
  case (Cons v vs)
  show ?case
  proof (cases "w = 0")
    case False
    define l c where "l = v + w" and "c = (if w > l then 1 else 0 :: u64)"
    have lc: "unat l + 2 ^ 64 * unat c = unat v + unat w"
      using unat_u64_less [of v] unat_u64_less [of w] by (auto simp: l_def c_def unat_add_wrap word_less_nat_alt)
    from Cons.IH [of "pre @ [l]" c] obtain vs' i' w' where
      ih: "add_word_loop (pre @ l # vs @ post) (length vs) (Suc (length pre)) c = (pre @ l # vs' @ post, i', w')"
      "length vs' = length vs" "w' \<noteq> 0 \<longrightarrow> i' = length pre + Suc (length vs)"
      "wval vs' + 2 ^ (64 * length vs) * unat w' = wval vs + unat c"
      by auto
    have "add_word_loop (pre @ (v # vs) @ post) (length (v # vs)) (length pre) w = (pre @ (l # vs') @ post, i', w')"
      using ih(1) False by (simp add: nth_append list_update_append Let_def flip: l_def c_def)
    moreover have *: "wval (l # vs') + 2 ^ (64 * length (v # vs)) * unat w' =
        unat l + 2 ^ 64 * (wval vs' + 2 ^ (64 * length vs) * unat w')"
      by (simp add: power_add distrib_left)
    have "wval (l # vs') + 2 ^ (64 * length (v # vs)) * unat w' = wval (v # vs) + unat w"
      unfolding * ih(4) using lc by simp
    ultimately show ?thesis using ih(2,3) by auto
  qed auto
qed simp

lemma sub_word_loop_value:
  "unat w \<le> wval vs \<Longrightarrow> w \<noteq> 0 \<Longrightarrow>
     \<exists>vs' i'. sub_word_loop (pre @ vs @ post) (length pre) w = (pre @ vs' @ post, i') \<and> length vs' = length vs \<and>
       i' < length pre + length vs \<and> (i' + 1 < length pre + length vs \<longrightarrow> last vs' = last vs) \<and> wval vs' = wval vs - unat w"
proof (induction vs arbitrary: pre w)
  case Nil
  then show ?case by (simp add: unat_eq_0)
next
  case (Cons v vs)
  show ?case
  proof (cases "v \<ge> w")
    case True
    then have "sub_word_loop (pre @ (v # vs) @ post) (length pre) w = (pre @ ((v - w) # vs) @ post, length pre)"
      by (subst sub_word_loop.simps) (simp add: nth_append list_update_append)
    moreover have "wval ((v - w) # vs) = wval (v # vs) - unat w"
      using True by (simp add: unat_diff_wrap word_le_nat_alt)
    ultimately show ?thesis by (intro exI [of _ "(v - w) # vs"] exI [of _ "length pre"]) auto
  next
    case False
    have vw: "unat v < unat w" using False by (simp add: word_less_nat_alt word_le_nat_alt)
    then have "0 < 2 ^ 64 * wval vs" using Cons.prems(1) by simp
    then have vs: "1 \<le> wval vs" by simp
    with Cons.IH [of 1 "pre @ [v - w]"] obtain vs' i' where
      ih: "sub_word_loop (pre @ (v - w) # vs @ post) (Suc (length pre)) 1 = (pre @ (v - w) # vs' @ post, i')"
      "length vs' = length vs" "i' < length pre + Suc (length vs)"
      "i' + 1 < length pre + Suc (length vs) \<longrightarrow> last vs' = last vs" "wval vs' = wval vs - 1"
      by auto
    have ne: "vs \<noteq> []" "vs' \<noteq> []" using vs ih(2) by auto
    have "sub_word_loop (pre @ (v # vs) @ post) (length pre) w = (pre @ ((v - w) # vs') @ post, i')"
      using ih(1) False by (subst sub_word_loop.simps) (simp add: nth_append list_update_append)
    moreover have "unat (v - w) = unat v + 2 ^ 64 - unat w"
      using vw unat_u64_less [of w] by (simp add: unat_diff_wrap)
    then have "wval ((v - w) # vs') = wval (v # vs) - unat w"
      using ih(5) vs vw unat_u64_less [of w] by (simp add: diff_mult_distrib2)
    ultimately show ?thesis using ih(2-4) ne by (intro exI [of _ "(v - w) # vs'"] exI [of _ i']) auto
  qed
qed

text \<open>What an operation with a word has to show: the value, or that the array could not be enlarged.\<close>

definition word_computed :: "(nat \<Rightarrow> bool) \<Rightarrow> BIGNUM \<Rightarrow> int \<Rightarrow> bool \<times> BIGNUM \<Rightarrow> bool" where
  "word_computed mem a z res = (case res of (ret, a') \<Rightarrow>
     if ret then bn_ok a' \<and> bn_int a' = z else (\<exists>m\<le>bn_top a + 1. bn_wexpand mem a m = None))"

text \<open>An operation that leaves \<open>n\<close> words and a carry, which gets a word of its own where it is not zero.\<close>

lemma with_carry:
  assumes a: "bn_ok a" "bn_top a \<noteq> 0" and ws: "length ws = bn_top a" "wval ws + 2 ^ (64 * bn_top a) * unat c = v" "bn_nat a \<le> v"
  defines "a1 \<equiv> a\<lparr>bn_d := ws @ drop (bn_top a) (bn_d a)\<rparr>"
  shows "c = 0 \<Longrightarrow> bn_ok a1 \<and> bn_nat a1 = v"
    "c \<noteq> 0 \<Longrightarrow> bn_wexpand mem a1 (bn_top a + 1) = Some a2 \<Longrightarrow>
       bn_ok (a2\<lparr>bn_d := (bn_d a2)[bn_top a := c], bn_top := bn_top a + 1\<rparr>) \<and>
       bn_nat (a2\<lparr>bn_d := (bn_d a2)[bn_top a := c], bn_top := bn_top a + 1\<rparr>) = v \<and> bn_neg a2 = bn_neg a"
proof -
  have sized: "bn_sized a1" using a(1) ws(1) by (simp add: bn_ok_def bn_sized_def a1_def)
  have w1: "bn_words a1 = ws" using ws(1) by (simp add: bn_words_def a1_def)
  show "bn_ok a1 \<and> bn_nat a1 = v" if "c = 0"
  proof -
    have v: "wval ws = v" using ws(2) that by simp
    have "2 ^ (64 * (length ws - 1)) \<le> wval ws"
      unfolding v ws(1) using bn_nat_bound [OF a(1)] a(2) ws(3) by (meson gr0I le_trans)
    then have "normal (bn_words a1)" unfolding w1 by (rule normalI)
    moreover have "bn_top a1 \<noteq> 0" using a(2) by (simp add: a1_def)
    ultimately show ?thesis using sized v by (simp add: bn_ok_normal bn_nat_def w1)
  qed
  show "bn_ok (a2\<lparr>bn_d := (bn_d a2)[bn_top a := c], bn_top := bn_top a + 1\<rparr>) \<and>
       bn_nat (a2\<lparr>bn_d := (bn_d a2)[bn_top a := c], bn_top := bn_top a + 1\<rparr>) = v \<and> bn_neg a2 = bn_neg a"
    (is "bn_ok ?a \<and> _") if "c \<noteq> 0" "bn_wexpand mem a1 (bn_top a + 1) = Some a2"
  proof -
    have a2: "bn_sized a2" "bn_top a + 1 \<le> bn_dmax a2" "bn_words a2 = ws" "bn_top a2 = bn_top a" "bn_neg a2 = bn_neg a"
      using bn_wexpand_Some [OF that(2) sized] w1 by (simp_all add: a1_def)
    have w: "bn_words ?a = ws @ [c]"
      using a2(1-4) by (simp add: bn_words_def bn_sized_def take_Suc_conv_app_nth)
    have "bn_nat ?a = v" using ws(1,2) unfolding bn_nat_def w by (simp add: wval_snoc)
    moreover have "bn_ok ?a"
      unfolding bn_ok_normal w using that(1) a2(1,2) by (simp add: normal_def bn_sized_def)
    ultimately show ?thesis using a2(5) by simp
  qed
qed

lemma sized_words: "bn_sized a \<Longrightarrow> bn_d a = bn_words a @ drop (bn_top a) (bn_d a)"
  by (simp add: bn_words_def)

lemma bn_wexpand_digits: "bn_wexpand mem (a\<lparr>bn_d := ws\<rparr>) n = None \<longleftrightarrow> bn_wexpand mem a n = None"
  by (simp add: bn_wexpand_fails BN_get_flags_def)

lemma digits_then_top: "a\<lparr>bn_top := n, bn_d := ws\<rparr> = a\<lparr>bn_d := ws, bn_top := n\<rparr>"
  by simp

lemma add_word_abs_value:
  assumes a: "bn_ok a" "bn_top a \<noteq> 0"
  shows "case add_word_abs mem a w of (ret, a') \<Rightarrow>
    if ret then bn_ok a' \<and> bn_nat a' = bn_nat a + unat w \<and> bn_neg a' = bn_neg a else bn_wexpand mem a (bn_top a + 1) = None"
proof -
  have sized: "bn_sized a" using a by (simp add: bn_ok_def)
  from add_word_loop_value [of "[]" "bn_words a" "drop (bn_top a) (bn_d a)" w] obtain ws i c where
    l: "add_word_loop (bn_d a) (bn_top a) 0 w = (ws @ drop (bn_top a) (bn_d a), i, c)" "length ws = bn_top a"
      "c \<noteq> 0 \<longrightarrow> i = bn_top a" "wval ws + 2 ^ (64 * bn_top a) * unat c = bn_nat a + unat w"
    using length_bn_words [OF sized] sized_words [OF sized] by (auto simp: bn_nat_def)
  note v = with_carry [OF a l(2,4), simplified]
  show ?thesis
  proof (cases "c = 0")
    case True
    then show ?thesis using v(1) by (simp add: add_word_abs_def l(1))
  next
    case False
    then have i: "i = bn_top a" using l(3) by simp
    show ?thesis
    proof (cases "bn_wexpand mem (a\<lparr>bn_d := ws @ drop (bn_top a) (bn_d a)\<rparr>) (bn_top a + 1)")
      case None
      then have "bn_wexpand mem a (bn_top a + 1) = None" by (simp only: bn_wexpand_digits)
      then show ?thesis using False i None by (simp add: add_word_abs_def l(1))
    next
      case (Some a2)
      have "bn_sized (a\<lparr>bn_d := ws @ drop (bn_top a) (bn_d a)\<rparr>)" using sized l(2) by (simp add: bn_sized_def)
      from bn_wexpand_Some [OF Some this] have "bn_top a2 = bn_top a" by simp
      then show ?thesis
        using False i Some v(2) [OF False, of mem a2] by (simp add: add_word_abs_def l(1) digits_then_top)
    qed
  qed
qed

text \<open>A number of which one leading word may have become zero.\<close>

lemma zero_top:
  assumes "length ws = n" "n \<ge> 2 \<Longrightarrow> 2 ^ (64 * (n - 2)) \<le> wval ws" "n \<noteq> 0"
  defines "tp \<equiv> if last ws = 0 then n - 1 else n"
  shows "normal (take tp ws) \<and> wval (take tp ws) = wval ws"
proof (cases "last ws = 0")
  case True
  then have tp: "take tp ws = butlast ws" using assms(1) by (simp add: tp_def butlast_conv_take)
  have "ws \<noteq> []" using assms(1,3) by auto
  then have v: "wval (butlast ws) = wval ws"
    using wval_snoc [of "butlast ws" "last ws"] True unfolding append_butlast_last_id [OF \<open>ws \<noteq> []\<close>] by simp
  have "2 ^ (64 * (length (butlast ws) - 1)) \<le> wval (butlast ws)" if "n \<ge> 2"
    using assms(1,2) that unfolding v by (simp add: numeral_2_eq_2)
  then have "normal (butlast ws)" if "n \<ge> 2" using that normalI [of "butlast ws"] by blast
  moreover have "normal (butlast ws)" if "\<not> n \<ge> 2"
    using that assms(1) by (cases ws) (auto simp: normal_def Suc_le_eq)
  ultimately show ?thesis using tp v by auto
qed (use assms in \<open>auto simp: normal_def\<close>)

lemma sub_word_room:
  assumes "2 ^ (64 * (n - 1)) \<le> v" "2 \<le> n"
  shows "unat (w :: u64) \<le> v" "2 ^ (64 * (n - 2)) \<le> v - unat w"
proof -
  obtain k where k: "n = Suc (Suc k)" using assms(2) by (metis add_2_eq_Suc le_Suc_ex)
  have "unat w * 1 \<le> (2 ^ 64 - 1) * 2 ^ (64 * k)" using unat_u64_less [of w] by (intro mult_le_mono) simp_all
  then have "unat w + 2 ^ (64 * k) \<le> 2 ^ 64 * 2 ^ (64 * k)" by simp
  also have "\<dots> = 2 ^ (64 * Suc k)" by (simp add: power_add)
  also have "\<dots> \<le> v" using assms(1) k by simp
  finally have *: "unat w + 2 ^ (64 * k) \<le> v" .
  from add_leD1 [OF *] show "unat w \<le> v" .
  from * show "2 ^ (64 * (n - 2)) \<le> v - unat w" unfolding k by simp
qed

lemma sub_word_abs_value:
  assumes a: "bn_ok a" "bn_top a \<noteq> 0" "\<not> bn_neg a" and w: "w \<noteq> 0"
  shows "bn_ok (sub_word_abs a w) \<and> bn_int (sub_word_abs a w) = bn_int a - int (unat w)"
proof (cases "bn_top a = 1 \<and> bn_d a ! 0 < w")
  case True
  then have "0 < length (bn_d a)" using a(1) by (simp add: bn_ok_def bn_sized_def)
  then obtain d ds where d: "bn_d a = d # ds" by (cases "bn_d a") auto
  have dw: "unat d < unat w" using True d by (simp add: word_less_nat_alt)
  then have s: "unat (w - d) = unat w - unat d" by (simp add: unat_diff_wrap)
  then have "w - d \<noteq> 0" using dw by (metis unat_0 zero_less_diff less_irrefl)
  then show ?thesis
    using True d s dw a by (simp add: sub_word_abs_def bn_ok_def bn_sized_def bn_int_def bn_nat_def bn_words_def)
next
  case False
  have sized: "bn_sized a" using a by (simp add: bn_ok_def)
  define n where "n = bn_top a"
  have len: "length (bn_words a) = n" using length_bn_words [OF sized] by (simp add: n_def)
  note bound = bn_nat_bound [OF a(1), folded n_def]
  have le: "unat w \<le> wval (bn_words a)"
  proof (cases "2 \<le> n")
    case True
    then show ?thesis using sub_word_room(1) [of n "bn_nat a"] bound by (simp add: bn_nat_def)
  next
    case False
    then have "n = 1" using a(2) by (simp add: n_def)
    then obtain d where "bn_words a = [d]" using len by (cases "bn_words a") auto
    moreover have "bn_d a ! 0 = hd (bn_words a)"
      using sized_words [OF sized] calculation by (metis append_Cons list.sel(1) nth_Cons_0)
    ultimately show ?thesis using \<open>\<not> (bn_top a = 1 \<and> bn_d a ! 0 < w)\<close> \<open>n = 1\<close> by (simp add: n_def not_less word_le_nat_alt)
  qed
  from sub_word_loop_value [OF le w, of "[]" "drop n (bn_d a)"] obtain ws i where
    l: "sub_word_loop (bn_d a) 0 w = (ws @ drop n (bn_d a), i)" "length ws = n" "i < n" "i + 1 < n \<longrightarrow> last ws = last (bn_words a)"
      "wval ws = bn_nat a - unat w"
    using len sized_words [OF sized] by (auto simp: n_def bn_nat_def)
  define tp where "tp = (if last ws = 0 then n - 1 else n)"
  have "last (bn_words a) \<noteq> 0" using a(1) len l(3) by (auto simp: bn_ok_normal normal_def)
  then have "(ws ! i = 0 \<and> i = n - 1) \<longleftrightarrow> last ws = 0"
    using l(2-4) by (cases "i = n - 1"; cases "ws = []") (auto simp: last_conv_nth)
  then have res: "sub_word_abs a w = a\<lparr>bn_d := ws @ drop n (bn_d a), bn_top := tp\<rparr>"
    using False l(1-3) by (auto simp: sub_word_abs_def n_def nth_append tp_def)
  have "normal (take tp ws) \<and> wval (take tp ws) = wval ws"
    unfolding tp_def using l(2,3,5) sub_word_room(2) [of n "bn_nat a" w] bound by (intro zero_top) auto
  moreover have "bn_words (sub_word_abs a w) = take tp ws" using l(2) by (simp add: res bn_words_def tp_def)
  moreover have "bn_sized (sub_word_abs a w)" using sized l(2) by (auto simp: res bn_sized_def tp_def n_def)
  moreover have "\<not> bn_neg (sub_word_abs a w)" using a(3) by (simp add: res)
  ultimately show ?thesis
    using l(5) le a(3) by (simp add: bn_ok_normal bn_int_def bn_nat_def of_nat_diff)
qed


lemma BN_set_word_value:
  assumes "bn_ok a" "bn_top a = 0"
  shows "word_computed mem a (int (unat w)) (BN_set_word mem a w)"
proof -
  have 1: "bn_expand mem a 64 = bn_wexpand mem a (Suc 0)"
    by (simp add: bn_expand_def bn_wexpand_def)
  show ?thesis
  proof (cases "bn_wexpand mem a (Suc 0)")
    case None
    then show ?thesis using assms(2) by (auto simp: word_computed_def BN_set_word_def 1)
  next
    case (Some a1)
    have a1: "bn_sized a1" "1 \<le> bn_dmax a1" using bn_wexpand_Some [OF Some] assms(1) by (simp_all add: bn_ok_def)
    then obtain d ds where "bn_d a1 = d # ds" by (cases "bn_d a1") (auto simp: bn_sized_def)
    then show ?thesis
      using Some a1
      by (simp add: word_computed_def BN_set_word_def 1 bn_ok_def bn_sized_def bn_int_def bn_nat_def bn_words_def)
  qed
qed

lemma computed_add_word:
  assumes "bn_ok a"
  shows "word_computed mem a (bn_int a + int (unat w)) (BN_add_word mem a w)"
proof -
  consider "w = 0" | "w \<noteq> 0" "bn_top a = 0" | "w \<noteq> 0" "bn_top a \<noteq> 0" "bn_neg a" | "w \<noteq> 0" "bn_top a \<noteq> 0" "\<not> bn_neg a"
    by blast
  then show ?thesis
  proof cases
    case 2
    then show ?thesis
      using BN_set_word_value [OF assms 2(2), of mem w] by (simp add: BN_add_word_def BN_is_zero_def bn_int_def)
  next
    case 3
    let ?a = "sub_word_abs (a\<lparr>bn_neg := False\<rparr>) w"
    have v: "bn_ok ?a" "bn_int ?a = int (bn_nat a) - int (unat w)"
      using sub_word_abs_value [of "a\<lparr>bn_neg := False\<rparr>" w] 3 assms by (simp_all add: bn_ok_signed bn_int_signed)
    have "BN_add_word mem a w = (True, if bn_top ?a \<noteq> 0 then ?a\<lparr>bn_neg := \<not> bn_neg ?a\<rparr> else ?a)"
      using 3 by (simp add: BN_add_word_def BN_is_zero_def Let_def)
    moreover have "bn_ok (if bn_top ?a \<noteq> 0 then ?a\<lparr>bn_neg := \<not> bn_neg ?a\<rparr> else ?a)"
      using v(1) bn_nat_zero [OF v(1)] by (auto intro: bn_ok_signed)
    moreover have "bn_int (if bn_top ?a \<noteq> 0 then ?a\<lparr>bn_neg := \<not> bn_neg ?a\<rparr> else ?a) = - bn_int ?a"
      by (simp add: bn_int_def)
    ultimately show ?thesis using v(2) 3 by (simp add: word_computed_def bn_int_def)
  next
    case 4
    then show ?thesis
      using add_word_abs_value [OF assms 4(2), where mem = mem and w = w]
      by (auto simp: BN_add_word_def BN_is_zero_def word_computed_def bn_int_def split: prod.splits if_splits)
  qed (use assms in \<open>simp add: BN_add_word_def word_computed_def\<close>)
qed

lemma computed_sub_word:
  assumes "bn_ok a"
  shows "word_computed mem a (bn_int a - int (unat w)) (BN_sub_word mem a w)"
proof -
  consider "w = 0" | "w \<noteq> 0" "bn_top a = 0" | "w \<noteq> 0" "bn_top a \<noteq> 0" "bn_neg a" | "w \<noteq> 0" "bn_top a \<noteq> 0" "\<not> bn_neg a"
    by blast
  then show ?thesis
  proof cases
    case 2
    obtain i a' where s: "BN_set_word mem a w = (i, a')" by fastforce
    have v: "if i then bn_ok a' \<and> bn_int a' = int (unat w) else (\<exists>m\<le>bn_top a + 1. bn_wexpand mem a m = None)"
      using BN_set_word_value [OF assms 2(2), of mem w] by (simp add: s word_computed_def)
    have nz: "bn_top a' \<noteq> 0" "\<not> bn_neg a'" if i using s that 2(1) by (auto simp: BN_set_word_def split: option.splits)
    have "bn_ok (BN_set_negative a' True) \<and> bn_int (BN_set_negative a' True) = - int (unat w)" if i
    proof -
      have "bn_ok a'" "bn_int a' = int (unat w)" using v that by simp_all
      then show ?thesis
        using nz [OF that] bn_nat_zero [of a'] by (simp add: BN_set_negative_def BN_is_zero_def bn_ok_signed bn_int_signed bn_int_def)
    qed
    moreover have "BN_sub_word mem a w = (i, if i then BN_set_negative a' True else a')"
      using 2 s by (simp add: BN_sub_word_def BN_is_zero_def)
    moreover have "bn_int a = 0" using 2(2) by (simp add: bn_int_def)
    ultimately show ?thesis using v by (cases i) (simp_all add: word_computed_def)
  next
    case 3
    let ?a = "a\<lparr>bn_neg := False\<rparr>"
    obtain i a' where s: "add_word_abs mem ?a w = (i, a')" by fastforce
    have "bn_ok ?a" using assms by (simp add: bn_ok_signed)
    from add_word_abs_value [OF this, where mem = mem and w = w] 3(2)
    have v: "if i then bn_ok a' \<and> bn_nat a' = bn_nat a + unat w else bn_wexpand mem a (bn_top a + 1) = None"
      by (auto simp: s bn_wexpand_neg split: if_splits)
    have "0 < bn_nat a" using bn_ok_sign [OF assms 3(3)] .
    then have "bn_ok (a'\<lparr>bn_neg := True\<rparr>) \<and> bn_int (a'\<lparr>bn_neg := True\<rparr>) = bn_int a - int (unat w)" if i
      using v that 3(3) by (simp add: bn_ok_signed bn_int_signed bn_int_def)
    moreover have "BN_sub_word mem a w = (i, a'\<lparr>bn_neg := True\<rparr>)" using 3 s by (simp add: BN_sub_word_def BN_is_zero_def)
    ultimately show ?thesis using v by (auto simp: word_computed_def)
  next
    case 4
    then show ?thesis
      using sub_word_abs_value [OF assms 4(2,3,1)] by (simp add: BN_sub_word_def BN_is_zero_def word_computed_def)
  qed (use assms in \<open>simp add: BN_sub_word_def word_computed_def\<close>)
qed

lemma computed_mul_word:
  assumes "bn_ok a"
  shows "word_computed mem a (bn_int a * int (unat w)) (BN_mul_word mem a w)"
proof -
  have sized: "bn_sized a" using assms by (simp add: bn_ok_def)
  consider "bn_top a = 0" | "bn_top a \<noteq> 0" "w = 0" | "bn_top a \<noteq> 0" "w \<noteq> 0" by blast
  then show ?thesis
  proof cases
    case 1
    then show ?thesis using assms by (simp add: BN_mul_word_def word_computed_def bn_int_def)
  next
    case 2
    then show ?thesis using BN_zero_ok [OF assms, of mem] by (simp add: BN_mul_word_def word_computed_def)
  next
    case 3
    obtain c d where m: "bn_mul_words 0 (bn_d a) Itself (bn_top a) w = (c, d)" by fastforce
    from bn_mul_words_value [OF _ _ this] sized obtain ws where
      ws: "d = ws @ drop (bn_top a) (bn_d a)" "length ws = bn_top a" "wval ws + 2 ^ (64 * bn_top a) * unat c = unat w * bn_nat a"
      by (auto simp: bn_sized_def operand_words_def bn_nat_def bn_words_def)
    have "bn_nat a \<le> unat w * bn_nat a" using 3(2) by (simp add: unat_gt_0 Suc_le_eq)
    note v = with_carry [OF assms 3(1) ws(2,3) this, folded ws(1)]
    have sign: "bn_int a' = bn_int a * int (unat w)" if "bn_nat a' = unat w * bn_nat a" "bn_neg a' = bn_neg a" for a'
      using that by (simp add: bn_int_def)
    show ?thesis
    proof (cases "c = 0")
      case True
      then have "BN_mul_word mem a w = (True, a\<lparr>bn_d := d\<rparr>)" using 3 m by (simp add: BN_mul_word_def)
      then show ?thesis using v(1) [OF True] sign [of "a\<lparr>bn_d := d\<rparr>"] by (simp add: word_computed_def)
    next
      case False
      show ?thesis
      proof (cases "bn_wexpand mem (a\<lparr>bn_d := d\<rparr>) (bn_top a + 1)")
        case None
        then have "bn_wexpand mem a (bn_top a + 1) = None" by (simp only: bn_wexpand_digits)
        moreover have "BN_mul_word mem a w = (False, a\<lparr>bn_d := d\<rparr>)" using 3 m False None by (simp add: BN_mul_word_def Let_def)
        ultimately show ?thesis by (auto simp: word_computed_def)
      next
        case (Some a2)
        have "bn_sized (a\<lparr>bn_d := d\<rparr>)" using sized ws(1,2) by (simp add: bn_sized_def)
        from bn_wexpand_Some [OF Some this] have "bn_top a2 = bn_top a" by simp
        then have "BN_mul_word mem a w = (True, a2\<lparr>bn_d := (bn_d a2)[bn_top a := c], bn_top := bn_top a + 1\<rparr>)" (is "_ = (_, ?r)")
          using 3 m False Some by (simp add: BN_mul_word_def Let_def)
        then show ?thesis using v(2) [OF False Some] sign [of ?r] by (simp add: word_computed_def)
      qed
    qed
  qed
qed

section \<open>Dividing by a word\<close>

text \<open>One word of a long division, on natural numbers: \<open>c\<close> is the remainder of the words above.\<close>

lemma long_division:
  fixes B P L c d l :: nat
  assumes "0 < d"
  defines "q \<equiv> (c * B + l) div d" and "c' \<equiv> (c * B + l) mod d"
  shows "(c * (B * P) + (L + P * l)) div d = (c' * P + L) div d + P * q \<and>
    (c * (B * P) + (L + P * l)) mod d = (c' * P + L) mod d"
proof -
  have "c * B + l = q * d + c'" by (simp add: q_def c'_def)
  then have "(c * B + l) * P = (q * d + c') * P" by simp
  then have eq: "c * (B * P) + (L + P * l) = (c' * P + L) + (P * q) * d" by (simp add: algebra_simps)
  show ?thesis unfolding eq using assms(1) by simp
qed

lemma unat_remainder:
  assumes "unat q = (unat c * 2 ^ 64 + unat l) div unat w" "w \<noteq> 0"
  shows "unat (l - q * w :: u64) = (unat c * 2 ^ 64 + unat l) mod unat w"
proof -
  define r where "r = (unat c * 2 ^ 64 + unat l) mod unat w"
  have "r < unat w" using assms(2) by (simp add: r_def unat_gt_0)
  then have less: "r < 2 ^ 64" using unat_u64_less [of w] by simp
  have eq: "unat q * unat w + r = unat c * 2 ^ 64 + unat l" unfolding assms(1) r_def by simp
  have "of_nat (unat q * unat w) + of_nat r = of_nat (unat c * 2 ^ 64) + (of_nat (unat l) :: u64)"
    by (simp only: eq flip: of_nat_add)
  moreover have "of_nat (unat c * 2 ^ 64) = (0 :: u64)" by (simp only: word_of_nat_eq_0_iff) simp
  ultimately have "q * w + of_nat r = l" by (simp only: of_nat_mult of_nat_unat ucast_id add_0)
  then have "l - q * w = of_nat r" by (simp add: algebra_simps)
  then show ?thesis using less by (simp add: unat_of_nat r_def)
qed

lemma div_word_loop_value:
  "n \<le> length ws \<Longrightarrow> c < w \<Longrightarrow>
     \<exists>ws' m. div_word_loop ws n c w = Some (ws' @ drop n ws, m) \<and> length ws' = n \<and>
       wval ws' = (unat c * 2 ^ (64 * n) + wval (take n ws)) div unat w \<and>
       unat m = (unat c * 2 ^ (64 * n) + wval (take n ws)) mod unat w"
proof (induction n arbitrary: ws c)
  case 0
  then show ?case by (simp add: word_less_nat_alt)
next
  case (Suc n)
  have w: "w \<noteq> 0" "0 < unat w" using Suc.prems(2) by (auto simp: unat_gt_0)
  obtain q where q: "bn_div_words c (ws ! n) w = Some q" "unat q = (unat c * 2 ^ 64 + unat (ws ! n)) div unat w"
    using bn_div_words_value [OF Suc.prems(2)] by blast
  let ?c = "ws ! n - q * w"
  have c: "unat ?c = (unat c * 2 ^ 64 + unat (ws ! n)) mod unat w" by (rule unat_remainder [OF q(2) w(1)])
  then have "?c < w" using w(2) by (simp add: word_less_nat_alt)
  from Suc.IH [of "ws[n := q]", OF _ this] Suc.prems(1) obtain ws' m where
    ih: "div_word_loop (ws[n := q]) n ?c w = Some (ws' @ drop n (ws[n := q]), m)" "length ws' = n"
      "wval ws' = (unat ?c * 2 ^ (64 * n) + wval (take n ws)) div unat w"
      "unat m = (unat ?c * 2 ^ (64 * n) + wval (take n ws)) mod unat w"
    by auto
  have "div_word_loop ws (Suc n) c w = Some ((ws' @ [q]) @ drop (Suc n) ws, m)"
    using ih(1) q(1) Suc.prems(1) by (simp add: drop_update_head Let_def)
  moreover have val: "wval (take (Suc n) ws) = wval (take n ws) + 2 ^ (64 * n) * unat (ws ! n)"
    using Suc.prems(1) by (simp add: take_Suc_conv_app_nth wval_snoc)
  have exp: "(2 :: nat) ^ (64 * Suc n) = 2 ^ 64 * 2 ^ (64 * n)" by (simp add: power_add)
  note step = long_division [OF w(2), of "unat c" "2 ^ 64" "2 ^ (64 * n)" "wval (take n ws)" "unat (ws ! n)"]
  have "wval (ws' @ [q]) = (unat c * 2 ^ (64 * Suc n) + wval (take (Suc n) ws)) div unat w"
    unfolding val exp wval_snoc ih(2,3) c q(2) using step by simp
  moreover have "unat m = (unat c * 2 ^ (64 * Suc n) + wval (take (Suc n) ws)) mod unat w"
    unfolding val exp ih(4) c using step by simp
  ultimately show ?case using ih(2) by auto
qed

lemma abs_bn_int: "\<bar>bn_int a\<bar> = int (bn_nat a)"
  by (simp add: bn_int_def)

lemma bn_int_negative: "bn_ok a \<Longrightarrow> bn_int a < 0 \<longleftrightarrow> bn_neg a"
  using bn_ok_sign [of a] by (auto simp: bn_int_def)

lemma bn_int_scale:
  assumes "bn_ok a" "bn_ok b" "bn_int b = int k * bn_int a" "0 < k"
  shows "bn_nat b = k * bn_nat a" "bn_neg b = bn_neg a"
proof -
  have "int (bn_nat b) = int (k * bn_nat a)" by (simp add: assms(3) abs_mult flip: abs_bn_int)
  then show "bn_nat b = k * bn_nat a" by (simp only: of_nat_eq_iff)
  have "bn_int b < 0 \<longleftrightarrow> bn_int a < 0" using assms(4) by (simp add: assms(3) mult_less_0_iff)
  then show "bn_neg b = bn_neg a" using bn_int_negative assms(1,2) by simp
qed

lemma BN_div_word_value:
  assumes a: "bn_ok a" and w: "w \<noteq> 0"
  shows "\<exists>m a'. BN_div_word mem a w = Some (m, a') \<and>
    (bn_ok a' \<and> bn_int a' = sgn (bn_int a) * int (bn_nat a div unat w) \<and> unat m = bn_nat a mod unat w \<or>
     m = BN_MASK2 \<and> bn_words a' = bn_words a \<and> (\<exists>n\<le>bn_top a + 1. bn_wexpand mem a n = None))"
proof (cases "bn_top a = 0")
  case True
  then have "bn_int a = 0" by (simp add: bn_int_def)
  then show ?thesis using True a w by (simp add: BN_div_word_def)
next
  case False
  define j where "j = 64 - unat (BN_num_bits_word w)"
  note bits = BN_num_bits_word_bounds [OF w]
  have j: "j < 64" using bits(1) by (simp add: j_def)
  have "unat w * 2 ^ j < 2 ^ unat (BN_num_bits_word w) * 2 ^ j" using bits(4) by simp
  also have "\<dots> = 2 ^ 64" using bits(2) by (simp add: j_def flip: power_add)
  finally have w': "unat (push_bit j w) = unat w * 2 ^ j" by (simp add: unat_push_bit [of j w])
  have wpos: "0 < unat w" using w by (simp add: unat_gt_0)
  obtain ok b where s: "BN_lshift mem a Result (int j) = (ok, b)" by fastforce
  have c: "if ok then bn_ok b \<and> bn_int b = 2 ^ j * bn_int a
      else bn_words b = bn_words a \<and> (\<exists>m\<le>bn_top a + 1. bn_wexpand mem a m = None)"
    using computed_lshift [of a Result mem j] a j s by (simp add: computed_def bn_of_def)
  show ?thesis
  proof (cases ok)
    case False
    then show ?thesis using c s w \<open>bn_top a \<noteq> 0\<close> by (auto simp: BN_div_word_def j_def Let_def)
  next
    case True
    with c have b: "bn_ok b" "bn_int b = 2 ^ j * bn_int a" by simp_all
    have nat: "bn_nat b = 2 ^ j * bn_nat a" "bn_neg b = bn_neg a" using bn_int_scale [OF a b(1), of "2 ^ j"] b(2) by simp_all
    define n where "n = bn_top b"
    have sized: "bn_sized b" using b by (simp add: bn_ok_def)
    have n: "n \<noteq> 0" using nat(1) bn_nat_zero [OF a] bn_nat_zero [OF b(1)] False by (simp add: n_def)
    have len: "n \<le> length (bn_d b)" using sized by (simp add: bn_sized_def n_def)
    have "0 < push_bit j w" using w' wpos by (simp add: word_less_nat_alt)
    from div_word_loop_value [OF len this] obtain ws m where
      l: "div_word_loop (bn_d b) n 0 (push_bit j w) = Some (ws @ drop n (bn_d b), m)" "length ws = n"
        "wval ws = bn_nat b div (unat w * 2 ^ j)" "unat m = bn_nat b mod (unat w * 2 ^ j)"
      by (auto simp: w' bn_nat_def bn_words_def n_def)
    have q: "wval ws = bn_nat a div unat w" unfolding l(3) nat(1) mult.commute [of "unat w"] by simp
    have m: "unat m = 2 ^ j * (bn_nat a mod unat w)" unfolding l(4) nat(1) mult.commute [of "unat w"] by (simp only: mult_mod_right)
    define tp where "tp = (if last ws = 0 then n - 1 else n)"
    have "2 ^ (64 * (n - 2)) \<le> wval ws" if big: "n \<ge> 2"
    proof -
      obtain k where k: "n = Suc (Suc k)" using big by (metis add_2_eq_Suc le_Suc_ex)
      have "2 ^ (64 * k) * unat (push_bit j w) \<le> 2 ^ (64 * k) * 2 ^ 64"
        using unat_u64_less [of "push_bit j w"] by (intro mult_le_mono2) simp
      also have "\<dots> = 2 ^ (64 * (n - 1))" by (simp add: k power_add)
      also have "\<dots> \<le> bn_nat b" using bn_nat_bound [OF b(1)] n by (simp add: n_def)
      finally show ?thesis using wpos unfolding l(3) w' k by (simp add: less_eq_div_iff_mult_less_eq)
    qed
    from zero_top [OF l(2) this n] have top: "normal (take tp ws)" "wval (take tp ws) = wval ws" by (simp_all add: tp_def)
    define a' where "a' = b\<lparr>bn_d := ws @ drop n (bn_d b), bn_top := tp, bn_neg := bn_neg b \<and> tp \<noteq> 0\<rparr>"
    have "(ws @ drop n (bn_d b)) ! (n - 1) = last ws" using l(2) n by (cases "ws = []") (auto simp: nth_append last_conv_nth)
    then have "BN_div_word mem a w = Some (drop_bit j m, a')"
      using s l(1) w True False n by (simp add: BN_div_word_def j_def [symmetric] n_def [symmetric] a'_def tp_def Let_def)
    moreover have words: "bn_words a' = take tp ws" using l(2) by (simp add: a'_def bn_words_def tp_def)
    then have v: "bn_nat a' = bn_nat a div unat w" using top(2) q by (simp add: bn_nat_def)
    have "bn_sized a'" using sized l(2) len by (auto simp: a'_def bn_sized_def tp_def n_def)
    then have "bn_ok a'" using top(1) words by (simp add: bn_ok_normal) (simp add: a'_def)
    moreover have "bn_int a' = sgn (bn_int a) * int (bn_nat a div unat w)"
    proof -
      have "tp = 0 \<Longrightarrow> bn_nat a' = 0" by (simp add: a'_def)
      then show ?thesis using v nat(2) bn_ok_sign [OF a] bn_nat_zero [OF a] False
        by (cases "tp = 0") (auto simp: bn_int_def sgn_if a'_def)
    qed
    moreover have "unat (drop_bit j m) = bn_nat a mod unat w" by (simp add: unat_drop_bit m)
    ultimately show ?thesis by blast
  qed
qed

lemma mod_word_step:
  fixes c l w :: u64
  assumes "c < w" "unat w \<le> 2 ^ 32"
  defines "c1 \<equiv> (push_bit BN_BITS4 c OR (drop_bit BN_BITS4 l AND BN_MASK2l)) mod w"
  shows "unat ((push_bit BN_BITS4 c1 OR (l AND BN_MASK2l)) mod w) = (unat c * 2 ^ 64 + unat l) mod unat w"
proof -
  have half: "unat (push_bit BN_BITS4 c' OR h) = unat c' * 2 ^ 32 + unat h" if "c' < w" "unat h < 2 ^ 32" for c' h :: u64
  proof -
    have "unat c' < 2 ^ 32" using that(1) assms(2) by (simp add: word_less_nat_alt)
    then show ?thesis using that(2) by (subst unat_or_push) simp_all
  qed
  have wpos: "0 < unat w" using assms(1) by (metis word_less_nat_alt gr_zeroI not_less_zero)
  have hi: "unat (drop_bit BN_BITS4 l AND BN_MASK2l) = unat l div 2 ^ 32"
    using unat_u64_less [of l] by (simp only: unat_mask_low unat_drop_bit) (simp add: less_mult_imp_div_less)
  have hi32: "unat (drop_bit BN_BITS4 l AND BN_MASK2l) < 2 ^ 32" and lo32: "unat (l AND BN_MASK2l) < 2 ^ 32"
    by (simp_all only: unat_mask_low) simp_all
  have c1: "unat c1 = (unat c * 2 ^ 32 + unat l div 2 ^ 32) mod unat w"
    unfolding c1_def unat_mod half [OF assms(1) hi32] hi ..
  then have "c1 < w" using wpos by (simp add: word_less_nat_alt)
  from half [OF this lo32]
  have "unat ((push_bit BN_BITS4 c1 OR (l AND BN_MASK2l)) mod w) = (unat c1 * 2 ^ 32 + unat l mod 2 ^ 32) mod unat w"
    by (simp only: unat_mod unat_mask_low)
  also have "\<dots> = ((unat c * 2 ^ 32 + unat l div 2 ^ 32) * 2 ^ 32 + unat l mod 2 ^ 32) mod unat w"
    unfolding c1 by (metis mod_add_left_eq mod_mult_left_eq)
  also have "(unat c * 2 ^ 32 + unat l div 2 ^ 32) * 2 ^ 32 + unat l mod 2 ^ 32 = unat c * 2 ^ 64 + unat l"
    using div_mult_mod_eq [of "unat l" "2 ^ 32"] by simp
  finally show ?thesis .
qed

lemma mod_word_loop_value:
  assumes "unat w \<le> 2 ^ 32"
  shows "n \<le> length ws \<Longrightarrow> c < w \<Longrightarrow> unat (mod_word_loop ws n c w) = (unat c * 2 ^ (64 * n) + wval (take n ws)) mod unat w"
proof (induction n arbitrary: c)
  case 0
  then show ?case by (simp add: word_less_nat_alt)
next
  case (Suc n)
  define c2 where "c2 = (push_bit BN_BITS4 ((push_bit BN_BITS4 c OR (drop_bit BN_BITS4 (ws ! n) AND BN_MASK2l)) mod w) OR
      (ws ! n AND BN_MASK2l)) mod w"
  have c2: "unat c2 = (unat c * 2 ^ 64 + unat (ws ! n)) mod unat w"
    unfolding c2_def by (rule mod_word_step [OF Suc.prems(2) assms])
  have wpos: "0 < unat w" using Suc.prems(2) by (metis word_less_nat_alt gr_zeroI not_less_zero)
  then have "c2 < w" using c2 by (simp add: word_less_nat_alt)
  then have "unat (mod_word_loop ws (Suc n) c w) = (unat c2 * 2 ^ (64 * n) + wval (take n ws)) mod unat w"
    using Suc.IH [of c2] Suc.prems(1) by (simp add: Let_def c2_def [symmetric])
  moreover have "wval (take (Suc n) ws) = wval (take n ws) + 2 ^ (64 * n) * unat (ws ! n)"
    using Suc.prems(1) by (simp add: take_Suc_conv_app_nth wval_snoc)
  moreover have "(2 :: nat) ^ (64 * Suc n) = 2 ^ 64 * 2 ^ (64 * n)" by (simp add: power_add)
  ultimately show ?case
    using long_division [OF wpos, of "unat c" "2 ^ 64" "2 ^ (64 * n)" "wval (take n ws)" "unat (ws ! n)"] by (simp only: c2)
qed

section \<open>Copies are equal\<close>

definition no_memory :: "(nat \<Rightarrow> bool) \<Rightarrow> nat \<Rightarrow> bool" where
  "no_memory mem n \<longleftrightarrow> int n > INT_MAX div (4 * 64) \<or> \<not> mem n"

lemma new_flags: "\<not> has_flag (BN_FLG_MALLOCED OR (f AND BN_FLG_SECURE)) BN_FLG_STATIC_DATA"
  by (simp add: has_flag_def bit.conj_disj_distrib2 and.assoc)

lemma BN_dup_Some:
  assumes "BN_dup mem new_ok a = Some b" "bn_ok a"
  shows "bn_ok b" "bn_words b = bn_words a" "bn_top b = bn_top a" "bn_neg b = bn_neg a" "\<not> BN_get_flags b BN_FLG_STATIC_DATA"
proof -
  define n a0 where "n = (if BN_get_flags a BN_FLG_CONSTTIME then bn_dmax a else bn_top a)"
    and "a0 = BN_new\<lparr>bn_flags := BN_FLG_MALLOCED OR (bn_flags a AND BN_FLG_SECURE)\<rparr>"
  have n: "bn_top a \<le> n" "n \<le> length (bn_d a)" using assms(2) by (auto simp: n_def bn_ok_def bn_sized_def)
  obtain b0 where b0: "bn_wexpand mem a0 n = Some b0"
    "b = b0\<lparr>bn_d := (if bn_top a > 0 then take n (bn_d a) @ drop n (bn_d b0) else bn_d b0),
      bn_neg := bn_neg a, bn_top := bn_top a, bn_flags := bn_flags b0 OR (bn_flags a AND BN_FLG_FIXED_TOP)\<rparr>"
  proof -
    have "BN_dup mem new_ok a = (if new_ok then BN_copy mem a0 a else None)" by (simp add: BN_dup_def a0_def)
    then have "BN_copy mem a0 a = Some b" using assms(1) by (cases new_ok) simp_all
    then show ?thesis using that unfolding BN_copy_def n_def [symmetric] Let_def map_option_eq_Some by blast
  qed
  have "bn_sized a0" by (simp add: a0_def BN_new_def bn_sized_def)
  from bn_wexpand_Some [OF b0(1) this] have e: "bn_sized b0" "n \<le> bn_dmax b0" "bn_flags b0 = bn_flags a0" by simp_all
  show w: "bn_words b = bn_words a" and top: "bn_top b = bn_top a" and neg: "bn_neg b = bn_neg a"
    using n by (auto simp: b0(2) bn_words_def)
  have "bn_sized b" using e(1,2) n by (auto simp: b0(2) bn_sized_def)
  then show "bn_ok b" using assms(2) w top neg by (simp add: bn_ok_normal)
  show "\<not> BN_get_flags b BN_FLG_STATIC_DATA" using new_flags e(3) by (simp add: b0(2) a0_def BN_get_flags_def)
qed

lemma BN_dup_None:
  assumes "BN_dup mem new_ok a = None" "bn_ok a"
  shows "\<not> new_ok \<or> (\<exists>n\<le>bn_dmax a. no_memory mem n)"
proof -
  define n where "n = (if BN_get_flags a BN_FLG_CONSTTIME then bn_dmax a else bn_top a)"
  have "n \<le> bn_dmax a" using assms(2) by (simp add: n_def bn_ok_def bn_sized_def)
  moreover have "no_memory mem n" if new_ok
    using assms(1) that new_flags
    by (auto simp: BN_dup_def BN_copy_def n_def bn_wexpand_fails BN_get_flags_def no_memory_def Let_def split: if_splits)
  ultimately show ?thesis by blast
qed

lemma BN_mod_word_value:
  assumes a: "bn_ok a" and w: "w \<noteq> 0"
  shows "\<exists>m. BN_mod_word mem new_ok a w = Some m \<and>
    (unat m = bn_nat a mod unat w \<or>
     m = BN_MASK2 \<and> unat w > 2 ^ 32 \<and> (new_ok \<longrightarrow> (\<exists>n\<le>max (bn_dmax a) (bn_top a + 1). no_memory mem n)))"
proof (cases "unat w > 2 ^ 32")
  case False
  then have "\<not> w > push_bit BN_BITS4 1" by (simp add: word_less_nat_alt)
  moreover have "0 < w" using w by (simp add: word_neq_0_conv)
  then have "unat (mod_word_loop (bn_d a) (bn_top a) 0 w) = bn_nat a mod unat w"
    using mod_word_loop_value [of w "bn_top a" "bn_d a" 0] False a by (simp add: bn_nat_def bn_words_def bn_ok_def bn_sized_def)
  ultimately show ?thesis using w by (simp add: BN_mod_word_def)
next
  case True
  then have big: "w > push_bit BN_BITS4 1" by (simp add: word_less_nat_alt)
  show ?thesis
  proof (cases "BN_dup mem new_ok a")
    case None
    then have "BN_mod_word mem new_ok a w = Some BN_MASK2" using w big by (simp add: BN_mod_word_def)
    moreover have "\<exists>n\<le>max (bn_dmax a) (bn_top a + 1). no_memory mem n" if new_ok
      using BN_dup_None [OF None a] that max.coboundedI1 by blast
    ultimately show ?thesis using True by blast
  next
    case (Some b)
    note b = BN_dup_Some [OF Some a]
    have nat: "bn_nat b = bn_nat a" using b(2) by (simp add: bn_nat_def)
    obtain m b' where d: "BN_div_word mem b w = Some (m, b')"
      "unat m = bn_nat a mod unat w \<or> m = BN_MASK2 \<and> (\<exists>n\<le>bn_top a + 1. bn_wexpand mem b n = None)"
      using BN_div_word_value [OF b(1) w, of mem] unfolding b(3) nat by blast
    have "no_memory mem n" if "bn_wexpand mem b n = None" for n
      using that b(5) by (simp add: bn_wexpand_fails no_memory_def)
    then have "\<exists>n\<le>max (bn_dmax a) (bn_top a + 1). no_memory mem n" if "\<exists>n\<le>bn_top a + 1. bn_wexpand mem b n = None"
      using that max.coboundedI2 by blast
    moreover have "BN_mod_word mem new_ok a w = Some m" using w big Some d(1) by (simp add: BN_mod_word_def)
    ultimately show ?thesis using d(2) True by blast
  qed
qed

section \<open>Properties\<close>

text \<open>
  C30. \<^verbatim>\<open>BN_add_word\<close>, \<^verbatim>\<open>BN_sub_word\<close> and \<^verbatim>\<open>BN_mul_word\<close> change a well-formed number by a word: it stays well formed and is the sum,
  the difference or the product, across the change of sign; a call fails only where the array cannot be
  enlarged.
\<close>

theorem bn_word_ops_correct:
  assumes "bn_ok a"
  shows "(case BN_add_word mem a w of (ret, a') \<Rightarrow>
      if ret then bn_ok a' \<and> bn_int a' = bn_int a + int (unat w) else (\<exists>n\<le>bn_top a + 1. bn_wexpand mem a n = None)) \<and>
    (case BN_sub_word mem a w of (ret, a') \<Rightarrow>
      if ret then bn_ok a' \<and> bn_int a' = bn_int a - int (unat w) else (\<exists>n\<le>bn_top a + 1. bn_wexpand mem a n = None)) \<and>
    (case BN_mul_word mem a w of (ret, a') \<Rightarrow>
      if ret then bn_ok a' \<and> bn_int a' = bn_int a * int (unat w) else (\<exists>n\<le>bn_top a + 1. bn_wexpand mem a n = None))"
  using computed_add_word [OF assms] computed_sub_word [OF assms] computed_mul_word [OF assms]
  unfolding word_computed_def by (intro conjI)

theorem bn_word_ops_correct_witness:
  "bn_int (snd (BN_sub_word (\<lambda>_. True) (small_bn False [3]) 5)) = - 2"
proof -
  let ?a = "small_bn False [3]"
  have ok: "bn_ok ?a" by (simp add: small_bn_def bn_ok_def bn_sized_def)
  have "bn_wexpand (\<lambda>_. True) ?a n \<noteq> None" if "n \<le> 2" for n
    using that by (simp add: bn_wexpand_fails BN_get_flags_def small_bn_def has_flag_def)
  then have "\<not> (\<exists>n\<le>bn_top ?a + 1. bn_wexpand (\<lambda>_. True) ?a n = None)" by (auto simp: small_bn_def)
  moreover have "bn_int ?a = 3" by (simp add: small_bn_def bn_int_def bn_nat_def bn_words_def)
  ultimately show ?thesis
    using bn_word_ops_correct [OF ok, where mem = "\<lambda>_. True" and w = 5] by (auto split: prod.splits if_splits)
qed

text \<open>
  C31. \<^verbatim>\<open>BN_div_word\<close> of a well-formed number by a word that is not zero returns: either the remainder of the magnitude, the
  number having become the quotient truncated towards zero, or the error value where the array could not be
  enlarged for the normalising shift, no digit having changed. \<^verbatim>\<open>BN_mod_word\<close> returns the same remainder.
\<close>

theorem bn_div_word_correct:
  assumes "bn_ok a" "w \<noteq> 0"
  shows "(\<exists>m a'. BN_div_word mem a w = Some (m, a') \<and>
      (bn_ok a' \<and> bn_int a' = sgn (bn_int a) * int (bn_nat a div unat w) \<and> unat m = bn_nat a mod unat w \<or>
       m = BN_MASK2 \<and> bn_words a' = bn_words a \<and> (\<exists>n\<le>bn_top a + 1. bn_wexpand mem a n = None))) \<and>
    (\<exists>m. BN_mod_word mem new_ok a w = Some m \<and>
      (unat m = bn_nat a mod unat w \<or>
       m = BN_MASK2 \<and> unat w > 2 ^ 32 \<and> (new_ok \<longrightarrow> (\<exists>n\<le>max (bn_dmax a) (bn_top a + 1). no_memory mem n))))"
  using BN_div_word_value [OF assms] BN_mod_word_value [OF assms] by blast

theorem bn_div_word_correct_witness:
  "\<exists>m a'. BN_div_word (\<lambda>_. True) (small_bn True [7, 5]) 10 = Some (m, a') \<and> unat m = 7 \<and> bn_int a' = - (2 ^ 63)"
proof -
  let ?a = "small_bn True [7, 5]"
  have ok: "bn_ok ?a" by (simp add: small_bn_def bn_ok_def bn_sized_def)
  have "bn_wexpand (\<lambda>_. True) ?a n \<noteq> None" if "n \<le> 3" for n
    using that by (simp add: bn_wexpand_fails BN_get_flags_def small_bn_def has_flag_def)
  then have "\<not> (\<exists>n\<le>bn_top ?a + 1. bn_wexpand (\<lambda>_. True) ?a n = None)" by (auto simp: small_bn_def)
  moreover have "bn_nat ?a = 7 + 5 * 2 ^ 64" "sgn (bn_int ?a) = - 1"
    by (simp_all add: small_bn_def bn_int_def bn_nat_def bn_words_def)
  ultimately show ?thesis
    using bn_div_word_correct [OF ok, where w = 10 and mem = "\<lambda>_. True" and new_ok = True] by auto
qed

end
