(* ===== verification/Constant_Time.thy ===== *)
theory Constant_Time
  imports Prelude
begin

text \<open>
  The comparisons and selections without branches of \<^verbatim>\<open>include/internal/constant_time.h\<close>, at any width: the header
  has each of them for \<^verbatim>\<open>unsigned int\<close>, \<^verbatim>\<open>size_t\<close>, \<^verbatim>\<open>uint32_t\<close>, \<^verbatim>\<open>uint64_t\<close> and, as a cast, for bytes. The barriers against
  optimisation return their argument. Shown: every mask is all ones or zero as the comparison it stands for
  holds or not, selections and swaps follow their mask, and a table look-up reads the row of its index.
\<close>

section \<open>Definitions\<close>

definition constant_time_msb :: "'a::len word \<Rightarrow> 'a word" where
  "constant_time_msb a = 0 - drop_bit (LENGTH('a) - 1) a"

definition constant_time_lt :: "'a::len word \<Rightarrow> 'a word \<Rightarrow> 'a word" where
  "constant_time_lt a b = constant_time_msb (a XOR ((a XOR b) OR ((a - b) XOR b)))"

definition constant_time_ge :: "'a::len word \<Rightarrow> 'a word \<Rightarrow> 'a word" where
  "constant_time_ge a b = NOT (constant_time_lt a b)"

definition constant_time_is_zero :: "'a::len word \<Rightarrow> 'a word" where
  "constant_time_is_zero a = constant_time_msb (NOT a AND (a - 1))"

definition constant_time_eq :: "'a::len word \<Rightarrow> 'a word \<Rightarrow> 'a word" where
  "constant_time_eq a b = constant_time_is_zero (a XOR b)"

definition constant_time_select :: "'a::len word \<Rightarrow> 'a word \<Rightarrow> 'a word \<Rightarrow> 'a word" where
  "constant_time_select mask' a b = (mask' AND a) OR (NOT mask' AND b)"

definition constant_time_select_8 :: "u8 \<Rightarrow> u8 \<Rightarrow> u8 \<Rightarrow> u8" where
  "constant_time_select_8 mask' a b = ucast (constant_time_select (ucast mask' :: u32) (ucast a) (ucast b))"

definition constant_time_cond_swap :: "'a::len word \<Rightarrow> 'a word \<Rightarrow> 'a word \<Rightarrow> 'a word \<times> 'a word" where
  "constant_time_cond_swap mask' a b = (let x = (a XOR b) AND mask' in (a XOR x, b XOR x))"

fun lookup_rows :: "bytes \<Rightarrow> bytes \<Rightarrow> nat \<Rightarrow> nat \<Rightarrow> u64 \<Rightarrow> bytes" where
  "lookup_rows out tablec rowsize 0 idx = out"
| "lookup_rows out tablec rowsize (Suc n) idx =
     (let mask' = ucast (constant_time_is_zero idx);
          out = map2 (\<lambda>c t. c OR constant_time_select_8 mask' t 0) out (take rowsize tablec)
      in lookup_rows out (drop rowsize tablec) rowsize n (idx - 1))"

definition constant_time_lookup :: "bytes \<Rightarrow> nat \<Rightarrow> nat \<Rightarrow> u64 \<Rightarrow> bytes" where
  "constant_time_lookup table rowsize numrows idx = lookup_rows (replicate rowsize 0) table rowsize numrows idx"

section \<open>Masks\<close>

lemma msb_mask: "constant_time_msb a = (if bit a (LENGTH('a) - 1) then - 1 else 0)" for a :: "'a::len word"
proof -
  have "drop_bit (LENGTH('a) - 1) a = (if bit a (LENGTH('a) - 1) then 1 else 0)"
  proof (rule bit_word_eqI)
    fix n assume "n < LENGTH('a)"
    show "bit (drop_bit (LENGTH('a) - 1) a) n = bit (if bit a (LENGTH('a) - 1) then 1 else 0 :: 'a word) n"
      using bit_imp_le_length [of a "LENGTH('a) - 1 + n"] by (cases n) (auto simp: bit_drop_bit_eq bit_1_iff)
  qed
  then show ?thesis by (simp add: constant_time_msb_def)
qed

lemma bit_top: "bit a (LENGTH('a) - 1) \<longleftrightarrow> 2 ^ (LENGTH('a) - 1) \<le> unat a" for a :: "'a::len word"
proof -
  define k where "k = LENGTH('a) - 1"
  have k: "LENGTH('a) = Suc k" by (simp add: k_def)
  have lt: "unat a < 2 * 2 ^ k" using unsigned_less [of a] by (simp add: k)
  have "bit a k \<longleftrightarrow> odd (unat a div 2 ^ k)" by (simp add: bit_unsigned_iff bit_iff_odd flip: bit_iff_odd)
  also have "\<dots> \<longleftrightarrow> 2 ^ k \<le> unat a"
  proof (cases "2 ^ k \<le> unat a")
    case True
    then have "unat a div 2 ^ k = 1" using lt by (intro div_nat_eqI) simp_all
    then show ?thesis using True by simp
  qed simp
  finally show ?thesis by (simp add: k_def)
qed

lemma is_zero_mask: "constant_time_is_zero a = (if a = 0 then - 1 else 0)" for a :: "'a::len word"
proof -
  have "bit (a - 1) (LENGTH('a) - 1) \<and> \<not> bit a (LENGTH('a) - 1) \<longleftrightarrow> a = 0"
  proof (cases "a = 0")
    case False
    then have "unat (a - 1) = unat a - 1" by (simp add: unat_minus_one)
    then show ?thesis using False unfolding bit_top by auto
  qed simp
  then show ?thesis unfolding constant_time_is_zero_def msb_mask by (auto simp: bit_and_iff bit_not_iff)
qed

lemma lt_mask: "constant_time_lt a b = (if a < b then - 1 else 0)" for a b :: "'a::len word"
proof -
  define M :: nat where "M = 2 ^ (LENGTH('a) - 1)"
  have W: "2 ^ LENGTH('a) = 2 * M" by (simp add: M_def flip: power_Suc)
  have "unat x < 2 ^ LENGTH('a)" for x :: "'a word" by (rule unsigned_less)
  then have less: "unat a < 2 * M" "unat b < 2 * M" unfolding W by simp_all
  have d: "unat (a - b) = (if unat b \<le> unat a then unat a - unat b else unat a + 2 * M - unat b)"
    by (simp add: unat_sub_if' W)
  have "bit (a XOR ((a XOR b) OR ((a - b) XOR b))) (LENGTH('a) - 1) \<longleftrightarrow> a < b"
    unfolding bit_xor_iff bit_or_iff
    unfolding bit_top M_def [symmetric] d word_less_nat_alt using less by auto
  then show ?thesis by (simp add: constant_time_lt_def msb_mask)
qed

lemma eq_mask: "constant_time_eq a b = (if a = b then - 1 else 0)"
proof -
  have "(a XOR b) XOR b = a" by (simp add: xor.assoc)
  then have "a XOR b = 0 \<longleftrightarrow> a = b" by auto
  then show ?thesis by (simp add: constant_time_eq_def is_zero_mask)
qed

lemma select_mask: "constant_time_select (if c then - 1 else 0) a b = (if c then a else b)"
  by (simp add: constant_time_select_def)

lemma select_8_mask: "constant_time_select_8 (if c then - 1 else 0) a 0 = (if c then a else 0)"
proof -
  have "ucast ((ucast (- 1 :: u8) :: u32) AND ucast a) = a"
    by (rule bit_word_eqI) (auto simp: bit_ucast_iff bit_and_iff)
  then show ?thesis by (simp add: constant_time_select_8_def constant_time_select_def)
qed


lemma lookup_rows_value:
  "length table = rowsize * n \<Longrightarrow> length out = rowsize \<Longrightarrow> n < 2 ^ 64 \<Longrightarrow>
     lookup_rows out table rowsize n idx =
       (if unat idx < n then map2 (OR) out (take rowsize (drop (rowsize * unat idx) table)) else out)"
proof (induction n arbitrary: out table idx)
  case (Suc n)
  let ?row = "take rowsize table"
  define out' where "out' = map2 (\<lambda>c t. c OR (if idx = 0 then t else 0)) out ?row"
  have row: "length ?row = rowsize" using Suc.prems(1) by simp
  have out': "length out' = rowsize" using Suc.prems(2) row by (simp add: out'_def)
  have "ucast (- 1 :: u64) = (- 1 :: u8)" by (rule bit_word_eqI) (simp add: bit_ucast_iff)
  then have "ucast (if idx = 0 then - 1 else 0 :: u64) = (if idx = 0 then - 1 else 0 :: u8)" by simp
  then have step: "lookup_rows out table rowsize (Suc n) idx = lookup_rows out' (drop rowsize table) rowsize n (idx - 1)"
    by (simp add: Let_def is_zero_mask select_8_mask out'_def)
  have ih: "lookup_rows out' (drop rowsize table) rowsize n (idx - 1) =
      (if unat (idx - 1) < n then map2 (OR) out' (take rowsize (drop (rowsize * unat (idx - 1)) (drop rowsize table))) else out')"
    using Suc.prems out' by (intro Suc.IH) simp_all
  show ?case
  proof (cases "idx = 0")
    case True
    moreover have "unat (- 1 :: u64) = 2 ^ 64 - 1" by (subst unsigned_minus_1_eq_mask) (simp_all add: mask_eq_exp_minus_1)
    ultimately have "\<not> unat (idx - 1) < n" using Suc.prems(3) by simp
    then show ?thesis unfolding step ih using True by (simp add: out'_def)
  next
    case False
    then have "out' = out" using Suc.prems(2) row by (simp add: out'_def list_eq_iff_nth_eq)
    moreover have u: "unat idx = Suc (unat (idx - 1))" using False by (simp add: unat_minus_one unat_gt_0)
    ultimately show ?thesis unfolding step ih by (simp add: u add.commute)
  qed
qed simp

lemma lookup_value:
  assumes "length table = rowsize * numrows" "numrows < 2 ^ 64"
  shows "constant_time_lookup table rowsize numrows idx =
    (if unat idx < numrows then take rowsize (drop (rowsize * unat idx) table) else replicate rowsize 0)"
proof -
  have "map2 (OR) (replicate rowsize 0) row = row" if "length row = rowsize" for row :: bytes
    using that by (simp add: list_eq_iff_nth_eq)
  moreover have "length (take rowsize (drop (rowsize * unat idx) table)) = rowsize" if "unat idx < numrows"
  proof -
    have "rowsize * Suc (unat idx) \<le> length table" using that assms(1) by (simp only: Suc_le_eq mult_le_mono2)
    then show ?thesis by simp
  qed
  ultimately show ?thesis using assms by (simp add: constant_time_lookup_def lookup_rows_value)
qed

section \<open>Properties\<close>

text \<open>
  C33. At every width the masks of \<^verbatim>\<open>constant_time.h\<close> are all ones where the comparison of unsigned numbers they stand for holds and
  zero where it does not, the selection and the swap obey such a mask, and the look-up in a table of fewer than \<open>2 ^ 64\<close>
  rows reads the row of the index, or zeros for an index beyond the table.
\<close>

theorem constant_time_correct:
  fixes a b :: "'a::len word"
  assumes "length table = rowsize * numrows" "numrows < 2 ^ 64"
  shows "constant_time_lt a b = (if a < b then - 1 else 0) \<and>
    constant_time_ge a b = (if a \<ge> b then - 1 else 0) \<and>
    constant_time_is_zero a = (if a = 0 then - 1 else 0) \<and>
    constant_time_eq a b = (if a = b then - 1 else 0) \<and>
    constant_time_select (if c then - 1 else 0) a b = (if c then a else b) \<and>
    constant_time_cond_swap (if c then - 1 else 0) a b = (if c then (b, a) else (a, b)) \<and>
    constant_time_lookup table rowsize numrows idx =
      (if unat idx < numrows then take rowsize (drop (rowsize * unat idx) table) else replicate rowsize 0)"
  using lookup_value [OF assms, of idx]
  by (simp add: lt_mask eq_mask is_zero_mask select_mask constant_time_ge_def constant_time_cond_swap_def not_le xor.left_commute
      xor.assoc)

theorem constant_time_correct_witness:
  "constant_time_lt (0xfffffffe :: u32) 0xffffffff = - 1 \<and> constant_time_lookup [1, 2, 3, 4] 2 2 1 = [3, 4]"
  using constant_time_correct [of "[1, 2, 3, 4]" 2 2 "0xfffffffe :: u32" "0xffffffff" True 1] by simp

end
