(* ===== verification/BN_Convert.thy ===== *)
theory BN_Convert
  imports BN_Single Constant_Time
begin

text \<open>
  Multi-precision integers as bits and bytes (\<^verbatim>\<open>crypto/bn/bn_lib.c\<close>): their length, single bits, and the conversions from
  and to byte strings in either order, with and without padding. Shown: the length is the number of bits, by
  the loop with branches and by the one without, bits are those of the magnitude, and byte strings are read back.
\<close>

section \<open>Length\<close>

fun num_bits_loop :: "u64 list \<Rightarrow> u32 \<Rightarrow> nat \<Rightarrow> nat \<Rightarrow> u32 \<Rightarrow> u32 \<Rightarrow> u32" where
  "num_bits_loop d i j 0 past_i ret = ret"
| "num_bits_loop d i j (Suc n) past_i ret =
     (let mask' = constant_time_eq i (of_nat j);
          ret = ret + (64 AND (NOT mask' AND NOT past_i));
          ret = ret + (BN_num_bits_word (d ! j) AND mask')
      in num_bits_loop d i (Suc j) n (past_i OR mask') ret)"

definition bn_num_bits_consttime :: "BIGNUM \<Rightarrow> u32" where
  "bn_num_bits_consttime a =
     (let i = of_nat (bn_top a) - 1; ret = num_bits_loop (bn_d a) i 0 (bn_dmax a) 0 0; mask' = NOT (constant_time_eq i (- 1))
      in ret AND mask')"

definition BN_num_bits :: "BIGNUM \<Rightarrow> nat" where
  "BN_num_bits a =
     (if BN_get_flags a BN_FLG_CONSTTIME then unat (bn_num_bits_consttime a)
      else if BN_is_zero a then 0
      else (bn_top a - 1) * BN_BITS2 + unat (BN_num_bits_word (bn_d a ! (bn_top a - 1))))"

definition BN_num_bytes :: "BIGNUM \<Rightarrow> nat" where
  "BN_num_bytes a = (BN_num_bits a + 7) div 8"

section \<open>Bits\<close>

definition BN_set_bit :: "(nat \<Rightarrow> bool) \<Rightarrow> BIGNUM \<Rightarrow> int \<Rightarrow> bool \<times> BIGNUM" where
  "BN_set_bit mem a n =
     (if n < 0 then (False, a)
      else let i = nat n div BN_BITS2; j = nat n mod BN_BITS2 in
        case (if bn_top a \<le> i
              then map_option (\<lambda>a. a\<lparr>bn_d := take (bn_top a) (bn_d a) @ replicate (i + 1 - bn_top a) 0 @ drop (i + 1) (bn_d a),
                     bn_top := i + 1, bn_flags := bn_flags a AND NOT BN_FLG_FIXED_TOP\<rparr>) (bn_wexpand mem a (i + 1))
              else Some a) of
          None \<Rightarrow> (False, a)
        | Some a \<Rightarrow> (True, a\<lparr>bn_d := (bn_d a)[i := bn_d a ! i OR push_bit j 1]\<rparr>))"

definition BN_clear_bit :: "BIGNUM \<Rightarrow> int \<Rightarrow> bool \<times> BIGNUM" where
  "BN_clear_bit a n =
     (if n < 0 then (False, a)
      else let i = nat n div BN_BITS2; j = nat n mod BN_BITS2 in
        if bn_top a \<le> i then (False, a)
        else (True, bn_correct_top (a\<lparr>bn_d := (bn_d a)[i := bn_d a ! i AND NOT (push_bit j 1)]\<rparr>)))"

definition BN_is_bit_set :: "BIGNUM \<Rightarrow> int \<Rightarrow> bool" where
  "BN_is_bit_set a n =
     (if n < 0 then False
      else let i = nat n div BN_BITS2; j = nat n mod BN_BITS2 in
        if bn_top a \<le> i then False else has_flag (drop_bit j (bn_d a ! i)) 1)"

definition BN_mask_bits :: "BIGNUM \<Rightarrow> int \<Rightarrow> bool \<times> BIGNUM" where
  "BN_mask_bits a n =
     (if n < 0 then (False, a)
      else let w = nat n div BN_BITS2; b = nat n mod BN_BITS2 in
        if w \<ge> bn_top a then (False, a)
        else (True, bn_correct_top
          (if b = 0 then a\<lparr>bn_top := w\<rparr>
           else a\<lparr>bn_top := w + 1, bn_d := (bn_d a)[w := bn_d a ! w AND NOT (push_bit b BN_MASK2)]\<rparr>)))"

section \<open>Bytes\<close>

fun bin2bn_loop :: "bytes \<Rightarrow> nat \<Rightarrow> nat \<Rightarrow> u64 \<Rightarrow> u64 list \<Rightarrow> u64 list" where
  "bin2bn_loop [] i m l d = d"
| "bin2bn_loop (b # s) i m l d =
     (let l = push_bit 8 l OR ucast b in
      if m = 0 then bin2bn_loop s (i - 1) (BN_BYTES - 1) 0 (d[i - 1 := l])
      else bin2bn_loop s i (m - 1) l d)"

text \<open>The argument \<open>ret\<close> is the object to write to, a new one for \<^const>\<open>None\<close>; \<open>new_ok\<close> tells whether it can be allocated.\<close>

definition bin2bn_skipped :: "(nat \<Rightarrow> bool) \<Rightarrow> bytes \<Rightarrow> BIGNUM \<Rightarrow> BIGNUM option" where
  "bin2bn_skipped mem s ret =
     (let n = length s in
      if n = 0 then Some (ret\<lparr>bn_top := 0\<rparr>)
      else let i = (n - 1) div BN_BYTES + 1; m = (n - 1) mod BN_BYTES in
        map_option (\<lambda>ret. bn_correct_top (ret\<lparr>bn_top := i, bn_neg := False, bn_d := bin2bn_loop s i m 0 (bn_d ret)\<rparr>))
          (bn_wexpand mem ret i))"

definition BN_bin2bn :: "(nat \<Rightarrow> bool) \<Rightarrow> bool \<Rightarrow> bytes \<Rightarrow> BIGNUM option \<Rightarrow> BIGNUM option" where
  "BN_bin2bn mem new_ok s ret =
     (case (case ret of None \<Rightarrow> if new_ok then Some BN_new else None | Some r \<Rightarrow> Some r) of
        None \<Rightarrow> None
      | Some r \<Rightarrow> bin2bn_skipped mem (dropWhile (\<lambda>b. b = 0) s) r)"

text \<open>The little-endian reader does the same from the end of the string.\<close>

definition BN_lebin2bn :: "(nat \<Rightarrow> bool) \<Rightarrow> bool \<Rightarrow> bytes \<Rightarrow> BIGNUM option \<Rightarrow> BIGNUM option" where
  "BN_lebin2bn mem new_ok s ret =
     (case (case ret of None \<Rightarrow> if new_ok then Some BN_new else None | Some r \<Rightarrow> Some r) of
        None \<Rightarrow> None
      | Some r \<Rightarrow> bin2bn_skipped mem (dropWhile (\<lambda>b. b = 0) (rev s)) r)"

datatype endianess_t = big | little

fun bn2bin_loop :: "u64 list \<Rightarrow> u64 \<Rightarrow> u64 \<Rightarrow> nat \<Rightarrow> u64 \<Rightarrow> u64 \<Rightarrow> bytes" where
  "bn2bin_loop d lasti atop 0 i j = []"
| "bn2bin_loop d lasti atop (Suc n) i j =
     (let l = d ! unat (i div of_nat BN_BYTES);
          mask' = 0 - drop_bit 63 (j - atop);
          val = ucast (drop_bit (8 * unat (i mod of_nat BN_BYTES)) l AND mask')
      in val # bn2bin_loop d lasti atop n (i + drop_bit 63 (i - lasti)) (j + 1))"

text \<open>The return value, and the bytes written to \<^verbatim>\<open>to\<close>: from its end for the big-endian order. The bytes are unsigned numbers
  from the least significant one on, so their order in memory is reversed in the first case.\<close>

definition bn2binpad :: "BIGNUM \<Rightarrow> int \<Rightarrow> endianess_t \<Rightarrow> int \<times> bytes" where
  "bn2binpad a tolen endianess =
     (let n = int (BN_num_bytes a);
          tolen' = (if tolen = - 1 then n else tolen)
      in if tolen \<noteq> - 1 \<and> tolen < n \<and> tolen < int (BN_num_bytes (bn_correct_top a)) then (- 1, [])
         else let atop = of_nat (bn_dmax a) * of_nat BN_BYTES :: u64 in
           if atop = 0 then (tolen', replicate (nat tolen') 0)
           else let lasti = atop - 1; atop = of_nat (bn_top a) * of_nat BN_BYTES;
                    out = bn2bin_loop (bn_d a) lasti atop (nat tolen') 0 0
             in (tolen', case endianess of big \<Rightarrow> rev out | little \<Rightarrow> out))"

definition BN_bn2binpad :: "BIGNUM \<Rightarrow> int \<Rightarrow> int \<times> bytes" where
  "BN_bn2binpad a tolen = (if tolen < 0 then (- 1, []) else bn2binpad a tolen big)"

definition BN_bn2bin :: "BIGNUM \<Rightarrow> int \<times> bytes" where
  "BN_bn2bin a = bn2binpad a (- 1) big"

definition BN_bn2lebinpad :: "BIGNUM \<Rightarrow> int \<Rightarrow> int \<times> bytes" where
  "BN_bn2lebinpad a tolen = (if tolen < 0 then (- 1, []) else bn2binpad a tolen little)"

section \<open>The bits of a number of words\<close>

lemma wval_Cons_bits: "wval (w # ws) = push_bit 64 (wval ws) OR unat w"
  using nat_or_push [OF unat_u64_less [of w], of "wval ws"] by (simp add: mult.commute)

lemma bit_wval: "bit (wval ws) n \<longleftrightarrow> n div 64 < length ws \<and> bit (ws ! (n div 64)) (n mod 64)"
proof (induction ws arbitrary: n)
  case (Cons w ws)
  show ?case
  proof (cases "n < 64")
    case True
    then show ?thesis unfolding wval_Cons_bits by (simp add: bit_or_iff bit_push_bit_iff bit_unsigned_iff)
  next
    case False
    then obtain k where k: "n = k + 64" by (metis add.commute le_Suc_ex not_less)
    have "\<not> bit (unat w) n" using False bit_imp_le_length [of w n] by (auto simp: bit_unsigned_iff)
    moreover have "(k + 64) div 64 = Suc (k div 64)" by simp
    ultimately show ?thesis using Cons [of k] unfolding wval_Cons_bits k by (simp add: bit_or_iff bit_push_bit_iff)
  qed
qed simp

lemma bit_bn_nat:
  assumes "bn_sized a"
  shows "bit (bn_nat a) n \<longleftrightarrow> n div 64 < bn_top a \<and> bit (bn_d a ! (n div 64)) (n mod 64)"
  using length_bn_words [OF assms] by (auto simp: bn_nat_def bit_wval bn_words_def)


definition bits_of :: "nat \<Rightarrow> nat \<Rightarrow> bool" where
  "bits_of v k \<longleftrightarrow> v < 2 ^ k \<and> (k \<noteq> 0 \<longrightarrow> 2 ^ (k - 1) \<le> v)"

lemma bits_of_unique:
  assumes "bits_of v k" "bits_of v l"
  shows "k = l"
proof -
  have *: "\<not> k < l" if "bits_of v k" "bits_of v l" for k l
  proof
    assume "k < l"
    then have "(2 :: nat) ^ k \<le> 2 ^ (l - 1)" by (intro power_increasing) simp_all
    moreover have "v < 2 ^ k" "2 ^ (l - 1) \<le> v" using that \<open>k < l\<close> by (simp_all add: bits_of_def)
    ultimately show False by linarith
  qed
  show ?thesis using * [OF assms] * [OF assms(2,1)] by simp
qed

section \<open>The length is the number of bits\<close>

lemma num_bits_loop_past: "(\<And>k. j \<le> k \<Longrightarrow> k < j + n \<Longrightarrow> i \<noteq> of_nat k) \<Longrightarrow> num_bits_loop d i j n (- 1) ret = ret"
  by (induction n arbitrary: j) (simp_all add: eq_mask)

lemma num_bits_loop_value:
  assumes "i < 2 ^ 32" "j \<le> i" "i < j + n" "j + n < 2 ^ 32"
  shows "num_bits_loop d (of_nat i) j n 0 ret = ret + of_nat (64 * (i - j)) + BN_num_bits_word (d ! i)"
  using assms(2-4)
proof (induction n arbitrary: j ret)
  case (Suc n)
  have inj: "(of_nat i :: u32) = of_nat k \<longleftrightarrow> i = k" if "k < 2 ^ 32" for k
    using that assms(1) by (simp add: word_of_nat_eq_iff take_bit_nat_eq_self)
  show ?case
  proof (cases "i = j")
    case True
    have "num_bits_loop d (of_nat i) (Suc j) n (- 1) (ret + BN_num_bits_word (d ! i)) = ret + BN_num_bits_word (d ! i)"
      using inj Suc.prems True by (intro num_bits_loop_past) simp
    then show ?thesis using True by (simp add: eq_mask)
  next
    case False
    then have "num_bits_loop d (of_nat i) j (Suc n) 0 ret = num_bits_loop d (of_nat i) (Suc j) n 0 (ret + 64)"
      using inj [of j] Suc.prems by (simp add: eq_mask)
    also have "\<dots> = ret + (64 + of_nat (64 * (i - Suc j))) + BN_num_bits_word (d ! i)"
      using Suc.IH [of "Suc j" "ret + 64"] Suc.prems False by simp
    also have "64 + of_nat (64 * (i - Suc j)) = (of_nat (64 * (i - j)) :: u32)"
    proof -
      have "64 + 64 * (i - Suc j) = 64 * (i - j)" using Suc.prems False by simp
      then show ?thesis by (metis of_nat_add of_nat_numeral)
    qed
    finally show ?thesis .
  qed
qed simp

lemma top_word_bits:
  assumes "bn_ok a" "bn_top a \<noteq> 0"
  shows "bits_of (bn_nat a) ((bn_top a - 1) * 64 + unat (BN_num_bits_word (bn_d a ! (bn_top a - 1))))"
proof -
  define n w where "n = bn_top a - 1" and "w = bn_d a ! n"
  have w: "w \<noteq> 0" using assms by (simp add: w_def n_def bn_ok_def)
  note b = BN_num_bits_word_bounds [OF w]
  have "bn_words a = take n (bn_d a) @ [w]" "length (take n (bn_d a)) = n"
    using assms by (auto simp: bn_words_def n_def w_def bn_ok_def bn_sized_def simp flip: take_Suc_conv_app_nth)
  then have v: "bn_nat a = wval (take n (bn_d a)) + 2 ^ (64 * n) * unat w" "wval (take n (bn_d a)) < 2 ^ (64 * n)"
    using wval_less [of "take n (bn_d a)"] by (simp_all add: bn_nat_def wval_snoc)
  define k where "k = unat (BN_num_bits_word w)"
  have "2 ^ (64 * n) * (unat w + 1) \<le> 2 ^ (64 * n) * 2 ^ k" using b(4) by (intro mult_le_mono2) (simp add: k_def)
  then have "bn_nat a < 2 ^ (64 * n) * 2 ^ k" using v by simp
  moreover have "2 ^ (64 * n) * 2 ^ (k - 1) \<le> 2 ^ (64 * n) * unat w" using b(3) by (simp add: k_def)
  then have "2 ^ (64 * n) * 2 ^ (k - 1) \<le> bn_nat a" unfolding v(1) by (rule trans_le_add2)
  moreover have "64 * n + k - 1 = 64 * n + (k - 1)" using b(1) by (simp add: k_def)
  ultimately show ?thesis
    unfolding bits_of_def n_def [symmetric] w_def [symmetric] k_def [symmetric] mult.commute [of n 64] by (simp add: power_add)
qed

lemma BN_num_bits_value:
  assumes "bn_ok a" "int (bn_dmax a) \<le> INT_MAX div (4 * 64)"
  shows "bits_of (bn_nat a) (BN_num_bits a)"
proof (cases "bn_top a = 0")
  case True
  then have "bn_num_bits_consttime a = 0" by (simp add: bn_num_bits_consttime_def eq_mask Let_def)
  then show ?thesis using True by (simp add: BN_num_bits_def BN_is_zero_def bits_of_def)
next
  case False
  define n w where "n = bn_top a - 1" and "w = BN_num_bits_word (bn_d a ! n)"
  have n: "bn_top a = Suc n" using False by (simp add: n_def)
  have le: "n < bn_dmax a" using assms(1) by (simp add: bn_ok_def bn_sized_def n)
  have max: "bn_dmax a < 2 ^ 23" using assms(2) by simp
  have w: "unat w \<le> 64" using assms(1) unfolding w_def by (intro BN_num_bits_word_bounds(2)) (simp add: bn_ok_def n)
  have i: "of_nat (bn_top a) - 1 = (of_nat n :: u32)" by (simp add: n)
  have "num_bits_loop (bn_d a) (of_nat n) 0 (bn_dmax a) 0 0 = of_nat (64 * n) + w"
    using num_bits_loop_value [of n 0 "bn_dmax a" "bn_d a" 0] le max by (simp add: w_def)
  moreover have "of_nat n \<noteq> (- 1 :: u32)"
  proof -
    have "of_nat (Suc n) \<noteq> (0 :: u32)"
      unfolding word_of_nat_eq_0_iff by (rule nat_dvd_not_less) (use le max in simp_all)
    then show ?thesis by (metis add.right_inverse of_nat_Suc)
  qed
  ultimately have "bn_num_bits_consttime a = of_nat (64 * n) + w"
    unfolding bn_num_bits_consttime_def i eq_mask Let_def by (simp only: if_False) simp
  moreover have "unat (of_nat (64 * n) + w) = 64 * n + unat w"
  proof -
    define t where "t = 64 * n"
    then have t: "t < 2 ^ 31" using le max by simp
    then have "unat (of_nat t :: u32) = t" by (simp add: unat_of_nat)
    then show ?thesis
      using t w unfolding t_def [symmetric] by (subst unat_add_lem [THEN iffD1]) simp_all
  qed
  ultimately show ?thesis
    using top_word_bits [OF assms(1) False] by (simp add: BN_num_bits_def BN_is_zero_def n w_def mult.commute)
qed

section \<open>Single bits\<close>

lemma bn_correct_top_neg:
  assumes "bn_sized b"
  shows "bn_neg (bn_correct_top b) \<longleftrightarrow> bn_neg b \<and> bn_nat b \<noteq> 0"
proof -
  have "bn_neg (bn_correct_top b) \<longleftrightarrow> bn_neg b \<and> bn_top (bn_correct_top b) \<noteq> 0" by (auto simp: bn_correct_top_def Let_def)
  then show ?thesis using bn_correct_top_value [OF assms] bn_nat_zero [of "bn_correct_top b"] by simp
qed

lemma div_mod_64_eq: "m = n \<longleftrightarrow> m div 64 = n div 64 \<and> m mod 64 = (n mod 64 :: nat)"
  by (metis div_mult_mod_eq)

lemma less_div_mod_64: "m < n \<longleftrightarrow> m div 64 < n div 64 \<or> m div 64 = n div 64 \<and> m mod 64 < (n mod 64 :: nat)"
proof -
  have "m = 64 * (m div 64) + m mod 64" "n = 64 * (n div 64) + n mod 64" by simp_all
  moreover have "m mod 64 < 64" "n mod 64 < 64" by simp_all
  ultimately show ?thesis by linarith
qed

lemma updated_word:
  assumes "bn_sized a" "i < bn_top a"
  shows "bn_sized (a\<lparr>bn_d := (bn_d a)[i := w]\<rparr>)"
    "bit (bn_nat (a\<lparr>bn_d := (bn_d a)[i := w]\<rparr>)) m \<longleftrightarrow> (if m div 64 = i then bit w (m mod 64) else bit (bn_nat a) m)"
proof -
  show sized: "bn_sized (a\<lparr>bn_d := (bn_d a)[i := w]\<rparr>)" using assms(1) by (simp add: bn_sized_def)
  show "bit (bn_nat (a\<lparr>bn_d := (bn_d a)[i := w]\<rparr>)) m \<longleftrightarrow> (if m div 64 = i then bit w (m mod 64) else bit (bn_nat a) m)"
    using assms unfolding bit_bn_nat [OF sized] bit_bn_nat [OF assms(1)] by (auto simp: bn_sized_def nth_list_update)
qed

lemma BN_set_bit_value:
  assumes "bn_ok a"
  shows "case BN_set_bit mem a (int n) of (ret, a') \<Rightarrow>
    if ret then bn_ok a' \<and> bn_nat a' = set_bit n (bn_nat a) \<and> bn_neg a' = bn_neg a
    else bn_words a' = bn_words a \<and> bn_top a \<le> n div 64 \<and> bn_wexpand mem a (n div 64 + 1) = None"
proof -
  define i j where "i = n div 64" and "j = n mod 64"
  have sized: "bn_sized a" using assms by (simp add: bn_ok_def)
  have main: "bn_ok (b\<lparr>bn_d := (bn_d b)[i := bn_d b ! i OR push_bit j 1]\<rparr>) \<and>
      bn_nat (b\<lparr>bn_d := (bn_d b)[i := bn_d b ! i OR push_bit j 1]\<rparr>) = set_bit n (bn_nat a)" (is "bn_ok ?b \<and> _")
    if b: "bn_sized b" "i < bn_top b" "bn_nat b = bn_nat a" "i \<noteq> bn_top b - 1 \<Longrightarrow> bn_d b ! (bn_top b - 1) \<noteq> 0" for b
  proof -
    have j: "j < 64" by (simp add: j_def)
    then have "bit (bn_d b ! i OR push_bit j 1) j" by (simp add: bit_or_iff bit_exp_iff)
    then have nz: "bn_d b ! i OR push_bit j 1 \<noteq> 0" by (metis bit_0_eq bot_apply bot_bool_def)
    have "bn_d ?b ! (bn_top ?b - 1) \<noteq> 0"
      using b(1,2,4) nz by (cases "i = bn_top b - 1") (auto simp: bn_sized_def)
    then have "bn_ok ?b" using updated_word(1) [OF b(1,2)] b(2) by (simp add: bn_ok_def)
    moreover have "bn_nat ?b = set_bit n (bn_nat a)"
    proof (rule bit_eqI)
      fix m
      have "bit (bn_d b ! i) (m mod 64) = bit (bn_nat a) m" if "m div 64 = i"
        using that bit_bn_nat [OF b(1), of m] b(2,3) by simp
      then show "bit (bn_nat ?b) m = bit (set_bit n (bn_nat a)) m"
        unfolding updated_word(2) [OF b(1,2)] b(3) using j div_mod_64_eq [of m n]
        by (auto simp: bit_or_iff bit_exp_iff bit_set_bit_iff i_def j_def)
    qed
    ultimately show ?thesis by simp
  qed
  show ?thesis
  proof (cases "bn_top a \<le> i")
    case False
    then have "BN_set_bit mem a (int n) = (True, a\<lparr>bn_d := (bn_d a)[i := bn_d a ! i OR push_bit j 1]\<rparr>)"
      by (simp add: BN_set_bit_def i_def j_def Let_def)
    then show ?thesis using main [of a] sized False assms by (simp add: bn_ok_def)
  next
    case True
    show ?thesis
    proof (cases "bn_wexpand mem a (i + 1)")
      case None
      then have "BN_set_bit mem a (int n) = (False, a)" using True by (simp add: BN_set_bit_def i_def j_def Let_def)
      then show ?thesis using None True by (simp add: i_def)
    next
      case (Some a1)
      have a1: "bn_sized a1" "i + 1 \<le> bn_dmax a1" "bn_words a1 = bn_words a" "bn_top a1 = bn_top a" "bn_neg a1 = bn_neg a"
        using bn_wexpand_Some [OF Some sized] by simp_all
      define b where "b = a1\<lparr>bn_d := take (bn_top a1) (bn_d a1) @ replicate (i + 1 - bn_top a1) 0 @ drop (i + 1) (bn_d a1),
          bn_top := i + 1, bn_flags := bn_flags a1 AND NOT BN_FLG_FIXED_TOP\<rparr>"
      have len: "length (bn_words a) = bn_top a" by (rule length_bn_words [OF sized])
      have d: "bn_d b = bn_words a @ replicate (i + 1 - bn_top a) 0 @ drop (i + 1) (bn_d a1)"
        using a1(3,4) by (simp add: b_def bn_words_def)
      have "bn_sized b" using a1(1,2,4) True by (auto simp: b_def bn_sized_def)
      moreover have "bn_words b = bn_words a @ replicate (i + 1 - bn_top a) 0"
        unfolding bn_words_def [of b] d using len True by (simp add: b_def)
      then have "bn_nat b = bn_nat a" by (simp add: bn_nat_def wval_append)
      moreover have "bn_top b = i + 1" "bn_neg b = bn_neg a" using a1(5) by (simp_all add: b_def)
      ultimately have "bn_ok (b\<lparr>bn_d := (bn_d b)[i := bn_d b ! i OR push_bit j 1]\<rparr>) \<and>
        bn_nat (b\<lparr>bn_d := (bn_d b)[i := bn_d b ! i OR push_bit j 1]\<rparr>) = set_bit n (bn_nat a)" "bn_neg b = bn_neg a"
        using main [of b] by simp_all
      moreover have "BN_set_bit mem a (int n) = (True, b\<lparr>bn_d := (bn_d b)[i := bn_d b ! i OR push_bit j 1]\<rparr>)"
        using Some True by (simp add: BN_set_bit_def i_def [symmetric] j_def [symmetric] b_def Let_def)
      ultimately show ?thesis by simp
    qed
  qed
qed

lemma BN_clear_bit_value:
  assumes "bn_ok a"
  shows "case BN_clear_bit a (int n) of (ret, a') \<Rightarrow>
    bn_ok a' \<and> bn_nat a' = unset_bit n (bn_nat a) \<and> (bn_neg a' \<longleftrightarrow> bn_neg a \<and> bn_nat a' \<noteq> 0) \<and> ret = (n div 64 < bn_top a)"
proof -
  define i j where "i = n div 64" and "j = n mod 64"
  have sized: "bn_sized a" using assms by (simp add: bn_ok_def)
  show ?thesis
  proof (cases "bn_top a \<le> i")
    case True
    then have "\<not> bit (bn_nat a) n" by (simp add: bit_bn_nat [OF sized] i_def)
    then have "unset_bit n (bn_nat a) = bn_nat a" by (auto intro!: bit_eqI simp: bit_unset_bit_iff)
    then show ?thesis using True assms bn_ok_sign [OF assms] by (auto simp: BN_clear_bit_def i_def)
  next
    case False
    define b where "b = a\<lparr>bn_d := (bn_d a)[i := bn_d a ! i AND NOT (push_bit j 1)]\<rparr>"
    have i: "i < bn_top a" using False by simp
    have b: "bn_sized b" "bn_neg b = bn_neg a" using updated_word(1) [OF sized i] by (simp_all add: b_def)
    have "bn_nat b = unset_bit n (bn_nat a)"
    proof (rule bit_eqI)
      fix m
      have "bit (bn_d a ! i) (m mod 64) = bit (bn_nat a) m" if "m div 64 = i"
        using that bit_bn_nat [OF sized, of m] i by simp
      then show "bit (bn_nat b) m = bit (unset_bit n (bn_nat a)) m"
        unfolding b_def updated_word(2) [OF sized i] using div_mod_64_eq [of m n]
        by (auto simp: bit_and_iff bit_not_iff bit_exp_iff bit_unset_bit_iff i_def j_def)
    qed
    moreover have "BN_clear_bit a (int n) = (True, bn_correct_top b)"
      using False by (simp add: BN_clear_bit_def i_def j_def b_def Let_def)
    moreover have "bn_neg (bn_correct_top b) \<longleftrightarrow> bn_neg b \<and> bn_nat b \<noteq> 0"
      using bn_correct_top_neg [OF b(1)] .
    ultimately show ?thesis using bn_correct_top_value [OF b(1)] b(2) False by (simp add: i_def)
  qed
qed

lemma BN_mask_bits_value:
  assumes "bn_ok a"
  shows "case BN_mask_bits a (int n) of (ret, a') \<Rightarrow>
    bn_ok a' \<and> bn_nat a' = take_bit n (bn_nat a) \<and> (bn_neg a' \<longleftrightarrow> bn_neg a \<and> bn_nat a' \<noteq> 0) \<and> ret = (n div 64 < bn_top a)"
proof -
  define w b where "w = n div 64" and "b = n mod 64"
  have sized: "bn_sized a" using assms by (simp add: bn_ok_def)
  show ?thesis
  proof (cases "w < bn_top a")
    case False
    have "bn_nat a < 2 ^ (64 * bn_top a)"
      using wval_less [of "bn_words a"] length_bn_words [OF sized] by (simp add: bn_nat_def)
    also have "\<dots> \<le> 2 ^ n" using False by (intro power_increasing) (simp_all add: w_def)
    finally have "take_bit n (bn_nat a) = bn_nat a" by (simp add: take_bit_nat_eq_self)
    then show ?thesis using False assms bn_ok_sign [OF assms] by (auto simp: BN_mask_bits_def w_def)
  next
    case True
    define c where "c = (if b = 0 then a\<lparr>bn_top := w\<rparr>
      else a\<lparr>bn_top := w + 1, bn_d := (bn_d a)[w := bn_d a ! w AND NOT (push_bit b BN_MASK2)]\<rparr>)"
    have c: "bn_sized c" "bn_neg c = bn_neg a" using sized True by (auto simp: c_def bn_sized_def)
    have "bn_nat c = take_bit n (bn_nat a)"
    proof (rule bit_eqI)
      fix m
      have ones: "bit (push_bit b BN_MASK2) k \<longleftrightarrow> b \<le> k \<and> k < 64" for k
      proof -
        have "BN_MASK2 = - 1" by simp
        then show ?thesis by (simp only: bit_push_bit_iff) auto
      qed
      have "bit (bn_nat c) m \<longleftrightarrow> m div 64 < bn_top a \<and> bit (bn_d a ! (m div 64)) (m mod 64) \<and>
          (m div 64 < w \<or> m div 64 = w \<and> m mod 64 < b)"
        using True sized unfolding bit_bn_nat [OF c(1)]
        by (auto simp: c_def bn_sized_def nth_list_update bit_and_iff bit_not_iff ones)
      also have "(m div 64 < w \<or> m div 64 = w \<and> m mod 64 < b) \<longleftrightarrow> m < n"
        unfolding w_def b_def by (rule less_div_mod_64 [symmetric])
      finally show "bit (bn_nat c) m = bit (take_bit n (bn_nat a)) m"
        by (auto simp: bit_take_bit_iff bit_bn_nat [OF sized])
    qed
    moreover have "BN_mask_bits a (int n) = (True, bn_correct_top c)"
      using True by (simp add: BN_mask_bits_def w_def b_def c_def Let_def)
    ultimately show ?thesis
      using bn_correct_top_value [OF c(1)] bn_correct_top_neg [OF c(1)] c(2) True by (simp add: w_def)
  qed
qed

lemma BN_set_bit_ret:
  "fst (BN_set_bit mem a (int n)) \<longleftrightarrow> n div 64 < bn_top a \<or> bn_wexpand mem a (n div 64 + 1) \<noteq> None"
  by (auto simp: BN_set_bit_def Let_def split: option.splits)

lemma failed_bits:
  "\<not> fst (BN_clear_bit a (int n)) \<Longrightarrow> snd (BN_clear_bit a (int n)) = a"
  "\<not> fst (BN_mask_bits a (int n)) \<Longrightarrow> snd (BN_mask_bits a (int n)) = a"
  by (auto simp: BN_clear_bit_def BN_mask_bits_def Let_def)

lemma BN_is_bit_set_value:
  assumes "bn_ok a"
  shows "BN_is_bit_set a (int n) \<longleftrightarrow> bit (bn_nat a) n"
proof -
  have sized: "bn_sized a" using assms by (simp add: bn_ok_def)
  have "has_flag (drop_bit j w) 1 \<longleftrightarrow> bit w j" for j and w :: u64
    using has_flag_push [of 0 "drop_bit j w"] by (simp add: bit_drop_bit_eq)
  then show ?thesis by (simp add: BN_is_bit_set_def bit_bn_nat [OF sized] Let_def)
qed

section \<open>Bytes of words\<close>

lemma nat_be_bytes: "nat_be t v = rev (map (\<lambda>j. of_nat (v div 256 ^ j mod 256)) [0..<t])"
proof (induction t arbitrary: v)
  case (Suc t)
  have "v div 256 div 256 ^ j = v div 256 ^ Suc j" for j by (simp add: div_mult2_eq)
  then have "nat_be (Suc t) v = rev (map (\<lambda>j. of_nat (v div 256 ^ Suc j mod 256)) [0..<t]) @ [of_nat (v mod 256)]"
    by (simp add: Suc)
  also have "\<dots> = rev (map (\<lambda>j. of_nat (v div 256 ^ j mod 256)) (0 # map Suc [0..<t]))" by (simp add: comp_def)
  also have "0 # map Suc [0..<t] = [0..<Suc t]" by (simp only: map_Suc_upt upt_conv_Cons [OF zero_less_Suc])
  finally show ?case .
qed simp

lemma byte_of_word: "j < 8 \<Longrightarrow> (ucast (drop_bit (8 * j) (w :: u64)) :: u8) = of_nat ((unat w + 2 ^ 64 * x) div 256 ^ j mod 256)"
proof -
  assume j: "j < 8"
  have 256: "(256 :: nat) ^ j = 2 ^ (8 * j)" by (simp add: power_mult)
  have "(unat w + 2 ^ 64 * x) div 2 ^ (8 * j) mod 256 = unat w div 2 ^ (8 * j) mod 256"
  proof -
    define k where "k = 56 - 8 * j"
    have k: "8 * j + 8 + k = 64" using j by (simp add: k_def)
    have "(2 :: nat) ^ 64 * x = 2 ^ (8 * j) * (256 * (2 ^ k * x))" unfolding k [symmetric] by (simp add: power_add)
    moreover have "(u + 2 ^ (8 * j) * (256 * y)) div 2 ^ (8 * j) mod 256 = u div 2 ^ (8 * j) mod 256" for u y :: nat by simp
    ultimately show ?thesis by (simp only:)
  qed
  then show ?thesis
    unfolding 256 by (simp add: word_unat_eq_iff unat_of_nat unat_drop_bit unsigned_ucast_eq take_bit_eq_mod)
qed

lemma byte_of_words:
  "(of_nat (wval ws div 256 ^ j mod 256) :: u8) = (if j < 8 * length ws then ucast (drop_bit (8 * (j mod 8)) (ws ! (j div 8))) else 0)"
proof (cases "j < 8 * length ws")
  case True
  then have "j div 8 < length ws" by (simp add: div_less_iff_less_mult mult.commute)
  then have d: "drop (j div 8) ws = ws ! (j div 8) # drop (Suc (j div 8)) ws" by (simp add: Cons_nth_drop_Suc)
  have "(256 :: nat) ^ j = 2 ^ (64 * (j div 8)) * 256 ^ (j mod 8)"
  proof -
    have "(256 :: nat) ^ j = 256 ^ (8 * (j div 8) + j mod 8)" by simp
    also have "\<dots> = (2 ^ 8) ^ (8 * (j div 8)) * 256 ^ (j mod 8)" by (simp only: power_add) simp
    finally show ?thesis by (simp only: power_mult [symmetric] mult.assoc [symmetric]) simp
  qed
  then have "wval ws div 256 ^ j = wval (drop (j div 8) ws) div 256 ^ (j mod 8)" by (simp add: wval_drop div_mult2_eq)
  then show ?thesis using True byte_of_word [of "j mod 8" "ws ! (j div 8)" "wval (drop (Suc (j div 8)) ws)"] unfolding d by simp
next
  case False
  have "wval ws < 2 ^ (64 * length ws)" by (rule wval_less)
  also have "\<dots> = 256 ^ (8 * length ws)" by (simp add: power_mult)
  also have "\<dots> \<le> 256 ^ j" using False by (intro power_increasing) simp_all
  finally show ?thesis using False by simp
qed

section \<open>Writing bytes\<close>

lemma borrow_bit:
  assumes "x < 2 ^ 63" "y < 2 ^ 63"
  shows "drop_bit 63 (of_nat x - of_nat y :: u64) = of_bool (x < y)"
proof -
  have u: "unat (of_nat x :: u64) = x" "unat (of_nat y :: u64) = y" using assms by (simp_all add: unat_of_nat)
  have "unat (drop_bit 63 (of_nat x - of_nat y :: u64)) = of_bool (x < y)"
  proof (cases "x < y")
    case True
    then have "unat (of_nat x - of_nat y :: u64) = 2 ^ 64 + x - y" using u by (simp add: unat_diff_wrap)
    moreover have "(2 ^ 64 + x - y) div 2 ^ 63 = 1" using assms True by (intro div_nat_eqI) simp_all
    ultimately show ?thesis using True unfolding unat_drop_bit by simp
  next
    case False
    then have "unat (of_nat x - of_nat y :: u64) = x - y" using u by (simp add: unat_diff_wrap)
    then show ?thesis using assms False unfolding unat_drop_bit by simp
  qed
  then show ?thesis by (cases "x < y") (simp_all add: word_unat_eq_iff)
qed

lemma bn2bin_loop_value:
  assumes "L < 2 ^ 62" "8 * tp \<le> L + 1"
  shows "j + n < 2 ^ 62 \<Longrightarrow>
    bn2bin_loop d (of_nat L) (of_nat (8 * tp)) n (of_nat (min j L)) (of_nat j) =
      map (\<lambda>j. if j < 8 * tp then ucast (drop_bit (8 * (j mod 8)) (d ! (j div 8))) else 0) [j..<j + n]"
proof (induction n arbitrary: j)
  case (Suc n)
  define i where "i = min j L"
  have i: "i < 2 ^ 62" "j < 8 * tp \<Longrightarrow> i = j" using assms by (auto simp: i_def)
  then have ui: "unat (of_nat i :: u64) = i" by (simp add: unat_of_nat)
  have at: "unat ((of_nat i :: u64) div of_nat BN_BYTES) = i div 8" "unat ((of_nat i :: u64) mod of_nat BN_BYTES) = i mod 8"
    by (simp_all add: unat_div unat_mod ui)
  have "drop_bit 63 (of_nat j - of_nat (8 * tp) :: u64) = of_bool (j < 8 * tp)"
    using Suc.prems assms by (intro borrow_bit) simp_all
  then have val: "ucast (drop_bit (8 * (i mod 8)) (d ! (i div 8)) AND (0 - drop_bit 63 (of_nat j - of_nat (8 * tp)))) =
      (if j < 8 * tp then ucast (drop_bit (8 * (j mod 8)) (d ! (j div 8))) else 0 :: u8)"
    using i(2) by simp
  have "drop_bit 63 (of_nat i - of_nat L :: u64) = of_bool (i < L)"
    using i(1) assms by (intro borrow_bit) simp_all
  then have next': "of_nat i + drop_bit 63 (of_nat i - of_nat L :: u64) = of_nat (min (Suc j) L)"
    using assms by (cases "j < L") (simp_all add: i_def min_def)
  have "bn2bin_loop d (of_nat L) (of_nat (8 * tp)) (Suc n) (of_nat i) (of_nat j) =
      (if j < 8 * tp then ucast (drop_bit (8 * (j mod 8)) (d ! (j div 8))) else 0) #
      bn2bin_loop d (of_nat L) (of_nat (8 * tp)) n (of_nat (min (Suc j) L)) (of_nat (Suc j))"
    unfolding bn2bin_loop.simps Let_def at val next' by (simp add: add.commute)
  moreover have "[j..<j + Suc n] = j # [Suc j..<Suc j + n]" by (simp add: upt_conv_Cons)
  ultimately show ?case using Suc.IH [of "Suc j"] Suc.prems by (simp add: i_def)
qed simp

lemma bn_correct_top_same: "bn_ok a \<Longrightarrow> bn_correct_top a = a"
  by (cases "bn_top a") (auto simp: bn_correct_top_def bn_ok_def Let_def)

lemma BN_num_bytes_bound:
  assumes "bn_ok a" "int (bn_dmax a) \<le> INT_MAX div (4 * 64)"
  shows "bn_nat a < 256 ^ BN_num_bytes a"
proof -
  have "bn_nat a < 2 ^ BN_num_bits a" using BN_num_bits_value [OF assms] by (simp add: bits_of_def)
  also have "\<dots> \<le> 2 ^ (8 * BN_num_bytes a)" unfolding BN_num_bytes_def by (intro power_increasing) (presburger, simp)
  finally show ?thesis by (simp add: power_mult)
qed

lemma bn2binpad_value:
  assumes a: "bn_ok a" "int (bn_dmax a) \<le> INT_MAX div (4 * 64)"
    and t: "int t \<le> INT_MAX" "tolen = int t \<or> tolen = - 1 \<and> t = BN_num_bytes a" "BN_num_bytes a \<le> t"
  shows "bn2binpad a tolen e = (int t, case e of big \<Rightarrow> nat_be t (bn_nat a) | little \<Rightarrow> rev (nat_be t (bn_nat a)))"
proof (cases "bn_dmax a = 0")
  case True
  then have "bn_nat a = 0" using a(1) by (simp add: bn_ok_def bn_sized_def)
  moreover have "nat_be t 0 = replicate t 0"
    unfolding nat_be_bytes by (simp add: map_replicate_const)
  moreover have "(if tolen = - 1 then int (BN_num_bytes a) else tolen) = int t" "\<not> tolen < int (BN_num_bytes a) \<or> tolen = - 1"
    using t(2,3) by auto
  ultimately show ?thesis using True by (cases e) (auto simp: bn2binpad_def Let_def)
next
  case False
  define D where "D = bn_dmax a"
  have D: "0 < D" "8 * D < 2 ^ 62" "bn_top a \<le> D" "length (bn_d a) = D"
    using False a by (simp_all add: D_def bn_ok_def bn_sized_def)
  have atop: "of_nat D * of_nat BN_BYTES = (of_nat (8 * D) :: u64)" "of_nat (bn_top a) * of_nat BN_BYTES = (of_nat (8 * bn_top a) :: u64)"
    by (simp_all add: mult.commute)
  have nz: "of_nat (8 * D) \<noteq> (0 :: u64)"
    unfolding word_of_nat_eq_0_iff by (rule nat_dvd_not_less) (use D in simp_all)
  have last: "of_nat (8 * D) - 1 = (of_nat (8 * D - 1) :: u64)" using D(1) by (simp add: of_nat_diff)
  have words: "bn_words a ! (j div 8) = bn_d a ! (j div 8)" if "j < 8 * bn_top a" for j
    using that by (simp add: bn_words_def div_less_iff_less_mult mult.commute)
  have len: "length (bn_words a) = bn_top a" using a(1) by (intro length_bn_words) (simp add: bn_ok_def)
  have "bn2bin_loop (bn_d a) (of_nat (8 * D - 1)) (of_nat (8 * bn_top a)) t 0 0 =
      map (\<lambda>j. if j < 8 * bn_top a then ucast (drop_bit (8 * (j mod 8)) (bn_d a ! (j div 8))) else 0) [0..<t]"
    using bn2bin_loop_value [of "8 * D - 1" "bn_top a" 0 t "bn_d a"] D t(1) by simp
  also have "\<dots> = map (\<lambda>j. of_nat (bn_nat a div 256 ^ j mod 256)) [0..<t]"
    unfolding bn_nat_def byte_of_words len by (rule map_cong) (simp_all add: words)
  also have "\<dots> = rev (nat_be t (bn_nat a))" unfolding nat_be_bytes by simp
  finally have out: "bn2bin_loop (bn_d a) (of_nat (8 * D - 1)) (of_nat (8 * bn_top a)) t 0 0 = rev (nat_be t (bn_nat a))" .
  have tolen: "(if tolen = - 1 then int (BN_num_bytes a) else tolen) = int t"
    and fits: "(tolen \<noteq> - 1 \<and> tolen < int (BN_num_bytes a) \<and> tolen < int (BN_num_bytes (bn_correct_top a))) = False"
    using t(2,3) by auto
  show ?thesis
    unfolding bn2binpad_def Let_def D_def [symmetric] atop last tolen nat_int out fits if_False if_not_P [OF nz]
    by (cases e) (simp_all only: endianess_t.case rev_rev_ident)
qed

section \<open>Reading bytes\<close>

lemma be_nat_skip: "be_nat (dropWhile (\<lambda>b. b = 0) s) = be_nat s"
  by (induction s) auto

lemma bin2bn_loop_value:
  assumes "length s = (if i = 0 then 0 else 8 * (i - 1) + m + 1)" "m < 8" "i \<le> length d" "unat l < 256 ^ (7 - m)" "i = 0 \<Longrightarrow> l = 0"
  shows "\<exists>ws. bin2bn_loop s i m l d = ws @ drop i d \<and> length ws = i \<and> wval ws = unat l * 256 ^ length s + be_nat s"
  using assms
proof (induction s arbitrary: i m l d)
  case Nil
  then show ?case by (cases i) simp_all
next
  case (Cons b s)
  define l' where "l' = push_bit 8 l OR ucast b"
  obtain k where k: "i = Suc k" using Cons.prems(1) by (cases i) simp_all
  have len: "length s = 8 * k + m" using Cons.prems(1) by (simp add: k)
  have "(256 :: nat) * 256 ^ (7 - m) = 256 ^ (8 - m)" using Cons.prems(2) by (simp add: Suc_diff_le flip: power_Suc)
  then have room: "unat l * 256 < 256 ^ (8 - m)" using Cons.prems(4) by (simp add: mult.commute)
  also have "(256 :: nat) ^ (8 - m) \<le> 256 ^ 8" by (rule power_increasing) simp_all
  finally have l': "unat l' = unat l * 256 + unat b"
    unfolding l'_def using unat_lt_256 [of b] by (subst unat_or_push) (simp_all add: unat_ucast_u8_u64)
  have val: "unat l' * 256 ^ length s + be_nat s = unat l * 256 ^ length (b # s) + be_nat (b # s)"
    by (simp add: l' algebra_simps)
  show ?case
  proof (cases "m = 0")
    case True
    have "\<exists>ws. bin2bn_loop s k 7 0 (d[k := l']) = ws @ drop k (d[k := l']) \<and> length ws = k \<and>
        wval ws = unat (0 :: u64) * 256 ^ length s + be_nat s"
      using Cons.prems(3) len True k by (intro Cons.IH) auto
    then obtain ws where ws: "bin2bn_loop s k 7 0 (d[k := l']) = ws @ drop k (d[k := l'])" "length ws = k" "wval ws = be_nat s"
      by auto
    have "bin2bn_loop (b # s) i m l d = (ws @ [l']) @ drop i d"
      using ws(1) True Cons.prems(3) k drop_update_head [of k d l'] by (simp add: l'_def Let_def)
    moreover have "(2 :: nat) ^ (64 * k) = 256 ^ length s" using len True by (simp add: power_mult)
    then have "wval (ws @ [l']) = unat l' * 256 ^ length s + be_nat s" using ws by (simp add: wval_snoc)
    ultimately show ?thesis using val ws(2) k by (intro exI [of _ "ws @ [l']"]) simp
  next
    case False
    then have "8 - m = 7 - (m - 1)" using Cons.prems(2) by simp
    moreover have "unat l' < 256 ^ (8 - m)"
    proof -
      have "unat l + 1 \<le> 256 ^ (7 - m)" using Cons.prems(4) by simp
      then have "(unat l + 1) * 256 \<le> 256 ^ (7 - m) * 256" by (rule mult_right_mono) simp
      then show ?thesis
        using unat_lt_256 [of b] \<open>256 * 256 ^ (7 - m) = 256 ^ (8 - m)\<close> unfolding l' by (simp add: mult.commute)
    qed
    ultimately have "\<exists>ws. bin2bn_loop s i (m - 1) l' d = ws @ drop i d \<and> length ws = i \<and>
        wval ws = unat l' * 256 ^ length s + be_nat s"
      using Cons.prems(2,3) len False k by (intro Cons.IH) auto
    then show ?thesis unfolding val [symmetric] using False by (simp add: l'_def Let_def)
  qed
qed

lemma bin2bn_skipped_value:
  assumes "bn_sized r" "\<not> bn_neg r"
  shows "case bin2bn_skipped mem s r of
      None \<Rightarrow> bn_wexpand mem r ((length s - 1) div 8 + 1) = None
    | Some r' \<Rightarrow> bn_ok r' \<and> bn_int r' = int (be_nat s)"
proof (cases "length s = 0")
  case True
  then show ?thesis using assms by (simp add: bin2bn_skipped_def bn_ok_def bn_sized_def bn_int_def)
next
  case False
  define i m where "i = (length s - 1) div 8 + 1" and "m = (length s - 1) mod 8"
  show ?thesis
  proof (cases "bn_wexpand mem r i")
    case None
    then show ?thesis using False by (simp add: bin2bn_skipped_def i_def Let_def)
  next
    case (Some r1)
    have e: "bn_sized r1" "i \<le> bn_dmax r1" using bn_wexpand_Some [OF Some assms(1)] by simp_all
    have "length s = (if i = 0 then 0 else 8 * (i - 1) + m + 1)"
      using False div_mult_mod_eq [of "length s - 1" 8] by (simp add: i_def m_def)
    from bin2bn_loop_value [OF this, of "bn_d r1" 0] obtain ws where
      ws: "bin2bn_loop s i m 0 (bn_d r1) = ws @ drop i (bn_d r1)" "length ws = i" "wval ws = be_nat s"
      using e by (auto simp: m_def bn_sized_def)
    define r' where "r' = r1\<lparr>bn_top := i, bn_neg := False, bn_d := bin2bn_loop s i m 0 (bn_d r1)\<rparr>"
    have "bn_sized r'" using e ws by (simp add: r'_def bn_sized_def)
    moreover have "bn_int r' = int (be_nat s)" using ws by (simp add: r'_def bn_int_def bn_nat_def bn_words_def)
    moreover have "bin2bn_skipped mem s r = Some (bn_correct_top r')"
      using False Some by (simp add: bin2bn_skipped_def r'_def i_def m_def Let_def)
    ultimately show ?thesis using bn_correct_top_value [of r'] by simp
  qed
qed

section \<open>Properties\<close>

text \<open>
  C35. The length that \<^verbatim>\<open>BN_num_bits\<close> computes, with and without branches, is the number of bits of the magnitude;
  \<^verbatim>\<open>BN_is_bit_set\<close> reads a bit of it, \<^verbatim>\<open>BN_set_bit\<close> and \<^verbatim>\<open>BN_clear_bit\<close> change that bit only, and \<^verbatim>\<open>BN_mask_bits\<close> keeps the
  low bits; the sign stays, except that a result of zero has none. Numbers stay well formed. \<^verbatim>\<open>BN_set_bit\<close> fails exactly
  when the array must grow and cannot; \<^verbatim>\<open>BN_clear_bit\<close> and \<^verbatim>\<open>BN_mask_bits\<close> report failure, and leave the number alone,
  exactly when the bit lies in a word beyond the top word (the manual page says: when the number is shorter than \<open>n\<close> bits,
  which inside the top word is not reported). At a negative position all four fail and change nothing.
\<close>

theorem bn_bits_correct:
  assumes "bn_ok a" "int (bn_dmax a) \<le> INT_MAX div (4 * 64)"
  shows "bn_nat a < 2 ^ BN_num_bits a \<and> (BN_num_bits a \<noteq> 0 \<longrightarrow> 2 ^ (BN_num_bits a - 1) \<le> bn_nat a) \<and>
    BN_is_bit_set a (int n) = bit (bn_nat a) n \<and>
    (case BN_set_bit mem a (int n) of (ret, a') \<Rightarrow>
      ret = (n div 64 < bn_top a \<or> bn_wexpand mem a (n div 64 + 1) \<noteq> None) \<and>
      (if ret then bn_ok a' \<and> bn_nat a' = set_bit n (bn_nat a) \<and> bn_neg a' = bn_neg a
       else bn_words a' = bn_words a)) \<and>
    (case BN_clear_bit a (int n) of (ret, a') \<Rightarrow>
      ret = (n div 64 < bn_top a) \<and> bn_ok a' \<and> bn_nat a' = unset_bit n (bn_nat a) \<and>
      (bn_neg a' \<longleftrightarrow> bn_neg a \<and> bn_nat a' \<noteq> 0) \<and> (\<not> ret \<longrightarrow> a' = a)) \<and>
    (case BN_mask_bits a (int n) of (ret, a') \<Rightarrow>
      ret = (n div 64 < bn_top a) \<and> bn_ok a' \<and> bn_nat a' = take_bit n (bn_nat a) \<and>
      (bn_neg a' \<longleftrightarrow> bn_neg a \<and> bn_nat a' \<noteq> 0) \<and> (\<not> ret \<longrightarrow> a' = a)) \<and>
    (k < 0 \<longrightarrow> \<not> BN_is_bit_set a k \<and> BN_set_bit mem a k = (False, a) \<and> BN_clear_bit a k = (False, a) \<and>
      BN_mask_bits a k = (False, a))"
proof -
  have len: "bn_nat a < 2 ^ BN_num_bits a \<and> (BN_num_bits a \<noteq> 0 \<longrightarrow> 2 ^ (BN_num_bits a - 1) \<le> bn_nat a)"
    using BN_num_bits_value [OF assms] by (auto simp: bits_of_def)
  have set: "case BN_set_bit mem a (int n) of (ret, a') \<Rightarrow>
      ret = (n div 64 < bn_top a \<or> bn_wexpand mem a (n div 64 + 1) \<noteq> None) \<and>
      (if ret then bn_ok a' \<and> bn_nat a' = set_bit n (bn_nat a) \<and> bn_neg a' = bn_neg a
       else bn_words a' = bn_words a)"
    using BN_set_bit_value [OF assms(1), where mem = mem and n = n] BN_set_bit_ret [of mem a n]
    by (auto split: prod.splits if_splits)
  have clear: "case BN_clear_bit a (int n) of (ret, a') \<Rightarrow>
      ret = (n div 64 < bn_top a) \<and> bn_ok a' \<and> bn_nat a' = unset_bit n (bn_nat a) \<and>
      (bn_neg a' \<longleftrightarrow> bn_neg a \<and> bn_nat a' \<noteq> 0) \<and> (\<not> ret \<longrightarrow> a' = a)"
    using BN_clear_bit_value [OF assms(1), of n] failed_bits(1) [of a n] by (auto split: prod.splits)
  have mask: "case BN_mask_bits a (int n) of (ret, a') \<Rightarrow>
      ret = (n div 64 < bn_top a) \<and> bn_ok a' \<and> bn_nat a' = take_bit n (bn_nat a) \<and>
      (bn_neg a' \<longleftrightarrow> bn_neg a \<and> bn_nat a' \<noteq> 0) \<and> (\<not> ret \<longrightarrow> a' = a)"
    using BN_mask_bits_value [OF assms(1), of n] failed_bits(2) [of a n] by (auto split: prod.splits)
  have neg: "k < 0 \<longrightarrow> \<not> BN_is_bit_set a k \<and> BN_set_bit mem a k = (False, a) \<and> BN_clear_bit a k = (False, a) \<and>
      BN_mask_bits a k = (False, a)"
    by (simp add: BN_is_bit_set_def BN_set_bit_def BN_clear_bit_def BN_mask_bits_def)
  show ?thesis using len set clear mask neg BN_is_bit_set_value [OF assms(1)] by blast
qed

theorem bn_bits_correct_witness:
  "bn_nat (snd (BN_clear_bit (small_bn True [7, 5]) 66)) = 7 + 2 ^ 64 \<and>
   fst (BN_clear_bit (small_bn True [7, 5]) 100) \<and> \<not> fst (BN_clear_bit (small_bn True [7, 5]) 128)"
proof -
  let ?a = "small_bn True [7, 5]"
  have ok: "bn_ok ?a" "int (bn_dmax ?a) \<le> INT_MAX div (4 * 64)" by (simp_all add: small_bn_def bn_ok_def bn_sized_def)
  note b = bn_bits_correct [OF ok, where mem = "\<lambda>_. True" and k = 0]
  have "bn_nat (snd (BN_clear_bit ?a 66)) = unset_bit 66 (bn_nat ?a)"
    using b [where n = 66] by (auto split: prod.splits)
  moreover have "bn_nat ?a = 7 + 5 * 2 ^ 64" by (simp add: small_bn_def bn_nat_def bn_words_def)
  ultimately have "bn_nat (snd (BN_clear_bit ?a 66)) = 7 + 2 ^ 64" by (simp add: unset_bit_eq)
  moreover have "fst (BN_clear_bit ?a 100)" "\<not> fst (BN_clear_bit ?a 128)"
    using b [where n = 100] b [where n = 128] by (auto simp: small_bn_def split: prod.splits)
  ultimately show ?thesis by simp
qed

text \<open>
  C34. A number is written as the big-endian or little-endian byte string of its magnitude at any length that has room for it,
  refused at a shorter one, and reading the bytes into a number without sign gives the magnitude back, unless the
  array cannot be enlarged.
\<close>

theorem bn_bytes_roundtrip:
  assumes "bn_ok a" "int (bn_dmax a) \<le> INT_MAX div (4 * 64)" "int t \<le> INT_MAX" "bn_ok r" "\<not> bn_neg r"
  shows "if t < BN_num_bytes a then BN_bn2binpad a (int t) = (- 1, []) \<and> BN_bn2lebinpad a (int t) = (- 1, [])
    else \<exists>bs. BN_bn2binpad a (int t) = (int t, bs) \<and> BN_bn2lebinpad a (int t) = (int t, rev bs) \<and>
      length bs = t \<and> be_nat bs = bn_nat a \<and>
      (t = BN_num_bytes a \<longrightarrow> BN_bn2bin a = (int t, bs)) \<and>
      BN_lebin2bn mem True (rev bs) (Some r) = BN_bin2bn mem True bs (Some r) \<and>
      (case BN_bin2bn mem True bs (Some r) of
         None \<Rightarrow> \<exists>n\<le>t div 8 + 1. bn_wexpand mem r n = None
       | Some r' \<Rightarrow> bn_ok r' \<and> bn_int r' = \<bar>bn_int a\<bar>)"
proof (cases "t < BN_num_bytes a")
  case True
  then show ?thesis using bn_correct_top_same [OF assms(1)] by (simp add: BN_bn2binpad_def BN_bn2lebinpad_def bn2binpad_def)
next
  case False
  define bs where "bs = nat_be t (bn_nat a)"
  have le: "BN_num_bytes a \<le> t" using False by simp
  note w = bn2binpad_value [OF assms(1-3) _ le, folded bs_def]
  have "bn_nat a < 256 ^ t"
    by (rule less_le_trans [OF BN_num_bytes_bound [OF assms(1,2)] power_increasing [OF le]]) simp
  then have bs: "length bs = t" "be_nat bs = bn_nat a" by (simp_all add: bs_def be_nat_nat_be)
  define s where "s = dropWhile (\<lambda>b. b = 0) bs"
  have "length s \<le> t" using length_dropWhile_le [of "\<lambda>b. b = 0" bs] bs(1) by (simp add: s_def)
  then have "(length s - 1) div 8 + 1 \<le> t div 8 + 1" by (simp add: div_le_mono)
  moreover have "be_nat s = bn_nat a" unfolding s_def be_nat_skip by (rule bs(2))
  moreover have "BN_bin2bn mem True bs (Some r) = bin2bn_skipped mem s r" by (simp add: BN_bin2bn_def s_def)
  ultimately have "case BN_bin2bn mem True bs (Some r) of
      None \<Rightarrow> \<exists>n\<le>t div 8 + 1. bn_wexpand mem r n = None | Some r' \<Rightarrow> bn_ok r' \<and> bn_int r' = \<bar>bn_int a\<bar>"
    using bin2bn_skipped_value [of r mem s] assms(4,5) by (auto simp: bn_ok_def abs_bn_int split: option.splits)
  moreover have "BN_lebin2bn mem True (rev bs) (Some r) = BN_bin2bn mem True bs (Some r)"
    by (simp add: BN_lebin2bn_def BN_bin2bn_def)
  moreover have "BN_bn2binpad a (int t) = (int t, bs)" "BN_bn2lebinpad a (int t) = (int t, rev bs)"
    "t = BN_num_bytes a \<longrightarrow> BN_bn2bin a = (int t, bs)"
    using w by (simp_all add: BN_bn2binpad_def BN_bn2lebinpad_def BN_bn2bin_def)
  ultimately show ?thesis using False bs by auto
qed

theorem bn_bytes_roundtrip_witness:
  "\<exists>bs. BN_bn2binpad (small_bn True [0x102]) 4 = (4, bs) \<and> be_nat bs = 0x102"
proof -
  let ?a = "small_bn True [0x102]"
  have ok: "bn_ok ?a" "int (bn_dmax ?a) \<le> INT_MAX div (4 * 64)" "int 4 \<le> INT_MAX" "bn_ok BN_new" "\<not> bn_neg BN_new"
    by (simp_all add: small_bn_def bn_ok_def bn_sized_def BN_new_def)
  have nat: "bn_nat ?a = 0x102" by (simp add: small_bn_def bn_nat_def bn_words_def)
  then have "bits_of (bn_nat ?a) 9" by (simp add: bits_of_def)
  then have "BN_num_bits ?a = 9" using bits_of_unique [OF BN_num_bits_value [OF ok(1,2)]] by simp
  then have "BN_num_bytes ?a = 2" by (simp add: BN_num_bytes_def)
  then show ?thesis using bn_bytes_roundtrip [OF ok, of "\<lambda>_. True"] nat by auto
qed

end
