(* ===== verification/Spec2Isabelle.thy ===== *)
theory Spec2Isabelle
  imports BlockLock Replay PQueue Stack Statem_Handshake WPacket LHash Modes BN_Convert
begin

text \<open>
  Verification of the BlockLockCore repository: a Solana program that locks an amount of tokens for a
  day (\<^verbatim>\<open>programs/blocklockcore\<close>) and the copy of OpenSSL 1.1.1l beside it (\<^verbatim>\<open>openssl-1.1.1l\<close>), the C
  library that carries nearly all of the repository's code.

  \<^bold>\<open>Parts and theories.\<close>

  \<^item> \<open>Prelude\<close>: machine integers, big-endian byte strings, generic list and word facts, the locale
    \<open>history_invariant\<close> of transition systems whose invariant speaks of the events so far, and \<open>iterate\<close>, a loop
    whose value is \<^const>\<open>None\<close> where it does not end, with its rules for invariants and for termination.
  \<^item> \<open>BlockLock\<close>: \<^verbatim>\<open>lib.rs\<close>. The two instructions over a ledger of \<^verbatim>\<open>UserLockInfo\<close> accounts, each with the
    checks its account struct declares. Shown: an unlock succeeds exactly from 24 hours after the same
    user's last lock on, and an account holds what its owner's last instruction wrote.
  \<^item> \<open>Replay\<close>: \<^verbatim>\<open>ssl/record/dtls1_bitmap.c\<close>, and \<open>PQueue\<close>: \<^verbatim>\<open>ssl/pqueue.c\<close>. The window that refuses replayed
    DTLS records and the queue that puts them back in order, with their contracts \<open>anti_replay\<close> and
    \<open>priority_queue\<close>.
  \<^item> \<open>Stack\<close>, \<open>LHash\<close>, \<open>Buffer\<close>: the containers of libcrypto, \<^verbatim>\<open>crypto/stack/stack.c\<close> (with the binary
    search of \<^verbatim>\<open>crypto/objects/obj_dat.c\<close>), \<^verbatim>\<open>crypto/lhash/lhash.c\<close> and \<^verbatim>\<open>crypto/buffer/buffer.c\<close>. Shown:
    their invariants under every operation, allocation failures included, and that they implement a
    list (\<open>flexible_array\<close>) and a finite map (\<open>dictionary\<close>). The index arithmetic of the search is C's \<^verbatim>\<open>int\<close> and the
    sizes of the hash table are C's \<^verbatim>\<open>unsigned int\<close>: search is exact up to 2^28 elements (and shown to overflow from
    2^29 on), the hash table for fewer than 2^29 - 8 insertions, below which no size wraps.
  \<^item> \<open>WPacket\<close>: \<^verbatim>\<open>ssl/packet.c\<close> and the reader of \<^verbatim>\<open>ssl/packet_local.h\<close>. A message written through nested
    sub-packets is its encoding, and length-prefixed vectors are read back. The writer stays inside its buffer as long
    as no maximum size beyond a static array is set, which the code does not check.
  \<^item> \<open>SM4\<close>, \<open>Modes\<close>: \<^verbatim>\<open>crypto/sm4/sm4.c\<close> and the files \<^verbatim>\<open>cbc128.c\<close>, \<^verbatim>\<open>cfb128.c\<close>, \<^verbatim>\<open>ofb128.c\<close>, \<^verbatim>\<open>ctr128.c\<close> and
    \<^verbatim>\<open>wrap128.c\<close> of \<^verbatim>\<open>crypto/modes\<close>. The contract \<open>block_cipher\<close> is provided by SM4 and used by the modes;
    \<open>stream_mode\<close> is the shape that OFB, CFB and counter mode share. Shown: decryption undoes encryption in
    all of them and in key wrapping, the block-wise code equals the loops over bytes, decryption in place
    equals decryption into another buffer, 32-bit counters carry into the 128-bit counter.
  \<^item> \<open>BN_Words\<close>, \<open>Bignum\<close>, \<open>BN_Shift\<close>, \<open>BN_Single\<close>, \<open>BN_Convert\<close>: the multi-precision integers of \<^verbatim>\<open>crypto/bn\<close>. The loops over words of
    \<^verbatim>\<open>bn_asm.c\<close> (addition, subtraction, multiplication by a word) and the schoolbook multiplication of \<^verbatim>\<open>bn_mul.c\<close> are instances
    of the contract \<open>carry_chain\<close>; \<^verbatim>\<open>bn_div_words\<close> divides two words by one with a loop that is shown to
    return. Above them the object \<^verbatim>\<open>BIGNUM\<close> with \<^verbatim>\<open>bn_lib.c\<close>, \<^verbatim>\<open>bn_add.c\<close>, \<^verbatim>\<open>bn_shift.c\<close> and \<^verbatim>\<open>bn_word.c\<close>, the result of an operation
    being one of its arguments or not. Shown: each operation computes on the integer \<open>bn_int\<close> that an object stands for,
    keeps the invariant \<open>bn_ok\<close> (no leading zero words, no negative zero), and fails only for want of memory; lengths in bits, single bits
    and byte strings are those of its magnitude.
  \<^item> \<open>Constant_Time\<close>: \<^verbatim>\<open>include/internal/constant_time.h\<close>, the comparisons without branches that the length of a
    secret number uses. Shown: they are the comparisons they stand for, at every width.
  \<^item> \<open>Statem_Types\<close>, \<open>Statem_Client\<close>, \<open>Statem_Server\<close>: \<^verbatim>\<open>ssl/statem\<close>. The state of a connection, and for
    either side the functions that decide which message may be read and which one is written next,
    from SSL 3 to TLS 1.3 and in DTLS. Shown by invariants over message histories: no side completes a
    handshake without the peer's Finished, the TLS 1.3 client authenticates the server, the server does
    not skip the CertificateVerify of a client certificate unless the key exchange has waived it (GOST), refused messages end in a fatal alert.
  \<^item> \<open>Statem_Loop\<close>, \<open>Statem_Handshake\<close>: the loops of \<^verbatim>\<open>ssl/statem/statem.c\<close> that call these functions, with the
    work before and after each message (\<^verbatim>\<open>statem_clnt.c\<close>, \<^verbatim>\<open>statem_srvr.c\<close>), \<^verbatim>\<open>tls_finish_handshake\<close> and
    \<^verbatim>\<open>SSL_clear\<close>. Everything the loops call outside the message flow is a field of a record of routines over a
    world of any type; \<open>orderly\<close>, \<open>client_routines\<close>, \<open>server_routines\<close> and \<open>settled\<close> say what is expected
    of them, and a sample of routines that runs whole handshakes satisfies them. A history variable records
    messages read and states entered. The locale \<open>phase_invariant\<close> gives the sub-machines an invariant for
    each of their phases, \<open>loop_invariant\<close> and \<open>handshake_invariant\<close> lift it to the outer loop and to any
    number of calls. Shown: a call that returns 1 has read the peer's ChangeCipherSpec and Finished, is out of initialisation and
    in one of three states; the client's reading sub-machine always returns and its writing one unless it has to answer a
    HelloRetryRequest while early data are being connected; the count of nested handshakes is kept
    except where \<^verbatim>\<open>SSL_clear\<close> fails.

  The containers are used by the layers above them: the packet writer grows a \<^verbatim>\<open>BUF_MEM\<close>, the queue holds
  the records that passed the window, the message flow decides which messages the packet writer builds.

  \<^bold>\<open>Conventions.\<close> A C or Rust integer is a word where wrap-around can matter and a number where the code
  keeps it in range (the range is then part of an invariant or a hypothesis). A pointer that may be
  \<^verbatim>\<open>NULL\<close> is an option, an array a list, a list of nodes a list. Success of an allocation is an argument
  or a field of an environment, so failures are branches of the model. Code outside the sources (the
  Solana runtime, hash and comparison functions of a client, a cipher given to a mode) is a parameter, what is
  expected of it a named hypothesis. Loops are recursions over the data they walk, with a measure where they
  take several elements at a time; \<^verbatim>\<open>compute_growth\<close> is a partial function, shown to return, and the handshake loops are
  instances of \<open>iterate\<close>: the sub-machines of a client are shown to return, of the outer loop, which a peer can keep
  busy for as long as it sends messages, the results are described for the calls that do.

  \<^bold>\<open>Build.\<close> The configuration is the one of a 64-bit platform without the optional debug code. Its word routines are the
  portable C of \<^verbatim>\<open>bn_asm.c\<close> with 128-bit products; the build for x86-64 puts assembly in their place.

  \<^bold>\<open>Not modelled.\<close> The bodies of handshake messages, the record layer beyond the replay window,
  multiplication by Karatsuba's method and modular arithmetic, public-key schemes, the other cryptographic algorithms and modes, ASN.1 and X.509, command line tools, generated tables and assembly, and the
  JavaScript that calls the program; freeing of memory is not represented.
\<close>

end
